(* ===== verification/Pc_Prelude.thy ===== *)
theory Pc_Prelude
  imports Main "HOL-Library.Word"
begin

text \<open>
  Shared vocabulary of the development: the C++ integer types as words of their width, byte
  strings, the result type of operations that may throw, little-endian loads and stores of
  machine words (the code copies structs and prefixes with \<^verbatim>\<open>memcpy\<close> on a
  little-endian host), the overwrite of a sub-range of a byte buffer, and the generic lemmas
  on words and lists that several components use.
\<close>

unbundle bit_operations_syntax

section \<open>Types of the source\<close>

type_synonym u8 = "8 word"
type_synonym u16 = "16 word"
type_synonym u32 = "32 word"
type_synonym u64 = "64 word"

text \<open>
  Signed integers are words as well; they are read with \<^const>\<open>sint\<close> wherever the source
  compares them. \<^verbatim>\<open>std::size_t\<close> is 64 bits wide on the targets of the build.
\<close>

type_synonym i32 = "32 word"
type_synonym i64 = "64 word"

type_synonym bytes = "u8 list"

text \<open>The exceptions the code throws, with the class of each.\<close>

datatype exn =
    InvalidArgument string
  | RuntimeError string
  | UsageError string
  | SystemError string

type_synonym 'a result = "exn + 'a"

named_theorems pc_defs \<open>definitions of the model that automation may unfold\<close>
named_theorems pc_bits \<open>bit-level lemmas on words\<close>

section \<open>Little-endian loads and stores\<close>

primrec store_le :: "nat \<Rightarrow> 'a::len word \<Rightarrow> bytes" where
  "store_le 0 w = []"
| "store_le (Suc n) w = ucast w # store_le n (drop_bit 8 w)"

primrec load_le :: "bytes \<Rightarrow> 'a::len word" where
  "load_le [] = 0"
| "load_le (b # bs) = ucast b OR push_bit 8 (load_le bs)"

lemma length_store_le [simp]: "length (store_le n w) = n"
  by (induction n arbitrary: w) simp_all

lemma load_le_store_le: "load_le (store_le n w) = take_bit (8 * n) w"
proof (induction n arbitrary: w)
  case 0
  show ?case by simp
next
  case (Suc n)
  have "load_le (store_le (Suc n) w) = ucast (ucast w :: u8) OR push_bit 8 (take_bit (8 * n) (drop_bit 8 w))"
    by (simp add: Suc.IH)
  also have "\<dots> = take_bit (8 * Suc n) w"
    by (rule bit_word_eqI) (auto simp: bit_simps)
  finally show ?case .
qed

lemma store_le_load_le:
  "8 * length bs \<le> LENGTH('a) \<Longrightarrow> store_le (length bs) (load_le bs :: 'a::len word) = bs"
proof (induction bs)
  case Nil
  show ?case by simp
next
  case (Cons b bs)
  let ?r = "load_le bs :: 'a word"
  have "ucast (load_le (b # bs) :: 'a word) = b"
    using Cons.prems by (intro bit_word_eqI) (auto simp: bit_simps)
  moreover have "drop_bit 8 (load_le (b # bs) :: 'a word) = take_bit (LENGTH('a) - 8) ?r"
    by (rule bit_word_eqI) (auto simp: bit_simps dest: bit_imp_le_length)
  moreover have "take_bit (LENGTH('a) - 8) ?r = ?r"
  proof -
    have "?r = take_bit (8 * length bs) ?r"
      using load_le_store_le [of "length bs" ?r] Cons by simp
    moreover have "min (LENGTH('a) - 8) (8 * length bs) = 8 * length bs"
      using Cons.prems by simp
    ultimately show ?thesis
      by (metis take_bit_take_bit)
  qed
  ultimately show ?case using Cons by simp
qed

lemma load_le_store_le_full:
  "LENGTH('a) \<le> 8 * n \<Longrightarrow> load_le (store_le n w) = (w :: 'a::len word)"
  by (simp add: load_le_store_le take_bit_word_eq_self)

lemma load_le_append:
  "load_le (as @ bs) = (load_le as OR push_bit (8 * length as) (load_le bs) :: 'a::len word)"
  by (induction as) (simp_all add: push_bit_or or.assoc)

section \<open>Overwriting a sub-range of a buffer\<close>

text \<open>
  \<^verbatim>\<open>memcpy(buf + off, bs, n)\<close> for a copy that stays inside the buffer.
\<close>

definition blit :: "nat \<Rightarrow> 'a list \<Rightarrow> 'a list \<Rightarrow> 'a list" where
  "blit off bs buf = take off buf @ bs @ drop (off + length bs) buf"

lemma length_blit [simp]:
  "off + length bs \<le> length buf \<Longrightarrow> length (blit off bs buf) = length buf"
  by (simp add: blit_def)

lemma blit_nth:
  assumes "off + length bs \<le> length buf"
  shows "blit off bs buf ! i = (if off \<le> i \<and> i < off + length bs then bs ! (i - off) else buf ! i)"
proof -
  consider "i < off" | "off \<le> i" "i < off + length bs" | "off + length bs \<le> i" by linarith
  then show ?thesis
    by cases (use assms in \<open>auto simp: blit_def nth_append nth_append_right\<close>)
qed

lemma slice_blit_other:
  assumes "off + length bs \<le> length buf" "k + n \<le> off \<or> off + length bs \<le> k"
  shows "take n (drop k (blit off bs buf)) = take n (drop k buf)"
proof (rule nth_equalityI)
  show "length (take n (drop k (blit off bs buf))) = length (take n (drop k buf))"
    using assms by simp
next
  fix i assume "i < length (take n (drop k (blit off bs buf)))"
  then have "k \<le> length buf" "i < n" using assms by auto
  then show "take n (drop k (blit off bs buf)) ! i = take n (drop k buf) ! i"
    using assms by (auto simp: blit_nth)
qed

lemma slice_blit_same:
  "off + length bs \<le> length buf \<Longrightarrow> take (length bs) (drop off (blit off bs buf)) = bs"
  by (simp add: blit_def)

lemma slice_take: "k + n \<le> m \<Longrightarrow> take n (drop k (take m xs)) = take n (drop k xs)"
  by (simp add: drop_take min_def)

section \<open>Words\<close>

lemma unat_of_nat_small: "n < 2 ^ LENGTH('a) \<Longrightarrow> unat (of_nat n :: 'a::len word) = n"
  by (simp add: unat_of_nat)

lemma unat_add_small:
  "unat a + unat b < 2 ^ LENGTH('a) \<Longrightarrow> unat (a + b) = unat a + unat (b :: 'a::len word)"
  by (simp add: unat_word_ariths)

lemma unat_sub_small: "unat b \<le> unat a \<Longrightarrow> unat (a - b) = unat a - unat (b :: 'a::len word)"
  by (simp add: unat_sub word_le_nat_alt)

lemma unat_two_power: "k \<le> 63 \<Longrightarrow> unat (2 ^ k :: u64) = 2 ^ k"
  using unat_of_nat_small [where ?'a = 64, of "2 ^ k"] power_strict_increasing [of k 64 "2 :: nat"]
  by simp

lemma unat_Suc_below: "a < b \<Longrightarrow> unat (a + 1) = Suc (unat a)" for a b :: "'a::len word"
proof -
  assume "a < b"
  then have "Suc (unat a) \<le> unat b" by (simp add: word_less_nat_alt)
  also have "\<dots> < 2 ^ LENGTH('a)" by (rule unsigned_less)
  finally show ?thesis by (subst unat_add_small) simp_all
qed

lemma word_xor_left_cancel [simp]: "(a XOR b = a XOR c) = (b = c)" for a :: "'a::len word"
  by (metis xor.assoc xor.left_neutral xor_self_eq)

lemma word_xor_right_cancel [simp]: "(b XOR a = c XOR a) = (b = c)" for a :: "'a::len word"
  by (metis word_xor_left_cancel xor.commute)

lemma load_le_bit: "bit (load_le bs :: 'a::len word) k \<Longrightarrow> k < 8 * length bs"
proof (induction bs arbitrary: k)
  case Nil
  then show ?case by simp
next
  case (Cons b bs)
  from Cons.prems consider "bit b k" | "8 \<le> k" "bit (load_le bs :: 'a word) (k - 8)"
    by (auto simp: bit_simps)
  then show ?case
    by cases (use Cons.IH [of "k - 8"] in \<open>auto dest: bit_imp_le_length\<close>)
qed

lemma load_le_inj:
  assumes "load_le xs = (load_le ys :: 'a::len word)" "length xs = length ys" "8 * length xs \<le> LENGTH('a)"
  shows "xs = ys"
proof -
  have "xs = store_le (length xs) (load_le xs :: 'a word)"
    using assms(3) by (rule store_le_load_le [symmetric])
  also have "\<dots> = store_le (length ys) (load_le ys :: 'a word)"
    by (simp only: assms(1,2))
  also have "\<dots> = ys"
    using assms(3) unfolding assms(2) by (rule store_le_load_le)
  finally show ?thesis .
qed

lemma ucast_u64_u32 [simp]: "ucast (ucast (c :: u32) :: u64) = c"
  by (rule bit_word_eqI) (simp add: bit_simps)

lemma unat_ucast_u32_u64 [simp]: "unat (ucast (x :: u32) :: u64) = unat x"
proof -
  have "unat x < 2 ^ LENGTH(32)" by (rule unsigned_less)
  then have "unat x < 2 ^ 64" by simp
  then show ?thesis by (simp add: unsigned_ucast_eq take_bit_nat_eq_self)
qed

lemma word_eq_0_iff_bit: "x = 0 \<longleftrightarrow> (\<forall>n. \<not> bit x n)" for x :: "'a::len word"
  by (auto intro: bit_word_eqI)

section \<open>Lists\<close>

lemma slice_append_drop: "take n (drop k xs) @ drop (k + n) xs = drop k xs"
  by (metis add.commute append_take_drop_id drop_drop)

lemma foldl_take_drop: "foldl f (foldl f s (take n xs)) (drop n xs) = foldl f s xs"
  by (simp flip: foldl_append)

lemma slice_window:
  assumes "length xs = length ys" "k + n \<le> length pre \<or> length pre + length xs \<le> k"
  shows "take n (drop k (pre @ xs @ post)) = take n (drop k (pre @ ys @ post))"
  using assms by auto


text \<open>An element with a property, with another one holding up to it.\<close>

lemma first_such_Cons:
  "(\<exists>before y after. x # xs = before @ y # after \<and> (\<forall>b \<in> set (before @ [y]). P b) \<and> Q y) \<longleftrightarrow>
     P x \<and> (Q x \<or> (\<exists>before y after. xs = before @ y # after \<and> (\<forall>b \<in> set (before @ [y]). P b) \<and> Q y))" (is "?L \<longleftrightarrow> ?R")
proof
  assume ?L
  then obtain before y after where y: "x # xs = before @ y # after" "\<forall>b \<in> set (before @ [y]). P b" "Q y" by blast
  then show ?R by (cases before) auto
next
  assume R: ?R
  show ?L
  proof (cases "Q x")
    case True
    then show ?thesis using R by (intro exI [of _ "[]"] exI [of _ x] exI [of _ xs]) simp
  next
    case False
    then obtain bs y after where "xs = bs @ y # after" "\<forall>b \<in> set (bs @ [y]). P b" "Q y" using R by blast
    then show ?thesis using R by (intro exI [of _ "x # bs"] exI [of _ y] exI [of _ after]) simp
  qed
qed

section \<open>Decimal numbers\<close>

text \<open>\<^verbatim>\<open>std::to_string\<close> and the \<^verbatim>\<open>{}\<close> format of integers.\<close>

definition digit_char :: "nat \<Rightarrow> char" where
  "digit_char d = char_of (48 + d)"

fun show_nat :: "nat \<Rightarrow> string" where
  "show_nat n = (if n < 10 then [digit_char n] else show_nat (n div 10) @ [digit_char (n mod 10)])"

declare show_nat.simps [simp del]

definition show_int :: "int \<Rightarrow> string" where
  "show_int i = (if i < 0 then CHR ''-'' # show_nat (nat (- i)) else show_nat (nat i))"

definition quoted :: "string \<Rightarrow> string" where
  "quoted s = CHR 0x27 # s @ [CHR 0x27]"

end
