(* ===== verification/Shm_Region.thy ===== *)
theory Shm_Region
  imports Pc_Prelude
begin

text \<open>
  Mirrored shared-memory regions: \<^verbatim>\<open>common/src/shm_region.cpp\<close> and
  \<^verbatim>\<open>common/include/pc/shm_region.hpp\<close>. The operating system is a parameter that answers every system
  call, given the calls so far; each operation extends the trace of calls, destructors included.
  The lemmas follow the file descriptors, mappings and names a trace leaves behind and show that
  no operation leaks one on any path.
\<close>

section \<open>System calls\<close>

datatype syscall =
    SysConfPageSize
  | ShmUnlink string
  | ShmOpenCreate string
  | ShmOpen string
  | Ftruncate u64 u64
  | Fstat u64
  | MmapShared "u64 option" u64 u64 u64
  | MmapReserve u64
  | Munmap u64 u64
  | Close u64

text \<open>
  A call fails with an \<^verbatim>\<open>errno\<close> or returns a value: a size, a descriptor, \<^verbatim>\<open>st_size\<close>, an address.
  \<open>MmapShared\<close> has the fixed address, if any, the length, the descriptor and the file offset.
\<close>

datatype errno = ENOENT | OtherErrno nat

datatype sysret = RetErr errno | RetVal u64

type_synonym trace = "(syscall \<times> sysret) list"

type_synonym os = "trace \<Rightarrow> syscall \<Rightarrow> sysret"

definition sys :: "os \<Rightarrow> syscall \<Rightarrow> trace \<Rightarrow> sysret \<times> trace" where
  "sys os c tr = (let r = os tr c in (r, tr @ [(c, r)]))"

section \<open>Regions\<close>

record MirroredShmRegion =
  mr_name :: string
  mr_header :: "u64 option"
  mr_data :: "u64 option"
  mr_header_bytes :: u64
  mr_data_bytes :: u64
  mr_owner :: bool

definition validate_name :: "string \<Rightarrow> exn option" where
  "validate_name name =
     (if length name < 2 \<or> name ! 0 \<noteq> CHR ''/'' \<or> CHR ''/'' \<in> set (drop 1 name)
      then Some (InvalidArgument (''shared memory name must look like '' @ quoted ''/name'' @ '' (single leading slash)''))
      else None)"

definition page_size :: "os \<Rightarrow> trace \<Rightarrow> u64 result \<times> trace" where
  "page_size os tr =
     (let (r, tr) = sys os SysConfPageSize tr
      in case r of
           RetErr e \<Rightarrow> (Inl (SystemError ''sysconf(_SC_PAGESIZE)''), tr)
         | RetVal n \<Rightarrow> if sint n \<le> 0 then (Inl (SystemError ''sysconf(_SC_PAGESIZE)''), tr) else (Inr n, tr))"

definition region_unlink :: "os \<Rightarrow> MirroredShmRegion \<Rightarrow> trace \<Rightarrow> MirroredShmRegion \<times> trace" where
  "region_unlink os region tr =
     (if mr_owner region
      then let (r, tr) = sys os (ShmUnlink (mr_name region)) tr in (region\<lparr>mr_owner := False\<rparr>, tr)
      else (region, tr))"

definition release_data :: "os \<Rightarrow> MirroredShmRegion \<times> trace \<Rightarrow> MirroredShmRegion \<times> trace" where
  "release_data os x =
     (let (region, tr) = x
      in case mr_data region of
           None \<Rightarrow> (region, tr)
         | Some a \<Rightarrow> let (r, tr) = sys os (Munmap a (2 * mr_data_bytes region)) tr in (region\<lparr>mr_data := None\<rparr>, tr))"

definition release_header :: "os \<Rightarrow> MirroredShmRegion \<times> trace \<Rightarrow> MirroredShmRegion \<times> trace" where
  "release_header os x =
     (let (region, tr) = x
      in case mr_header region of
           None \<Rightarrow> (region, tr)
         | Some a \<Rightarrow> let (r, tr) = sys os (Munmap a (mr_header_bytes region)) tr in (region\<lparr>mr_header := None\<rparr>, tr))"

definition region_release :: "os \<Rightarrow> MirroredShmRegion \<Rightarrow> trace \<Rightarrow> MirroredShmRegion \<times> trace" where
  "region_release os region tr = release_header os (release_data os (region_unlink os region tr))"

text \<open>An exception in \<^verbatim>\<open>map\<close> destroys the region built so far.\<close>

definition map_throw :: "os \<Rightarrow> exn \<Rightarrow> MirroredShmRegion \<Rightarrow> trace \<Rightarrow> MirroredShmRegion result \<times> trace" where
  "map_throw os e region tr = (Inl e, snd (region_release os region tr))"

text \<open>The loop over the two halves of the data area, from \<open>half\<close> on.\<close>

fun map_halves :: "os \<Rightarrow> u64 \<Rightarrow> u64 \<Rightarrow> MirroredShmRegion \<Rightarrow> u64 list \<Rightarrow> trace \<Rightarrow> MirroredShmRegion result \<times> trace" where
  "map_halves os fd base region [] tr = (Inr region, tr)"
| "map_halves os fd base region (half # halves) tr =
     (let target = base + half * mr_data_bytes region;
          (r, tr) = sys os (MmapShared (Some target) (mr_data_bytes region) fd (mr_header_bytes region)) tr
      in case r of
           RetErr e \<Rightarrow> map_throw os (SystemError ''mmap(data)'') region tr
         | RetVal mapped \<Rightarrow>
             if mapped \<noteq> target then map_throw os (RuntimeError ''mmap(MAP_FIXED) returned an unexpected address'') region tr
             else map_halves os fd base region halves tr)"

definition region_map :: "os \<Rightarrow> u64 \<Rightarrow> string \<Rightarrow> u64 \<Rightarrow> u64 \<Rightarrow> bool \<Rightarrow> trace \<Rightarrow> MirroredShmRegion result \<times> trace" where
  "region_map os fd name header_bytes data_bytes owner tr =
     (let region = \<lparr>mr_name = name, mr_header = None, mr_data = None, mr_header_bytes = header_bytes,
                     mr_data_bytes = data_bytes, mr_owner = owner\<rparr>;
          (r, tr) = sys os (MmapShared None header_bytes fd 0) tr
      in case r of
           RetErr e \<Rightarrow> map_throw os (SystemError ''mmap(header)'') region tr
         | RetVal header \<Rightarrow>
             let region = region\<lparr>mr_header := Some header\<rparr>;
                 (r, tr) = sys os (MmapReserve (2 * data_bytes)) tr
             in case r of
                  RetErr e \<Rightarrow> map_throw os (SystemError ''mmap(reserve)'') region tr
                | RetVal base \<Rightarrow> map_halves os fd base (region\<lparr>mr_data := Some base\<rparr>) [0, 1] tr)"

text \<open>The destructor of the descriptor guard.\<close>

definition close_fd :: "os \<Rightarrow> u64 \<Rightarrow> 'a \<times> trace \<Rightarrow> 'a \<times> trace" where
  "close_fd os fd x = (let (res, tr) = x; (r, tr) = sys os (Close fd) tr in (res, tr))"

text \<open>What \<^verbatim>\<open>create\<close> does with the open descriptor, before the guard closes it.\<close>

definition create_sized :: "os \<Rightarrow> u64 \<Rightarrow> string \<Rightarrow> u64 \<Rightarrow> u64 \<Rightarrow> trace \<Rightarrow> MirroredShmRegion result \<times> trace" where
  "create_sized os fd name page data_capacity tr =
     (let total = page + data_capacity; (r, tr) = sys os (Ftruncate fd total) tr
      in case r of
           RetErr e \<Rightarrow> let (r, tr) = sys os (ShmUnlink name) tr in (Inl (SystemError ''ftruncate''), tr)
         | RetVal v \<Rightarrow>
             (case region_map os fd name page data_capacity True tr of
                (Inl e, tr) \<Rightarrow> let (r, tr) = sys os (ShmUnlink name) tr in (Inl e, tr)
              | (Inr region, tr) \<Rightarrow> (Inr region, tr)))"

definition create :: "os \<Rightarrow> string \<Rightarrow> u64 \<Rightarrow> trace \<Rightarrow> MirroredShmRegion result \<times> trace" where
  "create os name data_capacity tr =
     (case validate_name name of
        Some e \<Rightarrow> (Inl e, tr)
      | None \<Rightarrow>
          (case page_size os tr of
             (Inl e, tr) \<Rightarrow> (Inl e, tr)
           | (Inr page, tr) \<Rightarrow>
               if data_capacity = 0 \<or> data_capacity mod page \<noteq> 0
               then (Inl (InvalidArgument ''shared memory data capacity must be a non-zero multiple of the page size''), tr)
               else
                 let (r, tr) = sys os (ShmUnlink name) tr;
                     (r, tr) = sys os (ShmOpenCreate name) tr
                 in case r of
                      RetErr e \<Rightarrow> (Inl (SystemError ''shm_open(O_CREAT)''), tr)
                    | RetVal fd \<Rightarrow> close_fd os fd (create_sized os fd name page data_capacity tr)))"

definition open_sized :: "os \<Rightarrow> u64 \<Rightarrow> string \<Rightarrow> trace \<Rightarrow> MirroredShmRegion option result \<times> trace" where
  "open_sized os fd name tr =
     (let (r, tr) = sys os (Fstat fd) tr
      in case r of
           RetErr e \<Rightarrow> (Inl (SystemError ''fstat''), tr)
         | RetVal file_size \<Rightarrow>
             (case page_size os tr of
                (Inl e, tr) \<Rightarrow> (Inl e, tr)
              | (Inr page, tr) \<Rightarrow>
                  if file_size = 0 then (Inr None, tr)
                  else if file_size < 2 * page \<or> (file_size - page) mod page \<noteq> 0
                  then (Inl (RuntimeError (''shared memory object '' @ quoted name @ '' has an unexpected size'')), tr)
                  else (case region_map os fd name page (file_size - page) False tr of
                          (Inl e, tr) \<Rightarrow> (Inl e, tr)
                        | (Inr region, tr) \<Rightarrow> (Inr (Some region), tr))))"

definition try_open :: "os \<Rightarrow> string \<Rightarrow> trace \<Rightarrow> MirroredShmRegion option result \<times> trace" where
  "try_open os name tr =
     (case validate_name name of
        Some e \<Rightarrow> (Inl e, tr)
      | None \<Rightarrow>
          let (r, tr) = sys os (ShmOpen name) tr
          in case r of
               RetErr e \<Rightarrow> if e = ENOENT then (Inr None, tr) else (Inl (SystemError ''shm_open''), tr)
             | RetVal fd \<Rightarrow> close_fd os fd (open_sized os fd name tr))"

text \<open>The moved-from region keeps an empty name; \<open>move_assign\<close> is the assignment of a different object.\<close>

definition moved_from :: "MirroredShmRegion \<Rightarrow> MirroredShmRegion" where
  "moved_from other = other\<lparr>mr_name := [], mr_header := None, mr_data := None, mr_header_bytes := 0, mr_data_bytes := 0, mr_owner := False\<rparr>"

definition move_construct :: "MirroredShmRegion \<Rightarrow> MirroredShmRegion \<times> MirroredShmRegion" where
  "move_construct other = (other, moved_from other)"

definition move_assign :: "os \<Rightarrow> MirroredShmRegion \<Rightarrow> MirroredShmRegion \<Rightarrow> trace \<Rightarrow> (MirroredShmRegion \<times> MirroredShmRegion) \<times> trace" where
  "move_assign os this other tr =
     (let (this, tr) = region_release os this tr
      in ((this\<lparr>mr_name := mr_name other, mr_header := mr_header other, mr_data := mr_data other, mr_header_bytes := mr_header_bytes other,
            mr_data_bytes := mr_data_bytes other, mr_owner := mr_owner other\<rparr>, moved_from other), tr))"

section \<open>What a trace leaves behind\<close>

record resources =
  re_fds :: "u64 list"
  re_mapped :: "(u64 \<times> u64) list"
  re_names :: "string list"

definition no_resources :: resources where
  "no_resources = \<lparr>re_fds = [], re_mapped = [], re_names = []\<rparr>"

text \<open>
  A successful open adds a descriptor and an exclusive one a name, a mapping at a fresh address
  adds a range; closing, unmapping and unlinking remove them (whatever they return: the code
  ignores it). A fixed mapping lies in a range already reserved.
\<close>

fun apply_call :: "syscall \<times> sysret \<Rightarrow> resources \<Rightarrow> resources" where
  "apply_call (ShmOpenCreate name, RetVal fd) s = s\<lparr>re_fds := fd # re_fds s, re_names := name # re_names s\<rparr>"
| "apply_call (ShmOpen name, RetVal fd) s = s\<lparr>re_fds := fd # re_fds s\<rparr>"
| "apply_call (MmapShared None n fd off, RetVal a) s = s\<lparr>re_mapped := (a, n) # re_mapped s\<rparr>"
| "apply_call (MmapReserve n, RetVal a) s = s\<lparr>re_mapped := (a, n) # re_mapped s\<rparr>"
| "apply_call (Munmap a n, r) s = s\<lparr>re_mapped := remove1 (a, n) (re_mapped s)\<rparr>"
| "apply_call (Close fd, r) s = s\<lparr>re_fds := remove1 fd (re_fds s)\<rparr>"
| "apply_call (ShmUnlink name, r) s = s\<lparr>re_names := filter (\<lambda>n. n \<noteq> name) (re_names s)\<rparr>"
| "apply_call c s = s"

definition held :: "trace \<Rightarrow> resources" where
  "held tr = fold apply_call tr no_resources"

lemma held_Nil [simp]: "held [] = no_resources"
  by (simp add: held_def)

lemma held_append [simp]: "held (tr @ tr') = fold apply_call tr' (held tr)"
  by (simp add: held_def)

lemma sys_simps [simp]: "fst (sys os c tr) = os tr c" "snd (sys os c tr) = tr @ [(c, os tr c)]"
  by (simp_all add: sys_def Let_def)

lemma sys_eq: "sys os c tr = (os tr c, tr @ [(c, os tr c)])"
  by (simp add: sys_def Let_def)

text \<open>The ranges a region has mapped, the last one first.\<close>

definition ranges :: "MirroredShmRegion \<Rightarrow> (u64 \<times> u64) list" where
  "ranges region = (case mr_data region of None \<Rightarrow> [] | Some a \<Rightarrow> [(a, 2 * mr_data_bytes region)]) @
     (case mr_header region of None \<Rightarrow> [] | Some a \<Rightarrow> [(a, mr_header_bytes region)])"

definition unnamed :: "string \<Rightarrow> resources \<Rightarrow> resources" where
  "unnamed name s = s\<lparr>re_names := filter (\<lambda>n. n \<noteq> name) (re_names s)\<rparr>"

definition with_ranges :: "(u64 \<times> u64) list \<Rightarrow> resources \<Rightarrow> resources" where
  "with_ranges rs s = s\<lparr>re_mapped := rs @ re_mapped s\<rparr>"

text \<open>Releasing a region whose ranges were mapped last gives them back, and the name of an owner.\<close>

lemma release_held:
  assumes "held tr = with_ranges (ranges region) s"
  shows "held (snd (region_release os region tr)) = (if mr_owner region then unnamed (mr_name region) s else s)"
  using assms
  by (auto simp: region_release_def release_header_def release_data_def region_unlink_def sys_eq Let_def ranges_def with_ranges_def
      unnamed_def split: option.split)

lemma release_result:
  "mr_data (fst (region_release os region tr)) = None" "mr_header (fst (region_release os region tr)) = None"
  "\<not> mr_owner (fst (region_release os region tr))"
  by (auto simp: region_release_def release_header_def release_data_def region_unlink_def sys_eq Let_def split: option.split)

lemma release_twice:
  "region_release os (fst (region_release os region tr)) tr' = (fst (region_release os region tr), tr')"
  using release_result [of os region tr]
  by (simp add: region_release_def [of os "fst (region_release os region tr)"] release_header_def release_data_def region_unlink_def)

lemma map_halves_held:
  assumes "held tr = with_ranges (ranges region) s" "map_halves os fd base region halves tr = (res, tr')"
  shows "case res of
      Inl e \<Rightarrow> held tr' = (if mr_owner region then unnamed (mr_name region) s else s)
    | Inr r \<Rightarrow> r = region \<and> held tr' = with_ranges (ranges region) s \<and> set tr \<subseteq> set tr' \<and>
        (\<forall>half \<in> set halves. (MmapShared (Some (base + half * mr_data_bytes region)) (mr_data_bytes region) fd (mr_header_bytes region),
          RetVal (base + half * mr_data_bytes region)) \<in> set tr')"
  using assms
proof (induction halves arbitrary: tr)
  case (Cons half halves)
  let ?target = "base + half * mr_data_bytes region"
  let ?c = "MmapShared (Some ?target) (mr_data_bytes region) fd (mr_header_bytes region)"
  define tr1 where "tr1 = tr @ [(?c, os tr ?c)]"
  have same: "held tr1 = with_ranges (ranges region) s" using Cons.prems(1) by (cases "os tr ?c") (simp_all add: tr1_def)
  show ?case
  proof (cases "os tr ?c = RetVal ?target")
    case True
    then have "map_halves os fd base region halves tr1 = (res, tr')" using Cons.prems(2) by (simp add: sys_eq Let_def tr1_def)
    from Cons.IH [OF same this] True show ?thesis by (auto simp: tr1_def split: sum.splits)
  next
    case False
    then have "\<exists>e. map_throw os e region tr1 = (res, tr')"
      using Cons.prems(2) by (auto simp: sys_eq Let_def tr1_def split: sysret.splits if_splits)
    then show ?thesis using release_held [OF same] by (auto simp: map_throw_def)
  qed
qed auto

text \<open>The two halves of the data area show the same bytes of the file.\<close>

definition mirrored :: "u64 \<Rightarrow> MirroredShmRegion \<Rightarrow> trace \<Rightarrow> bool" where
  "mirrored fd region tr \<longleftrightarrow> (\<exists>base. mr_data region = Some base \<and>
     (\<forall>a \<in> {base, base + mr_data_bytes region}.
        (MmapShared (Some a) (mr_data_bytes region) fd (mr_header_bytes region), RetVal a) \<in> set tr))"

definition region_fields :: "string \<Rightarrow> u64 \<Rightarrow> u64 \<Rightarrow> bool \<Rightarrow> MirroredShmRegion \<Rightarrow> bool" where
  "region_fields name header_bytes data_bytes owner region \<longleftrightarrow> mr_name region = name \<and> mr_header region \<noteq> None \<and>
     mr_header_bytes region = header_bytes \<and> mr_data_bytes region = data_bytes \<and> mr_owner region = owner"

lemma region_map_held:
  assumes "region_map os fd name header_bytes data_bytes owner tr = (res, tr')"
  shows "case res of
      Inl e \<Rightarrow> held tr' = (if owner then unnamed name (held tr) else held tr)
    | Inr r \<Rightarrow> region_fields name header_bytes data_bytes owner r \<and> held tr' = with_ranges (ranges r) (held tr) \<and> mirrored fd r tr'"
proof -
  define r0 where "r0 = \<lparr>mr_name = name, mr_header = None, mr_data = None, mr_header_bytes = header_bytes,
    mr_data_bytes = data_bytes, mr_owner = owner\<rparr>"
  let ?c = "MmapShared None header_bytes fd 0"
  define tr1 where "tr1 = tr @ [(?c, os tr ?c)]"
  let ?d = "MmapReserve (2 * data_bytes)"
  define tr2 where "tr2 = tr1 @ [(?d, os tr1 ?d)]"
  have map: "(case os tr ?c of RetErr e \<Rightarrow> map_throw os (SystemError ''mmap(header)'') r0 tr1
      | RetVal header \<Rightarrow> (case os tr1 ?d of RetErr e \<Rightarrow> map_throw os (SystemError ''mmap(reserve)'') (r0\<lparr>mr_header := Some header\<rparr>) tr2
        | RetVal base \<Rightarrow> map_halves os fd base (r0\<lparr>mr_header := Some header, mr_data := Some base\<rparr>) [0, 1] tr2)) = (res, tr')"
    using assms unfolding region_map_def r0_def [symmetric] Let_def sys_eq prod.case tr1_def [symmetric] tr2_def [symmetric] .
  show ?thesis
  proof (cases "os tr ?c")
    case (RetErr e)
    then have "held tr1 = with_ranges (ranges r0) (held tr)" by (simp add: tr1_def with_ranges_def ranges_def r0_def)
    from release_held [OF this] RetErr map show ?thesis by (auto simp: map_throw_def r0_def)
  next
    case header: (RetVal header)
    let ?r1 = "r0\<lparr>mr_header := Some header\<rparr>"
    have held1: "held tr1 = with_ranges (ranges ?r1) (held tr)" using header by (simp add: tr1_def with_ranges_def ranges_def r0_def)
    show ?thesis
    proof (cases "os tr1 ?d")
      case (RetErr e)
      then have "held tr2 = with_ranges (ranges ?r1) (held tr)" using held1 by (simp add: tr2_def)
      from release_held [OF this] RetErr header map show ?thesis by (auto simp: map_throw_def r0_def)
    next
      case (RetVal base)
      let ?r2 = "?r1\<lparr>mr_data := Some base\<rparr>"
      have held2: "held tr2 = with_ranges (ranges ?r2) (held tr)"
        using held1 RetVal by (simp add: tr2_def with_ranges_def ranges_def r0_def)
      from RetVal header map have "map_halves os fd base ?r2 [0, 1] tr2 = (res, tr')" by simp
      from map_halves_held [OF held2 this] show ?thesis
        by (auto simp: r0_def region_fields_def mirrored_def split: sum.splits)
    qed
  qed
qed


section \<open>Creating and opening\<close>

definition page_multiple :: "u64 \<Rightarrow> u64 \<Rightarrow> bool" where
  "page_multiple page n \<longleftrightarrow> n mod page = 0"

lemma page_size_held:
  "held (snd (page_size os tr)) = held tr" "fst (page_size os tr) = Inr page \<Longrightarrow> 0 < sint page"
  by (auto simp: page_size_def sys_eq Let_def split: sysret.splits if_splits)

lemma close_fd_held:
  "held (snd (close_fd os fd x)) = (held (snd x))\<lparr>re_fds := remove1 fd (re_fds (held (snd x)))\<rparr>"
  "fst (close_fd os fd x) = fst x" "set (snd x) \<subseteq> set (snd (close_fd os fd x))"
  by (auto simp: close_fd_def sys_eq split_beta Let_def)

lemma mirrored_mono: "mirrored fd r tr \<Longrightarrow> set tr \<subseteq> set tr' \<Longrightarrow> mirrored fd r tr'"
  by (auto simp: mirrored_def)

lemma create_sized_held:
  assumes "create_sized os fd name page data_capacity tr = (res, tr')"
  shows "case res of
      Inl e \<Rightarrow> held tr' = unnamed name (held tr)
    | Inr r \<Rightarrow> region_fields name page data_capacity True r \<and> held tr' = with_ranges (ranges r) (held tr) \<and> mirrored fd r tr'"
proof -
  let ?c = "Ftruncate fd (page + data_capacity)"
  define tr1 where "tr1 = tr @ [(?c, os tr ?c)]"
  have same: "held tr1 = held tr" by (cases "os tr ?c") (simp_all add: tr1_def)
  show ?thesis
  proof (cases "os tr ?c")
    case (RetErr e)
    then show ?thesis using assms same by (auto simp: create_sized_def sys_eq Let_def tr1_def unnamed_def)
  next
    case (RetVal v)
    obtain res1 tr2 where map: "region_map os fd name page data_capacity True tr1 = (res1, tr2)" by fastforce
    then have "(res, tr') = (case res1 of Inl e \<Rightarrow> (Inl e, tr2 @ [(ShmUnlink name, os tr2 (ShmUnlink name))]) | Inr region \<Rightarrow> (Inr region, tr2))"
      using assms RetVal by (auto simp: create_sized_def sys_eq Let_def tr1_def split: sum.splits)
    then show ?thesis using region_map_held [OF map] same by (auto simp: unnamed_def split: sum.splits)
  qed
qed

lemma create_held:
  assumes "create os name data_capacity tr = (res, tr')"
  shows "case res of
      Inl e \<Rightarrow> held tr' = held tr \<or> held tr' = unnamed name (held tr)
    | Inr r \<Rightarrow> (\<exists>page fd. region_fields name page data_capacity True r \<and> 0 < sint page \<and> data_capacity \<noteq> 0 \<and>
          page_multiple page data_capacity \<and> mirrored fd r tr') \<and>
        held tr' = with_ranges (ranges r) ((unnamed name (held tr))\<lparr>re_names := name # re_names (unnamed name (held tr))\<rparr>)"
proof -
  obtain pres tr0 where page: "page_size os tr = (pres, tr0)" by fastforce
  define tr1 where "tr1 = tr0 @ [(ShmUnlink name, os tr0 (ShmUnlink name))]"
  define tr2 where "tr2 = tr1 @ [(ShmOpenCreate name, os tr1 (ShmOpenCreate name))]"
  have h0: "held tr0 = held tr" using page_size_held(1) [of os tr] page by simp
  have h1: "held tr1 = unnamed name (held tr)" by (simp add: tr1_def h0 unnamed_def)
  show ?thesis
  proof (cases "validate_name name = None \<and> (\<exists>p fd. pres = Inr p \<and> data_capacity \<noteq> 0 \<and> page_multiple p data_capacity \<and> os tr1 (ShmOpenCreate name) = RetVal fd)")
    case False
    then show ?thesis
      using assms h0 h1 page by (auto simp: create_def sys_eq Let_def tr1_def page_multiple_def [symmetric] split: option.splits sum.splits if_splits sysret.splits)
  next
    case True
    then obtain p fd where ok: "validate_name name = None" "pres = Inr p" "data_capacity \<noteq> 0" "page_multiple p data_capacity"
      "os tr1 (ShmOpenCreate name) = RetVal fd" by metis
    obtain res3 tr3 where sized: "create_sized os fd name p data_capacity tr2 = (res3, tr3)" by fastforce
    have out: "(res, tr') = close_fd os fd (res3, tr3)"
      using assms ok page sized by (simp add: create_def sys_eq Let_def tr1_def tr2_def page_multiple_def [symmetric])
    have h2: "held tr2 = (unnamed name (held tr))\<lparr>re_fds := fd # re_fds (held tr), re_names := name # re_names (unnamed name (held tr))\<rparr>"
      using ok(5) h1 by (simp add: tr2_def unnamed_def)
    have "held tr' = (held tr3)\<lparr>re_fds := remove1 fd (re_fds (held tr3))\<rparr>" "res = res3" "set tr3 \<subseteq> set tr'"
      using close_fd_held [where os = os and fd = fd and x = "(res3, tr3)"] out by (auto dest!: sym [of "(res, tr')"])
    then show ?thesis
      using create_sized_held [OF sized] h2 ok page_size_held(2) [of os tr p] page
      by (auto simp: unnamed_def with_ranges_def intro: mirrored_mono split: sum.splits)
  qed
qed


lemma open_sized_held:
  assumes "open_sized os fd name tr = (res, tr')"
  shows "case res of
      Inr (Some r) \<Rightarrow> held tr' = with_ranges (ranges r) (held tr) \<and> mirrored fd r tr' \<and>
        (\<exists>page file_size. region_fields name page (file_size - page) False r \<and> 0 < sint page \<and> 2 * page \<le> file_size \<and> page_multiple page (file_size - page))
    | _ \<Rightarrow> held tr' = held tr"
proof -
  define tr1 where "tr1 = tr @ [(Fstat fd, os tr (Fstat fd))]"
  have h1: "held tr1 = held tr" by (cases "os tr (Fstat fd)") (simp_all add: tr1_def)
  obtain pres tr2 where page: "page_size os tr1 = (pres, tr2)" by fastforce
  have h2: "held tr2 = held tr" using page_size_held(1) [of os tr1] page h1 by simp
  show ?thesis
  proof (cases "\<exists>n p. os tr (Fstat fd) = RetVal n \<and> pres = Inr p \<and> n \<noteq> 0 \<and> 2 * p \<le> n \<and> page_multiple p (n - p)")
    case False
    then show ?thesis
      using assms h1 h2 page by (auto simp: open_sized_def sys_eq Let_def tr1_def page_multiple_def [symmetric] linorder_not_less split: sysret.splits sum.splits if_splits)
  next
    case True
    then obtain n p where ok: "os tr (Fstat fd) = RetVal n" "pres = Inr p" "n \<noteq> 0" "2 * p \<le> n" "page_multiple p (n - p)" by metis
    obtain res3 tr3 where map: "region_map os fd name p (n - p) False tr2 = (res3, tr3)" by fastforce
    have "(res, tr') = (case res3 of Inl e \<Rightarrow> (Inl e, tr3) | Inr region \<Rightarrow> (Inr (Some region), tr3))"
      using assms ok page map leD [OF ok(4)] by (auto simp: open_sized_def sys_eq Let_def tr1_def page_multiple_def [symmetric] split: sum.splits)
    then show ?thesis
      using region_map_held [OF map] h2 ok page_size_held(2) [of os tr1 p] page by (auto split: sum.splits)
  qed
qed

lemma try_open_held:
  assumes "try_open os name tr = (res, tr')"
  shows "case res of
      Inr (Some r) \<Rightarrow> held tr' = with_ranges (ranges r) (held tr) \<and> (\<exists>fd. mirrored fd r tr') \<and>
        (\<exists>page file_size. region_fields name page (file_size - page) False r \<and> 0 < sint page \<and> 2 * page \<le> file_size \<and> page_multiple page (file_size - page))
    | _ \<Rightarrow> held tr' = held tr"
proof -
  define tr1 where "tr1 = tr @ [(ShmOpen name, os tr (ShmOpen name))]"
  show ?thesis
  proof (cases "validate_name name = None \<and> (\<exists>fd. os tr (ShmOpen name) = RetVal fd)")
    case False
    then show ?thesis
      using assms by (auto simp: try_open_def sys_eq Let_def split: option.splits sysret.splits if_splits)
  next
    case True
    then obtain fd where ok: "validate_name name = None" "os tr (ShmOpen name) = RetVal fd" by auto
    obtain res3 tr3 where sized: "open_sized os fd name tr1 = (res3, tr3)" by fastforce
    have out: "close_fd os fd (res3, tr3) = (res, tr')"
      using assms ok sized by (simp add: try_open_def sys_eq Let_def tr1_def)
    have "held tr1 = (held tr)\<lparr>re_fds := fd # re_fds (held tr)\<rparr>" using ok by (simp add: tr1_def)
    moreover have "held tr' = (held tr3)\<lparr>re_fds := remove1 fd (re_fds (held tr3))\<rparr>" "res = res3" "set tr3 \<subseteq> set tr'"
      using close_fd_held [where os = os and fd = fd and x = "(res3, tr3)"] out by auto
    ultimately show ?thesis
      using open_sized_held [OF sized] by (auto simp: with_ranges_def intro: mirrored_mono split: sum.splits option.splits)
  qed
qed

section \<open>Properties\<close>

text \<open>
  C20: creating a region leaks nothing, whatever the system calls return. If \<^verbatim>\<open>create\<close> throws, no
  descriptor and no mapping is left and no name it created; if it returns, the descriptor is
  closed, exactly the header page and the doubled data area are mapped, both halves onto the same
  bytes of the file, the name exists and is owned, and releasing the region gives everything back.
\<close>

theorem create_leaks_nothing:
  assumes "create os name data_capacity [] = (res, tr)"
  shows "case res of
      Inl e \<Rightarrow> held tr = no_resources
    | Inr region \<Rightarrow>
        held tr = \<lparr>re_fds = [], re_mapped = ranges region, re_names = [name]\<rparr> \<and> length (ranges region) = 2 \<and>
        (\<exists>fd. mirrored fd region tr) \<and> mr_owner region \<and> mr_data_bytes region = data_capacity \<and> mr_name region = name \<and>
        held (snd (region_release os region tr)) = no_resources"
proof (cases res)
  case (Inl e)
  then show ?thesis using create_held [OF assms] by (auto simp: unnamed_def no_resources_def)
next
  case (Inr region)
  let ?s = "no_resources\<lparr>re_names := [name]\<rparr>"
  have c: "held tr = with_ranges (ranges region) ?s" "\<exists>page fd. region_fields name page data_capacity True region \<and> mirrored fd region tr"
    using create_held [OF assms] Inr by (auto simp: unnamed_def no_resources_def)
  have "held (snd (region_release os region tr)) = no_resources"
    using release_held [OF c(1)] c(2) by (auto simp: region_fields_def unnamed_def no_resources_def)
  moreover have "length (ranges region) = 2"
    using c(2) by (auto simp: region_fields_def mirrored_def ranges_def)
  ultimately show ?thesis using c Inr by (auto simp: region_fields_def with_ranges_def no_resources_def)
qed

text \<open>A system that serves every call, for the witnesses.\<close>

definition kind_os :: os where
  "kind_os tr c = (case c of
       MmapShared (Some a) n fd off \<Rightarrow> RetVal a
     | MmapShared None n fd off \<Rightarrow> RetVal 0x10000
     | MmapReserve n \<Rightarrow> RetVal 0x20000
     | SysConfPageSize \<Rightarrow> RetVal 4096
     | Fstat fd \<Rightarrow> RetVal 12288
     | _ \<Rightarrow> RetVal 3)"

theorem create_leaks_nothing_witness:
  "\<exists>region tr. create kind_os ''/ring'' 8192 [] = (Inr region, tr) \<and> length (ranges region) = 2 \<and>
     held (snd (region_release kind_os region tr)) = no_resources"
proof -
  have "case create kind_os ''/ring'' 8192 [] of (Inr r, tr) \<Rightarrow> True | _ \<Rightarrow> False" by code_simp
  then obtain region tr where r: "create kind_os ''/ring'' 8192 [] = (Inr region, tr)" by (auto split: prod.splits sum.splits)
  from create_leaks_nothing [OF r] r show ?thesis by auto
qed

text \<open>
  Opening an existing region leaks nothing, whatever the system calls return. If \<^verbatim>\<open>try_open\<close>
  throws or finds no sized object, it leaves nothing behind; if it returns a region, exactly its
  header page and doubled data area are mapped, both halves onto the same bytes, the region does
  not own the name, and releasing it gives everything back and unlinks nothing.
\<close>

lemma open_leaks_nothing:
  assumes "try_open os name tr0 = (res, tr)"
  shows "case res of
      Inr (Some region) \<Rightarrow>
        re_fds (held tr) = re_fds (held tr0) \<and> re_mapped (held tr) = ranges region @ re_mapped (held tr0) \<and> length (ranges region) = 2 \<and>
        (\<exists>fd. mirrored fd region tr) \<and> \<not> mr_owner region \<and> held (snd (region_release os region tr)) = held tr0
    | _ \<Rightarrow> held tr = held tr0"
proof (cases "\<exists>region. res = Inr (Some region)")
  case False
  then show ?thesis using try_open_held [OF assms] by (auto split: sum.splits option.splits)
next
  case True
  then obtain region where res: "res = Inr (Some region)" by blast
  have c: "held tr = with_ranges (ranges region) (held tr0)" "\<exists>fd. mirrored fd region tr" "\<exists>p n. region_fields name p n False region"
    using try_open_held [OF assms] res by auto
  then have "held (snd (region_release os region tr)) = held tr0"
    using release_held [OF c(1)] by (auto simp: region_fields_def)
  moreover have "length (ranges region) = 2" using c(2,3) by (auto simp: region_fields_def mirrored_def ranges_def)
  ultimately show ?thesis using c res by (auto simp: region_fields_def with_ranges_def)
qed

text \<open>Moving a region keeps every resource in exactly one place: the target's own are released first.\<close>

lemma move_assign_held:
  assumes "held tr = with_ranges (ranges this) s"
  shows "move_assign os this other tr = ((new, old), tr') \<Longrightarrow> new = other \<and> ranges old = [] \<and> \<not> mr_owner old \<and>
    held tr' = (if mr_owner this then unnamed (mr_name this) s else s)"
  using release_held [OF assms, of os] by (auto simp: move_assign_def moved_from_def ranges_def split_beta Let_def)

end
