(* ===== verification/Fifo_Spec.thy ===== *)
theory Fifo_Spec
  imports Pc_Prelude "HOL-Library.Sublist"
begin

text \<open>
  The contract of the packet channel, as the interfaces \<^verbatim>\<open>IPacketSink\<close> and
  \<^verbatim>\<open>IPacketSource\<close> of \<^verbatim>\<open>common/include/pc/transport.hpp\<close> state it: a first-in
  first-out queue of byte records with an in-place slot on the writing side and an in-place
  view on the reading side. The state is the history: what has been published and what has
  been released, in order. A component implements the contract if its steps are steps of this
  machine; the locale transfers the machine's properties to such a component.
\<close>

record fifo =
  ff_sent :: "bytes list"
  ff_received :: "bytes list"
  ff_slot :: "bytes option"
  ff_view :: "bytes option"

definition fifo_start :: fifo where
  "fifo_start = \<lparr>ff_sent = [], ff_received = [], ff_slot = None, ff_view = None\<rparr>"

inductive fifo_step :: "fifo \<Rightarrow> fifo \<Rightarrow> bool" where
  fifo_stutter: "fifo_step f f"
| fifo_reserve: "fifo_step f (f\<lparr>ff_slot := Some bs\<rparr>)"
| fifo_write: "ff_slot f = Some bs \<Longrightarrow> i < length bs \<Longrightarrow> fifo_step f (f\<lparr>ff_slot := Some (bs[i := b])\<rparr>)"
| fifo_commit: "ff_slot f = Some bs \<Longrightarrow> fifo_step f (f\<lparr>ff_sent := ff_sent f @ [bs], ff_slot := None\<rparr>)"
| fifo_peek: "length (ff_received f) < length (ff_sent f) \<Longrightarrow>
    fifo_step f (f\<lparr>ff_view := Some (ff_sent f ! length (ff_received f))\<rparr>)"
| fifo_release: "ff_view f = Some bs \<Longrightarrow>
    fifo_step f (f\<lparr>ff_received := ff_received f @ [bs], ff_view := None\<rparr>)"
| fifo_reattach: "fifo_step f (f\<lparr>ff_view := None\<rparr>)"

definition fifo_inv :: "fifo \<Rightarrow> bool" where
  "fifo_inv f \<longleftrightarrow> prefix (ff_received f) (ff_sent f) \<and>
     (\<forall>bs. ff_view f = Some bs \<longrightarrow>
        length (ff_received f) < length (ff_sent f) \<and> bs = ff_sent f ! length (ff_received f))"

lemma fifo_inv_start: "fifo_inv fifo_start"
  by (simp add: fifo_inv_def fifo_start_def)

lemma prefix_snoc_nth:
  "prefix xs ys \<Longrightarrow> length xs < length ys \<Longrightarrow> prefix (xs @ [ys ! length xs]) ys"
  by (metis append_one_prefix)

lemma fifo_step_inv: "fifo_step f g \<Longrightarrow> fifo_inv f \<Longrightarrow> fifo_inv g"
  by (induction rule: fifo_step.induct)
    (auto simp: fifo_inv_def nth_append prefix_snoc_nth)

lemma fifo_step_histories:
  "fifo_step f g \<Longrightarrow> prefix (ff_sent f) (ff_sent g) \<and> prefix (ff_received f) (ff_received g)"
  by (induction rule: fifo_step.induct) auto

locale fifo_implementation =
  fixes init :: "'s \<Rightarrow> bool" and step :: "'s \<Rightarrow> 's \<Rightarrow> bool"
    and inv :: "'s \<Rightarrow> bool" and abs :: "'s \<Rightarrow> fifo"
  assumes init_inv: "init s \<Longrightarrow> inv s"
    and init_abs: "init s \<Longrightarrow> abs s = fifo_start"
    and step_inv: "inv s \<Longrightarrow> step s t \<Longrightarrow> inv t"
    and step_abs: "inv s \<Longrightarrow> step s t \<Longrightarrow> fifo_step (abs s) (abs t)"
begin

lemma steps_inv: "step\<^sup>*\<^sup>* s t \<Longrightarrow> inv s \<Longrightarrow> inv t"
  by (induction rule: rtranclp_induct) (auto intro: step_inv)

lemma reachable_inv: "init s \<Longrightarrow> step\<^sup>*\<^sup>* s t \<Longrightarrow> inv t"
  by (blast intro: steps_inv init_inv)

lemma steps_fifo_inv: "step\<^sup>*\<^sup>* s t \<Longrightarrow> inv s \<Longrightarrow> fifo_inv (abs s) \<Longrightarrow> fifo_inv (abs t)"
proof (induction rule: rtranclp_induct)
  case base
  then show ?case by simp
next
  case (step t u)
  then show ?case by (blast intro: fifo_step_inv step_abs steps_inv)
qed

lemma reachable_fifo_inv: "init s \<Longrightarrow> step\<^sup>*\<^sup>* s t \<Longrightarrow> fifo_inv (abs t)"
  by (metis fifo_inv_start init_abs init_inv steps_fifo_inv)

lemma delivered_in_order: "init s \<Longrightarrow> step\<^sup>*\<^sup>* s t \<Longrightarrow> prefix (ff_received (abs t)) (ff_sent (abs t))"
  using reachable_fifo_inv by (simp add: fifo_inv_def)

lemma view_is_next:
  "init s \<Longrightarrow> step\<^sup>*\<^sup>* s t \<Longrightarrow> ff_view (abs t) = Some bs \<Longrightarrow>
     length (ff_received (abs t)) < length (ff_sent (abs t)) \<and> bs = ff_sent (abs t) ! length (ff_received (abs t))"
  using reachable_fifo_inv by (simp add: fifo_inv_def)

lemma histories_grow:
  "step\<^sup>*\<^sup>* s t \<Longrightarrow> inv s \<Longrightarrow> prefix (ff_sent (abs s)) (ff_sent (abs t)) \<and> prefix (ff_received (abs s)) (ff_received (abs t))"
proof (induction rule: rtranclp_induct)
  case base
  then show ?case by simp
next
  case (step t u)
  then have "fifo_step (abs t) (abs u)" by (blast intro: step_abs steps_inv)
  with step show ?case using fifo_step_histories prefix_order.trans by blast
qed

end

end
