(* ===== verification/Ring_Buffer.thy ===== *)
theory Ring_Buffer
  imports Fifo_Spec
begin

text \<open>
  The lock-free single-producer single-consumer ring: \<^verbatim>\<open>common/src/ring_buffer.cpp\<close> and
  \<^verbatim>\<open>common/include/pc/ring_buffer.hpp\<close>, with the mirrored data mapping of
  \<^verbatim>\<open>MirroredShmRegion\<close>. The operations of the two ends are functions on their private
  state; the value an atomic load of the other end's counter returns is an argument. The system
  of both ends is a step relation that interleaves the operations and single byte writes into
  the reserved slot, and lets a load return any value stored since the last one it saw. The
  refinement shows that this system implements the first-in first-out contract, whatever the
  interleaving and however often the 64-bit counters and the data offsets wrap.
\<close>

section \<open>The control block\<close>

definition kRingMagic :: u32 where
  "kRingMagic = 0x42524350"

definition kRingVersion :: u32 where
  "kRingVersion = 1"

text \<open>\<^verbatim>\<open>enum class RingState : std::uint32_t\<close>.\<close>

definition RingState_Initializing :: u32 where
  "RingState_Initializing = 0"

definition RingState_Ready :: u32 where
  "RingState_Ready = 1"

definition RingState_ProducerFinished :: u32 where
  "RingState_ProducerFinished = 2"

record RingControl =
  rc_magic :: u32
  rc_version :: u32
  rc_capacity :: u64
  rc_state :: u32
  rc_producer_pid :: i32
  rc_consumer_pid :: i32
  rc_head :: u64
  rc_tail :: u64

definition kRecordPrefixSize :: u64 where
  "kRecordPrefixSize = 4"

definition initialize_ring_control :: "RingControl \<Rightarrow> u64 \<Rightarrow> i32 \<Rightarrow> RingControl" where
  "initialize_ring_control control capacity producer_pid =
     control\<lparr>rc_magic := kRingMagic, rc_version := kRingVersion, rc_capacity := capacity,
       rc_producer_pid := producer_pid, rc_consumer_pid := 0, rc_head := 0, rc_tail := 0,
       rc_state := RingState_Ready\<rparr>"

definition ring_control_ready :: "RingControl \<Rightarrow> bool" where
  "ring_control_ready control =
     (if rc_state control \<noteq> RingState_Ready then False
      else rc_magic control = kRingMagic \<and> rc_version control = kRingVersion \<and>
        rc_capacity control \<noteq> 0 \<and> rc_capacity control AND (rc_capacity control - 1) = 0)"

section \<open>The mirrored data area\<close>

text \<open>
  The data area of \<open>length d\<close> bytes is mapped twice back to back: virtual offset \<open>i\<close> is
  physical byte \<open>i mod length d\<close>.
\<close>

definition mirror_read :: "bytes \<Rightarrow> nat \<Rightarrow> nat \<Rightarrow> bytes" where
  "mirror_read d off n = map (\<lambda>i. d ! ((off + i) mod length d)) [0..<n]"

primrec mirror_write :: "bytes \<Rightarrow> nat \<Rightarrow> bytes \<Rightarrow> bytes" where
  "mirror_write d off [] = d"
| "mirror_write d off (b # bs) = mirror_write (d[off mod length d := b]) (Suc off) bs"

text \<open>A span is a window of the virtual mapping.\<close>

record span =
  sp_off :: nat
  sp_len :: nat

definition span_bytes :: "bytes \<Rightarrow> span \<Rightarrow> bytes" where
  "span_bytes d sp = mirror_read d (sp_off sp) (sp_len sp)"

section \<open>The producer end\<close>

record RingProducer =
  rp_capacity :: u64
  rp_mask :: u64
  rp_head :: u64
  rp_cached_tail :: u64
  rp_pending :: u64

text \<open>The second argument is the value the acquire load of \<^verbatim>\<open>control.tail\<close> returns.\<close>

definition RingProducer_new :: "RingControl \<Rightarrow> u64 \<Rightarrow> RingProducer" where
  "RingProducer_new control tail_load =
     \<lparr>rp_capacity = rc_capacity control, rp_mask = rc_capacity control - 1, rp_head = rc_head control,
      rp_cached_tail = tail_load, rp_pending = 0\<rparr>"

definition RingProducer_max_record_size :: "RingProducer \<Rightarrow> u64" where
  "RingProducer_max_record_size p =
     (let by_capacity = rp_capacity p - kRecordPrefixSize;
          by_prefix = ucast (- 1 :: u32)
      in if by_capacity < by_prefix then by_capacity else by_prefix)"

definition lacks_room :: "RingProducer \<Rightarrow> u64 \<Rightarrow> bool" where
  "lacks_room p needed \<longleftrightarrow> rp_capacity p - (rp_head p - rp_cached_tail p) < needed"

definition reserve_at_head :: "RingProducer \<Rightarrow> bytes \<Rightarrow> u64 \<Rightarrow> RingProducer \<times> bytes \<times> span option" where
  "reserve_at_head p d bytes =
     (let offset = rp_head p AND rp_mask p;
          len = ucast bytes :: u32
      in (p\<lparr>rp_pending := kRecordPrefixSize + bytes\<rparr>,
          mirror_write d (unat offset) (store_le 4 len),
          Some \<lparr>sp_off = unat offset + unat kRecordPrefixSize, sp_len = unat bytes\<rparr>))"

definition RingProducer_try_reserve ::
  "RingProducer \<Rightarrow> u64 \<Rightarrow> bytes \<Rightarrow> u64 \<Rightarrow> RingProducer \<times> bytes \<times> span option" where
  "RingProducer_try_reserve p tail_load d bytes =
     (if RingProducer_max_record_size p < bytes then (p, d, None)
      else if lacks_room p (kRecordPrefixSize + bytes) then
        (let p = p\<lparr>rp_cached_tail := tail_load\<rparr>
         in if lacks_room p (kRecordPrefixSize + bytes) then (p, d, None) else reserve_at_head p d bytes)
      else reserve_at_head p d bytes)"

definition RingProducer_commit :: "RingProducer \<Rightarrow> RingControl \<Rightarrow> RingProducer \<times> RingControl" where
  "RingProducer_commit p control =
     (if rp_pending p = 0 then (p, control)
      else (p\<lparr>rp_head := rp_head p + rp_pending p, rp_pending := 0\<rparr>,
            control\<lparr>rc_head := rp_head p + rp_pending p\<rparr>))"

definition RingProducer_used :: "RingProducer \<Rightarrow> u64 \<Rightarrow> u64" where
  "RingProducer_used p tail_load = rp_head p - tail_load"

section \<open>The consumer end\<close>

record RingConsumer =
  rn_capacity :: u64
  rn_mask :: u64
  rn_tail :: u64
  rn_cached_head :: u64
  rn_pending :: u64
  rn_corrupted :: bool

text \<open>The second argument is the value the acquire load of \<^verbatim>\<open>control.head\<close> returns.\<close>

definition RingConsumer_new :: "RingControl \<Rightarrow> u64 \<Rightarrow> RingConsumer" where
  "RingConsumer_new control head_load =
     \<lparr>rn_capacity = rc_capacity control, rn_mask = rc_capacity control - 1, rn_tail = rc_tail control,
      rn_cached_head = head_load, rn_pending = 0, rn_corrupted = False\<rparr>"

definition peek_record :: "RingConsumer \<Rightarrow> bytes \<Rightarrow> RingConsumer \<times> span option" where
  "peek_record c d =
     (let offset = rn_tail c AND rn_mask c;
          len = load_le (mirror_read d (unat offset) 4) :: u32;
          size = kRecordPrefixSize + ucast len
      in if rn_cached_head c - rn_tail c < size \<or> rn_capacity c < size then (c\<lparr>rn_corrupted := True\<rparr>, None)
         else (c\<lparr>rn_pending := size\<rparr>,
               Some \<lparr>sp_off = unat offset + unat kRecordPrefixSize, sp_len = unat len\<rparr>))"

definition RingConsumer_try_peek :: "RingConsumer \<Rightarrow> u64 \<Rightarrow> bytes \<Rightarrow> RingConsumer \<times> span option" where
  "RingConsumer_try_peek c head_load d =
     (if rn_corrupted c then (c, None)
      else if rn_pending c \<noteq> 0 then
        (c, Some \<lparr>sp_off = unat (rn_tail c AND rn_mask c) + unat kRecordPrefixSize,
                  sp_len = unat (rn_pending c - kRecordPrefixSize)\<rparr>)
      else if rn_cached_head c = rn_tail c then
        (let c = c\<lparr>rn_cached_head := head_load\<rparr>
         in if rn_cached_head c = rn_tail c then (c, None) else peek_record c d)
      else peek_record c d)"

definition RingConsumer_release :: "RingConsumer \<Rightarrow> RingControl \<Rightarrow> RingConsumer \<times> RingControl" where
  "RingConsumer_release c control =
     (if rn_pending c = 0 then (c, control)
      else (c\<lparr>rn_tail := rn_tail c + rn_pending c, rn_pending := 0\<rparr>,
            control\<lparr>rc_tail := rn_tail c + rn_pending c\<rparr>))"

definition RingConsumer_used :: "RingConsumer \<Rightarrow> u64 \<Rightarrow> u64" where
  "RingConsumer_used c head_load = head_load - rn_tail c"

section \<open>Lemmas on the mirrored area\<close>

lemma length_mirror_read [simp]: "length (mirror_read d off n) = n"
  by (simp add: mirror_read_def)

lemma length_mirror_write [simp]: "length (mirror_write d off bs) = length d"
  by (induction bs arbitrary: d off) simp_all

lemma mirror_read_0 [simp]: "mirror_read d off 0 = []"
  by (simp add: mirror_read_def)

lemma mirror_read_nth [simp]: "i < n \<Longrightarrow> mirror_read d off n ! i = d ! ((off + i) mod length d)"
  by (simp add: mirror_read_def)

lemma mirror_read_add: "mirror_read d off (m + n) = mirror_read d off m @ mirror_read d (off + m) n"
  by (rule nth_equalityI) (auto simp: nth_append add.assoc)

lemma mirror_read_wrap: "mirror_read d (off mod length d + k) n = mirror_read d (off + k) n"
  by (rule nth_equalityI) (simp_all add: mod_add_left_eq add.assoc)

lemma mirror_read_cong:
  "length d' = length d \<Longrightarrow> (\<And>i. i < n \<Longrightarrow> d' ! ((off + i) mod length d) = d ! ((off + i) mod length d)) \<Longrightarrow>
     mirror_read d' off n = mirror_read d off n"
  by (rule nth_equalityI) simp_all

lemma mirror_write_wrap: "mirror_write d (off mod length d + k) bs = mirror_write d (off + k) bs"
proof (induction bs arbitrary: d k)
  case Nil
  show ?case by simp
next
  case (Cons b bs)
  have "(off mod length d + k) mod length d = (off + k) mod length d"
    by (simp add: mod_add_left_eq)
  then show ?case
    using Cons.IH [of "d[(off + k) mod length d := b]" "Suc k"] by simp
qed

lemma mod_window_neq:
  fixes p q :: nat
  assumes "p < q" "q < p + m"
  shows "p mod m \<noteq> q mod m"
proof
  assume "p mod m = q mod m"
  then have "m dvd q - p" using assms(1) mod_eq_dvd_iff_nat [of p q m] by simp
  then show False using assms by (auto dest: dvd_imp_le)
qed

lemma mirror_read_update_other:
  assumes "pos + n \<le> off" "off < pos + length d"
  shows "mirror_read (d[off mod length d := b]) pos n = mirror_read d pos n"
proof (rule mirror_read_cong)
  fix i assume "i < n"
  then have "(pos + i) mod length d \<noteq> off mod length d"
    using assms by (intro mod_window_neq) auto
  then show "d[off mod length d := b] ! ((pos + i) mod length d) = d ! ((pos + i) mod length d)" by simp
qed simp

lemma mirror_write_other:
  "pos + n \<le> off \<Longrightarrow> off + length bs \<le> pos + length d \<Longrightarrow>
     mirror_read (mirror_write d off bs) pos n = mirror_read d pos n"
proof (induction bs arbitrary: d off)
  case Nil
  show ?case by simp
next
  case (Cons b bs)
  then show ?case by (simp add: mirror_read_update_other)
qed

lemma mirror_write_same:
  "length bs \<le> length d \<Longrightarrow> mirror_read (mirror_write d off bs) off (length bs) = bs"
proof (induction bs arbitrary: d off)
  case Nil
  show ?case by simp
next
  case (Cons b bs)
  let ?d = "d[off mod length d := b]"
  have "mirror_read (mirror_write ?d (Suc off) bs) (Suc off) (length bs) = bs"
    using Cons by simp
  moreover have "mirror_read (mirror_write ?d (Suc off) bs) off 1 = mirror_read ?d off 1"
    using Cons.prems by (intro mirror_write_other) auto
  moreover have "mirror_read ?d off 1 = [b]"
  proof -
    have "0 < length d" using Cons.prems by (cases d) simp_all
    then show ?thesis by (simp add: mirror_read_def)
  qed
  ultimately show ?case
    using mirror_read_add [of "mirror_write ?d (Suc off) bs" off 1 "length bs"] by simp
qed

lemma mirror_read_update_inside:
  assumes "i < n" "n \<le> length d"
  shows "mirror_read (d[(off + i) mod length d := b]) off n = (mirror_read d off n)[i := b]"
proof (rule nth_equalityI)
  fix j assume "j < length (mirror_read (d[(off + i) mod length d := b]) off n)"
  then have j: "j < n" by simp
  have "0 < length d" using assms by linarith
  then have less: "(off + i) mod length d < length d" by simp
  have "(off + j) mod length d \<noteq> (off + i) mod length d" if "j \<noteq> i"
    using that mod_window_neq [of "off + i" "off + j" "length d"] mod_window_neq [of "off + j" "off + i" "length d"]
      assms j by (cases "i < j") auto
  with j less show "mirror_read (d[(off + i) mod length d := b]) off n ! j = (mirror_read d off n)[i := b] ! j"
    by (cases "j = i") auto
qed simp


section \<open>The system of the two ends\<close>

text \<open>
  Both ends over one control block and data area, with the spans the clients hold (the slot
  being filled, the view being read) and the history: the contents published and released so
  far, the values stored in the two shared counters, oldest first, and the number of the stored
  value of the other end's counter that each end has seen last.
\<close>

record ring_sys =
  rs_control :: RingControl
  rs_data :: bytes
  rs_prod :: RingProducer
  rs_cons :: RingConsumer
  rs_slot :: "span option"
  rs_view :: "span option"
  rs_sent :: "bytes list"
  rs_received :: "bytes list"
  rs_heads :: "u64 list"
  rs_tails :: "u64 list"
  rs_seen_tail :: nat
  rs_seen_head :: nat

text \<open>A record in the ring: its length prefix and its bytes.\<close>

definition record_bytes :: "bytes \<Rightarrow> bytes" where
  "record_bytes r = store_le 4 (of_nat (length r) :: u32) @ r"

definition stream_of :: "bytes list \<Rightarrow> bytes" where
  "stream_of rs = concat (map record_bytes rs)"

abbreviation stream_size :: "bytes list \<Rightarrow> nat" where
  "stream_size rs \<equiv> length (stream_of rs)"

text \<open>The value stored in a counter when the records \<open>rs\<close> have passed it.\<close>

definition counter_after :: "bytes list \<Rightarrow> u64" where
  "counter_after rs = of_nat (stream_size rs)"

definition ring_start :: "RingControl \<Rightarrow> u64 \<Rightarrow> i32 \<Rightarrow> bytes \<Rightarrow> ring_sys" where
  "ring_start control capacity pid d =
     (let control = initialize_ring_control control capacity pid
      in \<lparr>rs_control = control, rs_data = d,
          rs_prod = RingProducer_new control (rc_tail control),
          rs_cons = RingConsumer_new control (rc_head control),
          rs_slot = None, rs_view = None, rs_sent = [], rs_received = [],
          rs_heads = [rc_head control], rs_tails = [rc_tail control], rs_seen_tail = 0, rs_seen_head = 0\<rparr>)"

text \<open>
  The steps. \<open>sys_reserve n i\<close> calls \<^verbatim>\<open>try_reserve(n)\<close>; if it loads the tail, it gets the
  \<open>i\<close>-th value stored there. \<open>sys_write\<close> stores one byte into the reserved slot. \<open>sys_peek j\<close>
  calls \<^verbatim>\<open>try_peek()\<close>; if it loads the head, it gets the \<open>j\<close>-th value stored there.
  \<open>sys_attach j\<close> replaces the consumer end by a newly constructed one. \<open>sys_commit\<close> and \<open>sys_release\<close>
  store what the control block holds afterwards, if the call stores at all.
\<close>

definition sys_reserve :: "u64 \<Rightarrow> nat \<Rightarrow> ring_sys \<Rightarrow> ring_sys" where
  "sys_reserve bytes i s =
     (let (p, d, slot) = RingProducer_try_reserve (rs_prod s) (rs_tails s ! i) (rs_data s) bytes
      in s\<lparr>rs_prod := p, rs_data := d,
           rs_slot := (case slot of None \<Rightarrow> rs_slot s | Some sp \<Rightarrow> Some sp),
           rs_seen_tail := (if bytes \<le> RingProducer_max_record_size (rs_prod s) \<and>
               lacks_room (rs_prod s) (kRecordPrefixSize + bytes) then i else rs_seen_tail s)\<rparr>)"

definition sys_write :: "span \<Rightarrow> nat \<Rightarrow> u8 \<Rightarrow> ring_sys \<Rightarrow> ring_sys" where
  "sys_write sp i b s = s\<lparr>rs_data := mirror_write (rs_data s) (sp_off sp + i) [b]\<rparr>"

definition sys_commit :: "ring_sys \<Rightarrow> ring_sys" where
  "sys_commit s =
     (let (p, control) = RingProducer_commit (rs_prod s) (rs_control s)
      in s\<lparr>rs_prod := p, rs_control := control, rs_slot := None,
           rs_heads := rs_heads s @ (if rp_pending (rs_prod s) = 0 then [] else [rc_head control]),
           rs_sent := rs_sent s @ (case rs_slot s of None \<Rightarrow> [] | Some sp \<Rightarrow> [span_bytes (rs_data s) sp])\<rparr>)"

definition sys_peek :: "nat \<Rightarrow> ring_sys \<Rightarrow> ring_sys" where
  "sys_peek j s =
     (let (c, view) = RingConsumer_try_peek (rs_cons s) (rs_heads s ! j) (rs_data s)
      in s\<lparr>rs_cons := c, rs_view := view,
           rs_seen_head := (if \<not> rn_corrupted (rs_cons s) \<and> rn_pending (rs_cons s) = 0 \<and>
               rn_cached_head (rs_cons s) = rn_tail (rs_cons s) then j else rs_seen_head s)\<rparr>)"

definition sys_release :: "ring_sys \<Rightarrow> ring_sys" where
  "sys_release s =
     (let (c, control) = RingConsumer_release (rs_cons s) (rs_control s)
      in s\<lparr>rs_cons := c, rs_control := control, rs_view := None,
           rs_tails := rs_tails s @ (if rn_pending (rs_cons s) = 0 then [] else [rc_tail control]),
           rs_received := rs_received s @ (case rs_view s of None \<Rightarrow> [] | Some sp \<Rightarrow> [span_bytes (rs_data s) sp])\<rparr>)"

definition sys_attach :: "nat \<Rightarrow> ring_sys \<Rightarrow> ring_sys" where
  "sys_attach j s =
     s\<lparr>rs_cons := RingConsumer_new (rs_control s) (rs_heads s ! j),
       rs_view := None, rs_seen_head := j\<rparr>"

inductive ring_step :: "ring_sys \<Rightarrow> ring_sys \<Rightarrow> bool" where
  step_reserve: "rs_seen_tail s \<le> i \<Longrightarrow> i \<le> length (rs_received s) \<Longrightarrow> ring_step s (sys_reserve bytes i s)"
| step_write: "rs_slot s = Some sp \<Longrightarrow> i < sp_len sp \<Longrightarrow> ring_step s (sys_write sp i b s)"
| step_commit: "ring_step s (sys_commit s)"
| step_peek: "rs_seen_head s \<le> j \<Longrightarrow> j \<le> length (rs_sent s) \<Longrightarrow> ring_step s (sys_peek j s)"
| step_release: "ring_step s (sys_release s)"
| step_attach: "length (rs_received s) \<le> j \<Longrightarrow> j \<le> length (rs_sent s) \<Longrightarrow> ring_step s (sys_attach j s)"

definition ring_init :: "ring_sys \<Rightarrow> bool" where
  "ring_init s \<longleftrightarrow> (\<exists>control k pid d. 2 \<le> k \<and> k \<le> 63 \<and> length d = 2 ^ k \<and>
     s = ring_start control (2 ^ k) pid d)"

definition ring_abs :: "ring_sys \<Rightarrow> fifo" where
  "ring_abs s = \<lparr>ff_sent = rs_sent s, ff_received = rs_received s,
     ff_slot = map_option (span_bytes (rs_data s)) (rs_slot s),
     ff_view = map_option (span_bytes (rs_data s)) (rs_view s)\<rparr>"

section \<open>The invariant\<close>

text \<open>
  The capacity, the counters and every value stored in them as functions of the history, the
  published records in the data area, the reserved slot, and the peeked view.
\<close>

definition counters_of :: "bytes list \<Rightarrow> u64 list" where
  "counters_of rs = map (\<lambda>j. counter_after (take j rs)) [0..<Suc (length rs)]"

lemma counters_of_nth: "j \<le> length rs \<Longrightarrow> counters_of rs ! j = counter_after (take j rs)"
  unfolding counters_of_def by (subst nth_map) (simp_all del: upt_Suc)

lemma counters_of_snoc: "counters_of (rs @ [r]) = counters_of rs @ [counter_after (rs @ [r])]"
  by (simp add: counters_of_def)

definition inv_layout :: "nat \<Rightarrow> ring_sys \<Rightarrow> bool" where
  "inv_layout k s \<longleftrightarrow> 2 \<le> k \<and> k \<le> 63 \<and> length (rs_data s) = 2 ^ k \<and>
     rc_capacity (rs_control s) = 2 ^ k \<and>
     rp_capacity (rs_prod s) = 2 ^ k \<and> rp_mask (rs_prod s) = 2 ^ k - 1 \<and>
     rn_capacity (rs_cons s) = 2 ^ k \<and> rn_mask (rs_cons s) = 2 ^ k - 1"

definition inv_counters :: "nat \<Rightarrow> ring_sys \<Rightarrow> bool" where
  "inv_counters k s \<longleftrightarrow>
     rc_head (rs_control s) = counter_after (rs_sent s) \<and> rp_head (rs_prod s) = counter_after (rs_sent s) \<and>
     rc_tail (rs_control s) = counter_after (rs_received s) \<and> rn_tail (rs_cons s) = counter_after (rs_received s) \<and>
     prefix (rs_received s) (rs_sent s) \<and>
     rs_seen_tail s \<le> length (rs_received s) \<and>
     rp_cached_tail (rs_prod s) = counter_after (take (rs_seen_tail s) (rs_received s)) \<and>
     stream_size (rs_sent s) + unat (rp_pending (rs_prod s))
       \<le> stream_size (take (rs_seen_tail s) (rs_received s)) + 2 ^ k \<and>
     length (rs_received s) \<le> rs_seen_head s \<and> rs_seen_head s \<le> length (rs_sent s) \<and>
     rn_cached_head (rs_cons s) = counter_after (take (rs_seen_head s) (rs_sent s)) \<and>
     rs_heads s = counters_of (rs_sent s) \<and> rs_tails s = counters_of (rs_received s)"

definition unread :: "ring_sys \<Rightarrow> bytes list" where
  "unread s = drop (length (rs_received s)) (rs_sent s)"

definition inv_content :: "ring_sys \<Rightarrow> bool" where
  "inv_content s \<longleftrightarrow> (\<forall>r \<in> set (rs_sent s). length r < 2 ^ 32) \<and>
     mirror_read (rs_data s) (stream_size (rs_received s)) (stream_size (unread s)) = stream_of (unread s)"

definition inv_slot :: "ring_sys \<Rightarrow> bool" where
  "inv_slot s \<longleftrightarrow> (case rs_slot s of
      None \<Rightarrow> rp_pending (rs_prod s) = 0
    | Some sp \<Rightarrow> unat (rp_pending (rs_prod s)) = 4 + sp_len sp \<and> sp_len sp < 2 ^ 32 \<and>
        sp_off sp = stream_size (rs_sent s) mod length (rs_data s) + 4 \<and>
        mirror_read (rs_data s) (stream_size (rs_sent s)) 4 = store_le 4 (of_nat (sp_len sp) :: u32))"

definition inv_view :: "ring_sys \<Rightarrow> bool" where
  "inv_view s \<longleftrightarrow> \<not> rn_corrupted (rs_cons s) \<and> (case rs_view s of
      None \<Rightarrow> rn_pending (rs_cons s) = 0
    | Some sp \<Rightarrow> length (rs_received s) < rs_seen_head s \<and>
        unat (rn_pending (rs_cons s)) = 4 + sp_len sp \<and> sp_len sp = length (rs_sent s ! length (rs_received s)) \<and>
        sp_off sp = stream_size (rs_received s) mod length (rs_data s) + 4)"

definition ring_inv :: "ring_sys \<Rightarrow> bool" where
  "ring_inv s \<longleftrightarrow> (\<exists>k. inv_layout k s \<and> inv_counters k s) \<and> inv_content s \<and> inv_slot s \<and> inv_view s"

section \<open>Streams and counters\<close>

lemma stream_of_append [simp]: "stream_of (as @ bs) = stream_of as @ stream_of bs"
  by (simp add: stream_of_def)

lemma stream_of_Nil [simp]: "stream_of [] = []"
  by (simp add: stream_of_def)

lemma stream_of_Cons [simp]: "stream_of (r # rs) = record_bytes r @ stream_of rs"
  by (simp add: stream_of_def)

lemma length_record_bytes [simp]: "length (record_bytes r) = 4 + length r"
  by (simp add: record_bytes_def)

lemma stream_size_take_le: "stream_size (take i rs) \<le> stream_size rs"
proof -
  have "stream_of rs = stream_of (take i rs) @ stream_of (drop i rs)"
    by (simp flip: stream_of_append)
  then show ?thesis by simp
qed

lemma stream_size_prefix: "prefix as bs \<Longrightarrow> stream_size as \<le> stream_size bs"
  by (auto simp: prefix_def)

lemma stream_size_unread:
  "prefix (rs_received s) (rs_sent s) \<Longrightarrow>
     stream_size (rs_sent s) = stream_size (rs_received s) + stream_size (unread s)"
  by (auto simp: prefix_def unread_def)

lemma counter_diff:
  "stream_size bs \<le> stream_size as \<Longrightarrow> stream_size as - stream_size bs < 2 ^ 64 \<Longrightarrow>
     unat (counter_after as - counter_after bs) = stream_size as - stream_size bs"
  unfolding counter_after_def by (simp add: unat_of_nat_small flip: of_nat_diff)

lemma unat_and_mask: "unat ((w :: u64) AND (2 ^ k - 1)) = unat w mod 2 ^ k"
proof -
  have "w AND (2 ^ k - 1) = take_bit k w"
    by (simp add: take_bit_eq_mask mask_eq_exp_minus_1)
  then show ?thesis by (metis take_bit_eq_mod unsigned_take_bit_eq)
qed

lemma offset_of_counter:
  assumes "k \<le> 63"
  shows "unat (counter_after rs AND (2 ^ k - 1)) = stream_size rs mod 2 ^ k"
proof -
  have "unat (counter_after rs AND (2 ^ k - 1)) = stream_size rs mod 2 ^ 64 mod 2 ^ k"
    by (simp add: unat_and_mask counter_after_def unat_of_nat)
  also have "\<dots> = stream_size rs mod 2 ^ k"
    by (rule mod_mod_cancel) (rule le_imp_power_dvd, use assms in simp)
  finally show ?thesis .
qed

section \<open>Every step keeps the invariant and simulates the contract\<close>

lemma power_below_u64: "k \<le> 63 \<Longrightarrow> (2 :: nat) ^ k < 2 ^ 64"
  by (rule power_strict_increasing) simp_all

lemma max_record_size_eq:
  assumes "rp_capacity p = 2 ^ k" "2 \<le> k" "k \<le> 63"
  shows "unat (RingProducer_max_record_size p) = min (2 ^ k - 4) (2 ^ 32 - 1)"
proof -
  have "(4 :: nat) \<le> 2 ^ k"
    using assms(2) power_increasing [of 2 k "2 :: nat"] by simp
  then have "unat (2 ^ k - 4 :: u64) = 2 ^ k - 4"
    using assms(3) by (simp add: unat_sub_small unat_two_power)
  moreover have "unat (ucast (- 1 :: u32) :: u64) = 2 ^ 32 - 1"
  proof -
    have "(ucast (- 1 :: u32) :: u64) = 0xFFFFFFFF"
      by (simp add: ucast_eq unsigned_minus_1_eq_mask mask_numeral)
    then show ?thesis by simp
  qed
  ultimately show ?thesis
    using assms(1) by (simp add: RingProducer_max_record_size_def Let_def kRecordPrefixSize_def word_less_nat_alt min_def)
qed

lemma unat_prefix_add: "unat n < 2 ^ 32 \<Longrightarrow> unat (kRecordPrefixSize + n) = 4 + unat n"
  by (simp add: kRecordPrefixSize_def unat_add_small)

lemma lacks_room_iff:
  assumes "rp_capacity p = 2 ^ k" "k \<le> 63" "rp_head p = counter_after hs" "rp_cached_tail p = counter_after ts"
    and "stream_size ts \<le> stream_size hs" "stream_size hs \<le> stream_size ts + 2 ^ k"
  shows "lacks_room p needed \<longleftrightarrow> stream_size ts + 2 ^ k < stream_size hs + unat needed"
proof -
  have "unat (counter_after hs - counter_after ts) = stream_size hs - stream_size ts"
    using assms(2,5,6) power_below_u64 [of k] by (intro counter_diff) auto
  then have "unat (2 ^ k - (counter_after hs - counter_after ts) :: u64) = 2 ^ k - (stream_size hs - stream_size ts)"
    using assms(2,6) by (subst unat_sub_small) (simp_all add: unat_two_power)
  then show ?thesis
    using assms by (auto simp: lacks_room_def word_less_nat_alt)
qed

lemma ring_invI:
  "inv_layout k s \<Longrightarrow> inv_counters k s \<Longrightarrow> inv_content s \<Longrightarrow> inv_slot s \<Longrightarrow> inv_view s \<Longrightarrow> ring_inv s"
  by (auto simp: ring_inv_def)

lemma ring_inv_layout:
  assumes "ring_inv s" "inv_layout k s"
  shows "inv_counters k s" "inv_content s" "inv_slot s" "inv_view s"
  using assms by (auto simp: ring_inv_def inv_layout_def)

text \<open>The view always shows the oldest unreleased record.\<close>

lemma view_bytes:
  assumes "ring_inv s" "rs_view s = Some sp"
  shows "span_bytes (rs_data s) sp = rs_sent s ! length (rs_received s)"
proof -
  from assms(1) obtain k where inv: "inv_layout k s" "inv_counters k s" "inv_content s" "inv_view s"
    by (auto simp: ring_inv_def)
  let ?r = "rs_sent s ! length (rs_received s)" and ?R = "stream_size (rs_received s)"
  have "length (rs_received s) < length (rs_sent s)"
    using inv(2,4) assms(2) by (auto simp: inv_counters_def inv_view_def)
  then obtain rest where "unread s = ?r # rest"
    unfolding unread_def by (metis Cons_nth_drop_Suc)
  then have "mirror_read (rs_data s) ?R (4 + length ?r + stream_size rest) = record_bytes ?r @ stream_of rest"
    using inv(3) by (simp add: inv_content_def)
  then have "mirror_read (rs_data s) ?R (4 + length ?r) = record_bytes ?r"
    by (simp only: mirror_read_add [of _ _ "4 + length ?r"]) simp
  then have "mirror_read (rs_data s) (?R + 4) (length ?r) = ?r"
    by (simp only: mirror_read_add [of _ _ 4] record_bytes_def) simp
  then show ?thesis
    using inv(4) assms(2) mirror_read_wrap [of "rs_data s" ?R 4] by (simp add: span_bytes_def inv_view_def)
qed

lemma ring_abs_eq:
  "ring_inv s \<Longrightarrow> ring_abs s = \<lparr>ff_sent = rs_sent s, ff_received = rs_received s,
     ff_slot = map_option (span_bytes (rs_data s)) (rs_slot s),
     ff_view = (if rs_view s = None then None else Some (rs_sent s ! length (rs_received s)))\<rparr>"
  by (auto simp: ring_abs_def view_bytes)

lemma refresh_inv:
  assumes "ring_inv s" "rs_seen_tail s \<le> i" "i \<le> length (rs_received s)"
  shows "ring_inv (s\<lparr>rs_prod := (rs_prod s)\<lparr>rp_cached_tail := counter_after (take i (rs_received s))\<rparr>, rs_seen_tail := i\<rparr>)"
    (is "ring_inv ?t")
proof -
  from assms(1) obtain k where lay: "inv_layout k s" by (auto simp: ring_inv_def)
  note inv = ring_inv_layout [OF assms(1) lay]
  have "stream_size (take (rs_seen_tail s) (rs_received s)) \<le> stream_size (take i (rs_received s))"
    using assms(2) by (metis min.absorb1 stream_size_take_le take_take)
  then have "inv_counters k ?t"
    using inv(1) assms(3) by (simp add: inv_counters_def)
  then show ?thesis
    using lay inv by (intro ring_invI [of k]) (auto simp: inv_layout_def inv_content_def inv_slot_def inv_view_def
        unread_def split: option.splits)
qed

definition sys_place :: "u64 \<Rightarrow> ring_sys \<Rightarrow> ring_sys" where
  "sys_place bytes s = (case reserve_at_head (rs_prod s) (rs_data s) bytes of
     (p, d, slot) \<Rightarrow> s\<lparr>rs_prod := p, rs_data := d, rs_slot := slot\<rparr>)"

lemma place_inv:
  assumes inv: "ring_inv s" and lay: "inv_layout k s" and small: "unat bytes < 2 ^ 32"
    and room: "stream_size (rs_sent s) + (4 + unat bytes) \<le> stream_size (take (rs_seen_tail s) (rs_received s)) + 2 ^ k"
  shows "ring_inv (sys_place bytes s)"
    and "\<exists>bs. ring_abs (sys_place bytes s) = (ring_abs s)\<lparr>ff_slot := Some bs\<rparr>"
proof -
  let ?S = "stream_size (rs_sent s)" and ?R = "stream_size (rs_received s)" and ?t = "sys_place bytes s"
  let ?d = "mirror_write (rs_data s) ?S (store_le 4 (ucast bytes :: u32))"
  note invs = ring_inv_layout [OF inv lay]
  have len: "length (rs_data s) = 2 ^ k" and k: "2 \<le> k" "k \<le> 63" using lay by (simp_all add: inv_layout_def)
  have off: "unat (rp_head (rs_prod s) AND rp_mask (rs_prod s)) = ?S mod length (rs_data s)"
    using lay invs(1) by (simp add: inv_layout_def inv_counters_def offset_of_counter)
  have place: "?t = s\<lparr>rs_prod := (rs_prod s)\<lparr>rp_pending := kRecordPrefixSize + bytes\<rparr>,
      rs_data := ?d, rs_slot := Some \<lparr>sp_off = ?S mod length (rs_data s) + 4, sp_len = unat bytes\<rparr>\<rparr>"
    using mirror_write_wrap [where k = 0] by (simp add: sys_place_def reserve_at_head_def Let_def off kRecordPrefixSize_def)
  have "stream_size (take (rs_seen_tail s) (rs_received s)) \<le> ?R"
    by (rule stream_size_take_le)
  then have room': "?S + 4 \<le> ?R + length (rs_data s)" using room len by simp
  have pre: "prefix (rs_received s) (rs_sent s)" using invs(1) by (simp add: inv_counters_def)
  have unread: "mirror_read ?d ?R (stream_size (unread s)) = mirror_read (rs_data s) ?R (stream_size (unread s))"
    using room' stream_size_unread [OF pre] by (intro mirror_write_other) auto
  have slot: "mirror_read ?d ?S 4 = store_le 4 (of_nat (unat bytes) :: u32)"
    using mirror_write_same [of "store_le 4 (ucast bytes :: u32)" "rs_data s" ?S] len k
      power_increasing [of 2 k "2 :: nat"] by simp
  show t: "ring_inv ?t"
  proof (rule ring_invI)
    show "inv_layout k ?t" using lay by (simp add: place inv_layout_def)
    show "inv_counters k ?t" using invs(1) room small by (simp add: place inv_counters_def unat_prefix_add)
    show "inv_content ?t" using invs(2) unread by (simp add: place inv_content_def unread_def)
    show "inv_slot ?t" using slot small by (simp add: place inv_slot_def unat_prefix_add)
    show "inv_view ?t" using invs(4) by (simp add: place inv_view_def split: option.splits)
  qed
  show "\<exists>bs. ring_abs ?t = (ring_abs s)\<lparr>ff_slot := Some bs\<rparr>"
    unfolding ring_abs_eq [OF t] ring_abs_eq [OF inv] by (simp add: place)
qed

lemma sizes:
  assumes "inv_counters k s"
  shows "stream_size (take (rs_seen_tail s) (rs_received s)) \<le> stream_size (rs_received s)"
    and "stream_size (rs_received s) \<le> stream_size (rs_sent s)"
    and "stream_size (rs_sent s) = stream_size (rs_received s) + stream_size (unread s)"
  using assms stream_size_prefix stream_size_unread by (auto simp: inv_counters_def stream_size_take_le)

lemma lacks_room_inv:
  assumes "inv_layout k s" "inv_counters k s"
  shows "lacks_room (rs_prod s) needed \<longleftrightarrow>
    stream_size (take (rs_seen_tail s) (rs_received s)) + 2 ^ k < stream_size (rs_sent s) + unat needed"
  using assms sizes [OF assms(2)] by (intro lacks_room_iff) (auto simp: inv_layout_def inv_counters_def)

lemma bytes_in_range:
  assumes "inv_layout k s" "bytes \<le> RingProducer_max_record_size (rs_prod s)"
  shows "unat bytes < 2 ^ 32" "4 + unat bytes \<le> 2 ^ k"
proof -
  have "unat (RingProducer_max_record_size (rs_prod s)) = min (2 ^ k - 4) (2 ^ 32 - 1)"
    using assms(1) by (intro max_record_size_eq) (auto simp: inv_layout_def)
  then have "unat bytes \<le> min (2 ^ k - 4) (2 ^ 32 - 1)"
    using assms(2) by (simp add: word_le_nat_alt)
  moreover have "(4 :: nat) \<le> 2 ^ k"
    using assms(1) power_increasing [of 2 k "2 :: nat"] by (simp add: inv_layout_def)
  ultimately show "unat bytes < 2 ^ 32" "4 + unat bytes \<le> 2 ^ k" by auto
qed

text \<open>What a call of \<^verbatim>\<open>try_reserve\<close> amounts to.\<close>

definition sys_refresh :: "nat \<Rightarrow> ring_sys \<Rightarrow> ring_sys" where
  "sys_refresh i s = s\<lparr>rs_prod := (rs_prod s)\<lparr>rp_cached_tail := rs_tails s ! i\<rparr>, rs_seen_tail := i\<rparr>"

lemma sys_reserve_cases:
  "sys_reserve bytes i s =
     (if RingProducer_max_record_size (rs_prod s) < bytes then s
      else if \<not> lacks_room (rs_prod s) (kRecordPrefixSize + bytes) then sys_place bytes s
      else if lacks_room (rs_prod (sys_refresh i s)) (kRecordPrefixSize + bytes) then sys_refresh i s
      else sys_place bytes (sys_refresh i s))"
  by (auto simp: sys_reserve_def RingProducer_try_reserve_def sys_place_def sys_refresh_def reserve_at_head_def Let_def)

lemma reserve_step:
  assumes inv: "ring_inv s" and i: "rs_seen_tail s \<le> i" "i \<le> length (rs_received s)"
  shows "ring_inv (sys_reserve bytes i s) \<and> fifo_step (ring_abs s) (ring_abs (sys_reserve bytes i s))"
proof -
  from inv obtain k where lay: "inv_layout k s" by (auto simp: ring_inv_def)
  let ?t = "sys_refresh i s"
  have "rs_tails s ! i = counter_after (take i (rs_received s))"
    using ring_inv_layout(1) [OF inv lay] i(2) by (simp add: inv_counters_def counters_of_nth)
  then have t: "ring_inv ?t" "inv_layout k ?t" "ring_abs ?t = ring_abs s"
    using refresh_inv [OF inv i] lay by (simp_all add: sys_refresh_def inv_layout_def ring_abs_def)
  have placed: "ring_inv (sys_place bytes u) \<and> fifo_step (ring_abs u) (ring_abs (sys_place bytes u))"
    if "ring_inv u" "inv_layout k u" "\<not> lacks_room (rs_prod u) (kRecordPrefixSize + bytes)"
      "bytes \<le> RingProducer_max_record_size (rs_prod u)" for u
  proof -
    have small: "unat bytes < 2 ^ 32" using bytes_in_range [OF that(2,4)] by simp
    then have "stream_size (rs_sent u) + (4 + unat bytes) \<le> stream_size (take (rs_seen_tail u) (rs_received u)) + 2 ^ k"
      using that(3) lacks_room_inv [OF that(2) ring_inv_layout(1) [OF that(1,2)]] by (simp add: unat_prefix_add)
    from place_inv [OF that(1,2) small this] show ?thesis
      using fifo_reserve by metis
  qed
  have "bytes \<le> RingProducer_max_record_size (rs_prod s) \<Longrightarrow> bytes \<le> RingProducer_max_record_size (rs_prod ?t)"
    by (simp add: sys_refresh_def RingProducer_max_record_size_def)
  then show ?thesis
    using placed [OF inv lay] placed [OF t(1,2)] t inv
    by (auto simp: sys_reserve_cases not_less intro: fifo_stutter)
qed

lemma slot_facts:
  assumes inv: "ring_inv s" and slot: "rs_slot s = Some sp"
  defines "S \<equiv> stream_size (rs_sent s)" and "R \<equiv> stream_size (rs_received s)" and "L \<equiv> length (rs_data s)"
  shows "unat (rp_pending (rs_prod s)) = 4 + sp_len sp" "sp_off sp = S mod L + 4"
    "mirror_read (rs_data s) S 4 = store_le 4 (of_nat (sp_len sp) :: u32)"
    "S + (4 + sp_len sp) \<le> R + L" "4 + sp_len sp \<le> L"
proof -
  from inv obtain k where lay: "inv_layout k s" by (auto simp: ring_inv_def)
  note invs = ring_inv_layout [OF inv lay]
  show pend: "unat (rp_pending (rs_prod s)) = 4 + sp_len sp" and "sp_off sp = S mod L + 4"
    and "mirror_read (rs_data s) S 4 = store_le 4 (of_nat (sp_len sp) :: u32)"
    using invs(3) slot by (simp_all add: inv_slot_def S_def L_def)
  have "L = 2 ^ k" using lay by (simp add: inv_layout_def L_def)
  then show "S + (4 + sp_len sp) \<le> R + L" "4 + sp_len sp \<le> L"
    using invs(1) pend sizes [OF invs(1)] by (auto simp: inv_counters_def S_def R_def)
qed

text \<open>A store into the slot changes that byte of the slot.\<close>

lemma write_slot_bytes:
  assumes inv: "ring_inv s" and slot: "rs_slot s = Some sp" and i: "i < sp_len sp"
  shows "sys_write sp i b s = s\<lparr>rs_data := (rs_data s)[(stream_size (rs_sent s) + 4 + i) mod length (rs_data s) := b]\<rparr>"
    "span_bytes (rs_data (sys_write sp i b s)) sp = (span_bytes (rs_data s) sp)[i := b]"
proof -
  note f = slot_facts [OF inv slot]
  let ?S = "stream_size (rs_sent s)" and ?d = "(rs_data s)[(stream_size (rs_sent s) + 4 + i) mod length (rs_data s) := b]"
  show t: "sys_write sp i b s = s\<lparr>rs_data := ?d\<rparr>"
    using mirror_write_wrap [of "rs_data s" ?S "4 + i" "[b]"] by (simp add: sys_write_def f(2) add.assoc)
  show "span_bytes (rs_data (sys_write sp i b s)) sp = (span_bytes (rs_data s) sp)[i := b]"
    using mirror_read_update_inside [of i "sp_len sp" "rs_data s" "?S + 4" b] i f(2,5)
      mirror_read_wrap [of ?d ?S 4] mirror_read_wrap [of "rs_data s" ?S 4]
    by (simp add: span_bytes_def t)
qed

lemma write_step:
  assumes inv: "ring_inv s" and slot: "rs_slot s = Some sp" and i: "i < sp_len sp"
  shows "ring_inv (sys_write sp i b s) \<and> fifo_step (ring_abs s) (ring_abs (sys_write sp i b s))"
proof -
  from inv obtain k where lay: "inv_layout k s" by (auto simp: ring_inv_def)
  note invs = ring_inv_layout [OF inv lay] and f = slot_facts [OF inv slot] and t = write_slot_bytes [OF inv slot i, of b]
  let ?S = "stream_size (rs_sent s)" and ?R = "stream_size (rs_received s)" and ?t = "sys_write sp i b s"
  let ?d = "(rs_data s)[(?S + 4 + i) mod length (rs_data s) := b]"
  have "mirror_read ?d ?R (stream_size (unread s)) = mirror_read (rs_data s) ?R (stream_size (unread s))"
    using f(4) i sizes(3) [OF invs(1)] by (intro mirror_read_update_other) auto
  moreover have "mirror_read ?d ?S 4 = mirror_read (rs_data s) ?S 4"
    using f(5) i by (intro mirror_read_update_other) auto
  ultimately have inv': "ring_inv ?t"
    using lay invs slot
    by (intro ring_invI [of k])
      (simp_all add: t(1) inv_layout_def inv_counters_def inv_content_def inv_slot_def inv_view_def unread_def
        split: option.splits)
  have "ring_abs ?t = (ring_abs s)\<lparr>ff_slot := Some ((span_bytes (rs_data s) sp)[i := b])\<rparr>"
    unfolding ring_abs_eq [OF inv'] ring_abs_eq [OF inv] using slot t(2) by (simp add: t(1))
  moreover have "ff_slot (ring_abs s) = Some (span_bytes (rs_data s) sp)"
    using slot by (simp add: ring_abs_def)
  ultimately show ?thesis
    using inv' i fifo_write [of "ring_abs s" "span_bytes (rs_data s) sp" i b] by (simp add: span_bytes_def)
qed


lemma counter_after_add:
  "unat w = n \<Longrightarrow> stream_size bs = stream_size as + n \<Longrightarrow> counter_after as + w = counter_after bs"
  unfolding counter_after_def by auto

lemma commit_step:
  assumes inv: "ring_inv s"
  shows "ring_inv (sys_commit s) \<and> fifo_step (ring_abs s) (ring_abs (sys_commit s))"
proof (cases "rs_slot s")
  case None
  then have "rp_pending (rs_prod s) = 0" using inv by (auto simp: ring_inv_def inv_slot_def)
  then have "sys_commit s = s" using None by (simp add: sys_commit_def RingProducer_commit_def)
  then show ?thesis using inv by (simp add: fifo_stutter)
next
  case (Some sp)
  from inv obtain k where lay: "inv_layout k s" by (auto simp: ring_inv_def)
  note invs = ring_inv_layout [OF inv lay]
  let ?S = "stream_size (rs_sent s)" and ?R = "stream_size (rs_received s)" and ?t = "sys_commit s"
  let ?bs = "span_bytes (rs_data s) sp" and ?w = "rp_pending (rs_prod s)"
  have slot: "unat ?w = 4 + sp_len sp" "sp_len sp < 2 ^ 32" "sp_off sp = ?S mod length (rs_data s) + 4"
    "mirror_read (rs_data s) ?S 4 = store_le 4 (of_nat (sp_len sp) :: u32)"
    using invs(3) Some by (simp_all add: inv_slot_def)
  have len: "length ?bs = sp_len sp" by (simp add: span_bytes_def)
  have "?w \<noteq> 0" using slot(1) by auto
  then have t: "?t = s\<lparr>rs_prod := (rs_prod s)\<lparr>rp_head := rp_head (rs_prod s) + ?w, rp_pending := 0\<rparr>,
      rs_control := (rs_control s)\<lparr>rc_head := rp_head (rs_prod s) + ?w\<rparr>, rs_slot := None, rs_sent := rs_sent s @ [?bs],
      rs_heads := rs_heads s @ [rp_head (rs_prod s) + ?w]\<rparr>"
    using Some by (simp add: sys_commit_def RingProducer_commit_def)
  have head: "counter_after (rs_sent s) + ?w = counter_after (rs_sent s @ [?bs])"
    using slot(1) len by (intro counter_after_add) auto
  have le: "length (rs_received s) \<le> length (rs_sent s)"
    using invs(1) by (auto simp: inv_counters_def prefix_length_le)
  have unread': "unread ?t = unread s @ [?bs]" using le by (simp add: t unread_def)
  have rec: "mirror_read (rs_data s) ?S (4 + sp_len sp) = record_bytes ?bs"
    using slot mirror_read_wrap [of "rs_data s" ?S 4]
    by (simp add: mirror_read_add [of _ _ 4] record_bytes_def len) (simp add: span_bytes_def)
  have "mirror_read (rs_data s) ?R (stream_size (unread s) + (4 + sp_len sp)) = stream_of (unread s) @ record_bytes ?bs"
    using invs(2) rec sizes(3) [OF invs(1)] by (subst mirror_read_add) (simp add: inv_content_def)
  then have content: "inv_content ?t"
    using invs(2) slot(2) len unread' by (simp add: inv_content_def) (simp add: t)
  have "inv_counters k ?t"
    using invs(1) head slot(1) len le by (simp add: inv_counters_def) (simp add: t take_append counters_of_snoc)
  then have inv': "ring_inv ?t"
    using lay invs content
    by (intro ring_invI [of k])
      (auto simp: t inv_layout_def inv_counters_def inv_slot_def inv_view_def nth_append split: option.splits)
  have "ring_abs ?t = (ring_abs s)\<lparr>ff_sent := ff_sent (ring_abs s) @ [?bs], ff_slot := None\<rparr>"
    by (simp add: ring_abs_def t)
  moreover have "ff_slot (ring_abs s) = Some ?bs" using Some by (simp add: ring_abs_def)
  ultimately show ?thesis using inv' by (simp add: fifo_commit)
qed

lemma take_sent:
  assumes "prefix (rs_received s) (rs_sent s)" "length (rs_received s) \<le> j"
  shows "take j (rs_sent s) = rs_received s @ take (j - length (rs_received s)) (unread s)"
  using assms by (auto simp: prefix_def unread_def)

lemma unread_Cons:
  assumes "length (rs_received s) < length (rs_sent s)"
  obtains rest where "unread s = rs_sent s ! length (rs_received s) # rest"
  using assms unfolding unread_def by (metis Cons_nth_drop_Suc)

text \<open>How far an observed head is ahead of the tail.\<close>

lemma observed_head:
  assumes "inv_counters k s" "k \<le> 63" "length (rs_received s) \<le> j" "j \<le> length (rs_sent s)"
  shows "unat (counter_after (take j (rs_sent s)) - counter_after (rs_received s))
      = stream_size (take (j - length (rs_received s)) (unread s))"
    and "stream_size (take (j - length (rs_received s)) (unread s)) \<le> 2 ^ k"
proof -
  let ?m = "j - length (rs_received s)"
  have pre: "prefix (rs_received s) (rs_sent s)" using assms(1) by (simp add: inv_counters_def)
  have take: "take j (rs_sent s) = rs_received s @ take ?m (unread s)"
    by (rule take_sent [OF pre assms(3)])
  show bound: "stream_size (take ?m (unread s)) \<le> 2 ^ k"
    using sizes [OF assms(1)] stream_size_take_le [of ?m "unread s"] assms(1) by (auto simp: inv_counters_def)
  show "unat (counter_after (take j (rs_sent s)) - counter_after (rs_received s)) = stream_size (take ?m (unread s))"
    using bound power_below_u64 [OF assms(2)] unfolding take by (subst counter_diff) auto
qed

lemma observed_head_eq:
  assumes "inv_counters k s" "k \<le> 63" "length (rs_received s) \<le> j" "j \<le> length (rs_sent s)"
  shows "counter_after (take j (rs_sent s)) = counter_after (rs_received s) \<longleftrightarrow> j = length (rs_received s)"
proof
  assume "counter_after (take j (rs_sent s)) = counter_after (rs_received s)"
  then have "stream_size (take (j - length (rs_received s)) (unread s)) = 0"
    using observed_head(1) [OF assms] by simp
  then have "take (j - length (rs_received s)) (unread s) = []"
    by (cases "take (j - length (rs_received s)) (unread s)") auto
  then show "j = length (rs_received s)" using assms(3,4) by (auto simp: unread_def)
next
  assume "j = length (rs_received s)"
  then show "counter_after (take j (rs_sent s)) = counter_after (rs_received s)"
    using assms(1) by (auto simp: inv_counters_def prefix_def)
qed

definition sys_look :: "nat \<Rightarrow> ring_sys \<Rightarrow> ring_sys" where
  "sys_look j s = s\<lparr>rs_cons := (rs_cons s)\<lparr>rn_cached_head := rs_heads s ! j\<rparr>, rs_seen_head := j\<rparr>"

lemma look_inv:
  assumes "ring_inv s" "rs_view s = None" "length (rs_received s) \<le> j" "j \<le> length (rs_sent s)"
  shows "ring_inv (sys_look j s)"
proof -
  from assms(1) obtain k where lay: "inv_layout k s" by (auto simp: ring_inv_def)
  note invs = ring_inv_layout [OF assms(1) lay]
  show ?thesis
    using lay invs assms(2-4) by (intro ring_invI [of k])
      (simp_all add: sys_look_def inv_layout_def inv_counters_def inv_content_def inv_slot_def inv_view_def unread_def
        counters_of_nth split: option.splits)
qed

definition sys_fetch :: "ring_sys \<Rightarrow> ring_sys" where
  "sys_fetch s = (case peek_record (rs_cons s) (rs_data s) of (c, view) \<Rightarrow> s\<lparr>rs_cons := c, rs_view := view\<rparr>)"

lemma next_record_prefix:
  assumes inv: "inv_content s" and more: "length (rs_received s) < length (rs_sent s)"
  defines "r \<equiv> rs_sent s ! length (rs_received s)"
  shows "length r < 2 ^ 32"
    and "load_le (mirror_read (rs_data s) (stream_size (rs_received s) mod length (rs_data s)) 4) = (of_nat (length r) :: u32)"
proof -
  let ?R = "stream_size (rs_received s)"
  show small: "length r < 2 ^ 32" using inv more by (simp add: inv_content_def r_def)
  obtain rest where unread: "unread s = r # rest" using more unfolding r_def by (rule unread_Cons)
  have "mirror_read (rs_data s) ?R (4 + (length r + stream_size rest)) = record_bytes r @ stream_of rest"
    using inv unread by (simp add: inv_content_def add.assoc)
  then have "mirror_read (rs_data s) ?R 4 = store_le 4 (of_nat (length r) :: u32)"
    by (simp only: mirror_read_add [of _ _ 4] record_bytes_def) simp
  then show "load_le (mirror_read (rs_data s) (?R mod length (rs_data s)) 4) = (of_nat (length r) :: u32)"
    using mirror_read_wrap [of "rs_data s" ?R 0] by (simp add: load_le_store_le_full)
qed

lemma fetch_inv:
  assumes inv: "ring_inv s" and none: "rs_view s = None" and less: "length (rs_received s) < rs_seen_head s"
  shows "ring_inv (sys_fetch s) \<and> fifo_step (ring_abs s) (ring_abs (sys_fetch s)) \<and> rs_view (sys_fetch s) \<noteq> None"
proof -
  from inv obtain k where lay: "inv_layout k s" by (auto simp: ring_inv_def)
  note invs = ring_inv_layout [OF inv lay]
  let ?r = "rs_sent s ! length (rs_received s)" and ?R = "stream_size (rs_received s)"
  let ?n = "length (rs_received s)" and ?size = "kRecordPrefixSize + ucast (of_nat (length ?r) :: u32)"
  have k: "k \<le> 63" and seen: "rs_seen_head s \<le> length (rs_sent s)"
    using lay invs(1) by (simp_all add: inv_layout_def inv_counters_def)
  with less have lt: "?n < length (rs_sent s)" by simp
  then obtain rest where unread: "unread s = ?r # rest" by (rule unread_Cons)
  note small = next_record_prefix(1) [OF invs(2) lt] and prefix = next_record_prefix(2) [OF invs(2) lt]
  have unat_len: "unat (of_nat (length ?r) :: u32) = length ?r" using small by (simp add: unat_of_nat_small)
  then have usize: "unat ?size = 4 + length ?r"
    using small by (subst unat_prefix_add) simp_all
  have off: "unat (rn_tail (rs_cons s) AND rn_mask (rs_cons s)) = ?R mod length (rs_data s)"
    using lay invs(1) k by (simp add: inv_layout_def inv_counters_def offset_of_counter)
  have "rn_cached_head (rs_cons s) = counter_after (take (rs_seen_head s) (rs_sent s))"
    "rn_tail (rs_cons s) = counter_after (rs_received s)"
    using invs(1) by (simp_all add: inv_counters_def)
  moreover have "4 + length ?r \<le> stream_size (take (rs_seen_head s - ?n) (unread s))"
    using less by (cases "rs_seen_head s - ?n") (auto simp: unread)
  ultimately have avail: "4 + length ?r \<le> unat (rn_cached_head (rs_cons s) - rn_tail (rs_cons s))"
    using observed_head(1) [OF invs(1) k, of "rs_seen_head s"] less seen by simp
  have "4 + length ?r \<le> 2 ^ k"
    using sizes [OF invs(1)] invs(1) by (simp add: inv_counters_def unread)
  then have "\<not> (rn_cached_head (rs_cons s) - rn_tail (rs_cons s) < ?size \<or> rn_capacity (rs_cons s) < ?size)"
    using avail usize lay k by (simp add: word_less_nat_alt inv_layout_def unat_two_power)
  then have t: "sys_fetch s = s\<lparr>rs_cons := (rs_cons s)\<lparr>rn_pending := ?size\<rparr>,
      rs_view := Some \<lparr>sp_off = ?R mod length (rs_data s) + 4, sp_len = length ?r\<rparr>\<rparr>"
    by (simp add: sys_fetch_def peek_record_def Let_def off prefix unat_len) (simp add: kRecordPrefixSize_def)
  have inv': "ring_inv (sys_fetch s)"
    using lay invs less usize unfolding t
    by (intro ring_invI [of k])
      (simp_all add: inv_layout_def inv_counters_def inv_content_def inv_slot_def inv_view_def unread_def
        split: option.splits)
  have "ring_abs (sys_fetch s) = (ring_abs s)\<lparr>ff_view := Some (ff_sent (ring_abs s) ! length (ff_received (ring_abs s)))\<rparr>"
    unfolding ring_abs_eq [OF inv'] ring_abs_eq [OF inv] by (simp add: t)
  moreover have "length (ff_received (ring_abs s)) < length (ff_sent (ring_abs s))"
    using lt by (simp add: ring_abs_def)
  ultimately have "fifo_step (ring_abs s) (ring_abs (sys_fetch s))"
    by (simp add: fifo_peek)
  then show ?thesis using inv' by (simp add: t)
qed


lemma sys_peek_cases:
  "\<not> rn_corrupted (rs_cons s) \<Longrightarrow> sys_peek j s =
     (if rn_pending (rs_cons s) \<noteq> 0 then
        s\<lparr>rs_view := Some \<lparr>sp_off = unat (rn_tail (rs_cons s) AND rn_mask (rs_cons s)) + 4,
          sp_len = unat (rn_pending (rs_cons s) - kRecordPrefixSize)\<rparr>\<rparr>
      else if rn_cached_head (rs_cons s) \<noteq> rn_tail (rs_cons s) then sys_fetch s
      else if rs_heads s ! j = rn_tail (rs_cons s) then (sys_look j s)\<lparr>rs_view := None\<rparr>
      else sys_fetch (sys_look j s))"
  by (auto simp: sys_peek_def RingConsumer_try_peek_def sys_fetch_def sys_look_def peek_record_def Let_def
      kRecordPrefixSize_def)

lemma peek_held:
  assumes inv: "ring_inv s" and view: "rs_view s = Some sp"
  shows "sys_peek j s = s"
proof -
  from inv obtain k where lay: "inv_layout k s" by (auto simp: ring_inv_def)
  note invs = ring_inv_layout [OF inv lay]
  have ok: "\<not> rn_corrupted (rs_cons s)" using invs(4) by (simp add: inv_view_def)
  have sp: "unat (rn_pending (rs_cons s)) = 4 + sp_len sp" "sp_off sp = stream_size (rs_received s) mod length (rs_data s) + 4"
    using invs(4) view by (simp_all add: inv_view_def)
  have "unat (rn_tail (rs_cons s) AND rn_mask (rs_cons s)) + 4 = sp_off sp"
    using lay invs(1) sp(2) by (simp add: inv_counters_def inv_layout_def offset_of_counter)
  moreover have "unat (rn_pending (rs_cons s) - kRecordPrefixSize) = sp_len sp"
    using sp(1) by (simp add: unat_sub_small kRecordPrefixSize_def)
  moreover have "rn_pending (rs_cons s) \<noteq> 0" using sp(1) by auto
  ultimately show ?thesis using view by (simp add: sys_peek_cases [OF ok])
qed

lemma peek_facts:
  assumes inv: "ring_inv s" and k: "inv_layout k s"
  shows "length (rs_received s) \<le> rs_seen_head s" "rs_seen_head s \<le> length (rs_sent s)"
    "rn_cached_head (rs_cons s) = counter_after (take (rs_seen_head s) (rs_sent s))"
    "rn_tail (rs_cons s) = counter_after (rs_received s)" "\<not> rn_corrupted (rs_cons s)"
    "rs_view s = None \<Longrightarrow> rn_pending (rs_cons s) = 0"
  using ring_inv_layout [OF inv k] by (auto simp: inv_counters_def inv_view_def)

text \<open>A peek that finds the ring empty by its cached head loads the head again.\<close>

lemma peek_reloads:
  assumes inv: "ring_inv s" and j: "rs_seen_head s \<le> j" "j \<le> length (rs_sent s)"
    and view: "rs_view s = None" and seen_all: "rs_seen_head s = length (rs_received s)"
  shows "ring_inv (sys_peek j s) \<and> fifo_step (ring_abs s) (ring_abs (sys_peek j s)) \<and>
      (length (rs_received s) < j \<longrightarrow> rs_view (sys_peek j s) \<noteq> None)"
proof -
  from inv obtain k where lay: "inv_layout k s" by (auto simp: ring_inv_def)
  note invs = ring_inv_layout [OF inv lay] and facts = peek_facts [OF inv lay]
  have k: "k \<le> 63" using lay by (simp add: inv_layout_def)
  have "rn_cached_head (rs_cons s) = rn_tail (rs_cons s)"
    using observed_head_eq [OF invs(1) k facts(1,2)] facts(3,4) seen_all by simp
  note peek = sys_peek_cases [OF facts(5), of j, unfolded facts(6) [OF view], simplified this, simplified]
  have stored: "rs_heads s ! j = counter_after (take j (rs_sent s))"
    using invs(1) j(2) by (simp add: inv_counters_def counters_of_nth)
  have le: "length (rs_received s) \<le> j" using j(1) facts(1) by simp
  have look: "ring_inv (sys_look j s)" "rs_view (sys_look j s) = None" "ring_abs (sys_look j s) = ring_abs s"
    "rs_seen_head (sys_look j s) = j" "rs_received (sys_look j s) = rs_received s"
    using look_inv [OF inv view le j(2)] view by (simp_all add: sys_look_def ring_abs_def)
  then have same: "(sys_look j s)\<lparr>rs_view := None\<rparr> = sys_look j s" by simp
  show ?thesis
  proof (cases "j = length (rs_received s)")
    case True
    then have "rs_heads s ! j = rn_tail (rs_cons s)"
      using observed_head_eq [OF invs(1) k le j(2)] facts(4) stored by simp
    then have "sys_peek j s = sys_look j s" by (simp add: peek same)
    then show ?thesis using look True by (simp add: fifo_stutter)
  next
    case False
    then have "sys_peek j s = sys_fetch (sys_look j s)"
      using observed_head_eq [OF invs(1) k le j(2)] facts(4) stored by (simp add: peek)
    then show ?thesis using fetch_inv [OF look(1,2)] look False le by simp
  qed
qed

lemma peek_step:
  assumes inv: "ring_inv s" and j: "rs_seen_head s \<le> j" "j \<le> length (rs_sent s)"
  shows "ring_inv (sys_peek j s) \<and> fifo_step (ring_abs s) (ring_abs (sys_peek j s))"
    and "length (rs_received s) < j \<Longrightarrow> rs_view (sys_peek j s) \<noteq> None"
proof -
  from inv obtain k where lay: "inv_layout k s" by (auto simp: ring_inv_def)
  note invs = ring_inv_layout [OF inv lay] and facts = peek_facts [OF inv lay]
  have k: "k \<le> 63" using lay by (simp add: inv_layout_def)
  have "ring_inv (sys_peek j s) \<and> fifo_step (ring_abs s) (ring_abs (sys_peek j s)) \<and>
      (length (rs_received s) < j \<longrightarrow> rs_view (sys_peek j s) \<noteq> None)"
  proof (cases "rs_view s")
    case (Some sp)
    then show ?thesis using inv peek_held [OF inv Some] by (simp add: fifo_stutter)
  next
    case None
    show ?thesis
    proof (cases "rs_seen_head s = length (rs_received s)")
      case False
      then have "rn_cached_head (rs_cons s) \<noteq> rn_tail (rs_cons s)"
        using observed_head_eq [OF invs(1) k facts(1,2)] facts(3,4) by simp
      then show ?thesis
        using fetch_inv [OF inv None] facts(1) False
        by (simp add: sys_peek_cases [OF facts(5), of j, unfolded facts(6) [OF None], simplified])
    qed (rule peek_reloads [OF inv j None])
  qed
  then show "ring_inv (sys_peek j s) \<and> fifo_step (ring_abs s) (ring_abs (sys_peek j s))"
    "length (rs_received s) < j \<Longrightarrow> rs_view (sys_peek j s) \<noteq> None" by blast+
qed


lemma release_step:
  assumes inv: "ring_inv s"
  shows "ring_inv (sys_release s) \<and> fifo_step (ring_abs s) (ring_abs (sys_release s))"
proof (cases "rs_view s")
  case None
  then have "rn_pending (rs_cons s) = 0" using inv by (auto simp: ring_inv_def inv_view_def)
  then have "sys_release s = s" using None by (simp add: sys_release_def RingConsumer_release_def)
  then show ?thesis using inv by (simp add: fifo_stutter)
next
  case (Some sp)
  from inv obtain k where lay: "inv_layout k s" by (auto simp: ring_inv_def)
  note invs = ring_inv_layout [OF inv lay]
  let ?r = "rs_sent s ! length (rs_received s)" and ?R = "stream_size (rs_received s)" and ?t = "sys_release s"
  let ?w = "rn_pending (rs_cons s)"
  have view: "length (rs_received s) < rs_seen_head s" "unat ?w = 4 + sp_len sp" "sp_len sp = length ?r"
    using invs(4) Some by (simp_all add: inv_view_def)
  have bs: "span_bytes (rs_data s) sp = ?r" by (rule view_bytes [OF inv Some])
  have "?w \<noteq> 0" using view(2) by auto
  then have t: "?t = s\<lparr>rs_cons := (rs_cons s)\<lparr>rn_tail := rn_tail (rs_cons s) + ?w, rn_pending := 0\<rparr>,
      rs_control := (rs_control s)\<lparr>rc_tail := rn_tail (rs_cons s) + ?w\<rparr>, rs_view := None,
      rs_received := rs_received s @ [?r], rs_tails := rs_tails s @ [rn_tail (rs_cons s) + ?w]\<rparr>"
    using Some bs by (simp add: sys_release_def RingConsumer_release_def)
  have tail: "counter_after (rs_received s) + ?w = counter_after (rs_received s @ [?r])"
    using view(2,3) by (intro counter_after_add) auto
  have lt: "length (rs_received s) < length (rs_sent s)"
    using view(1) invs(1) by (simp add: inv_counters_def)
  have pre: "prefix (rs_received s @ [?r]) (rs_sent s)"
    using invs(1) lt by (simp add: inv_counters_def prefix_snoc_nth)
  obtain rest where rest: "unread s = ?r # rest" using unread_Cons [OF lt] .
  then have rest': "unread ?t = rest"
    by (simp add: t unread_def) (metis drop_Suc list.sel(3) tl_drop drop_drop add.commute plus_1_eq_Suc)
  have "mirror_read (rs_data s) ?R ((4 + length ?r) + stream_size rest) = record_bytes ?r @ stream_of rest"
    using invs(2) rest by (simp add: inv_content_def)
  then have "mirror_read (rs_data s) (?R + (4 + length ?r)) (stream_size rest) = stream_of rest"
    by (simp only: mirror_read_add [of _ _ "4 + length ?r"]) simp
  then have content: "inv_content ?t"
    using invs(2) rest' by (simp add: inv_content_def) (simp add: t)
  have "inv_counters k ?t"
    using invs(1) tail pre view(1) by (simp add: inv_counters_def) (simp add: t counters_of_snoc)
  then have inv': "ring_inv ?t"
    using lay invs content by (intro ring_invI [of k])
      (auto simp: t inv_layout_def inv_slot_def inv_view_def split: option.splits)
  have "ring_abs ?t = (ring_abs s)\<lparr>ff_received := ff_received (ring_abs s) @ [?r], ff_view := None\<rparr>"
    by (simp add: ring_abs_def t)
  moreover have "ff_view (ring_abs s) = Some ?r" using Some bs by (simp add: ring_abs_def)
  ultimately show ?thesis using inv' by (simp add: fifo_release)
qed

lemma attach_step:
  assumes inv: "ring_inv s" and j: "length (rs_received s) \<le> j" "j \<le> length (rs_sent s)"
  shows "ring_inv (sys_attach j s) \<and> fifo_step (ring_abs s) (ring_abs (sys_attach j s))"
proof -
  from inv obtain k where lay: "inv_layout k s" by (auto simp: ring_inv_def)
  note invs = ring_inv_layout [OF inv lay]
  have "ring_inv (sys_attach j s)"
    using lay invs j by (intro ring_invI [of k])
      (simp_all add: sys_attach_def RingConsumer_new_def inv_layout_def inv_counters_def inv_content_def inv_slot_def
        inv_view_def unread_def counters_of_nth split: option.splits)
  moreover have "ring_abs (sys_attach j s) = (ring_abs s)\<lparr>ff_view := None\<rparr>"
    by (simp add: sys_attach_def ring_abs_def)
  ultimately show ?thesis by (simp add: fifo_reattach)
qed

lemma ring_step_simulates:
  "ring_step s t \<Longrightarrow> ring_inv s \<Longrightarrow> ring_inv t \<and> fifo_step (ring_abs s) (ring_abs t)"
  by (induction rule: ring_step.induct)
    (simp_all add: reserve_step write_step commit_step peek_step(1) release_step attach_step)

lemma ring_init_inv: "ring_init s \<Longrightarrow> ring_inv s"
proof -
  assume "ring_init s"
  then obtain control k pid d where k: "2 \<le> k" "k \<le> 63" "length d = 2 ^ k" and s: "s = ring_start control (2 ^ k) pid d"
    by (auto simp: ring_init_def)
  show ?thesis
    using k by (intro ring_invI [of k])
      (simp_all add: s ring_start_def initialize_ring_control_def RingProducer_new_def RingConsumer_new_def Let_def
        inv_layout_def inv_counters_def inv_content_def inv_slot_def inv_view_def unread_def counter_after_def
        counters_of_def)
qed

interpretation ring: fifo_implementation ring_init ring_step ring_inv ring_abs
proof
  fix s t
  show "ring_init s \<Longrightarrow> ring_inv s" by (rule ring_init_inv)
  show "ring_init s \<Longrightarrow> ring_abs s = fifo_start"
    by (auto simp: ring_init_def ring_start_def ring_abs_def fifo_start_def Let_def)
  show "ring_inv s \<Longrightarrow> ring_step s t \<Longrightarrow> ring_inv t" by (blast dest: ring_step_simulates)
  show "ring_inv s \<Longrightarrow> ring_step s t \<Longrightarrow> fifo_step (ring_abs s) (ring_abs t)" by (blast dest: ring_step_simulates)
qed

section \<open>Running the system\<close>

text \<open>An executable scheduler for the step relation: \<open>None\<close> if a step is not enabled.\<close>

datatype ring_event = EvReserve u64 nat | EvWrite nat u8 | EvCommit | EvPeek nat | EvRelease | EvAttach nat

fun ring_do :: "ring_event \<Rightarrow> ring_sys \<Rightarrow> ring_sys option" where
  "ring_do (EvReserve bytes i) s =
     (if rs_seen_tail s \<le> i \<and> i \<le> length (rs_received s) then Some (sys_reserve bytes i s) else None)"
| "ring_do (EvWrite i b) s =
     (case rs_slot s of None \<Rightarrow> None | Some sp \<Rightarrow> if i < sp_len sp then Some (sys_write sp i b s) else None)"
| "ring_do EvCommit s = Some (sys_commit s)"
| "ring_do (EvPeek j) s =
     (if rs_seen_head s \<le> j \<and> j \<le> length (rs_sent s) then Some (sys_peek j s) else None)"
| "ring_do EvRelease s = Some (sys_release s)"
| "ring_do (EvAttach j) s =
     (if length (rs_received s) \<le> j \<and> j \<le> length (rs_sent s) then Some (sys_attach j s) else None)"

fun ring_run :: "ring_event list \<Rightarrow> ring_sys \<Rightarrow> ring_sys option" where
  "ring_run [] s = Some s"
| "ring_run (e # es) s = (case ring_do e s of None \<Rightarrow> None | Some t \<Rightarrow> ring_run es t)"

lemma ring_do_step: "ring_do e s = Some t \<Longrightarrow> ring_step s t"
  by (cases e) (auto intro: ring_step.intros split: if_splits option.splits)

lemma ring_run_steps: "ring_run es s = Some t \<Longrightarrow> ring_step\<^sup>*\<^sup>* s t"
  by (induction es arbitrary: s)
    (auto intro: converse_rtranclp_into_rtranclp ring_do_step split: option.splits)

definition demo_start :: ring_sys where
  "demo_start = ring_start \<lparr>rc_magic = 0, rc_version = 0, rc_capacity = 0, rc_state = 0, rc_producer_pid = 0,
     rc_consumer_pid = 0, rc_head = 0, rc_tail = 0\<rparr> 8 7 (replicate 8 0)"

lemma demo_start_init: "ring_init demo_start"
proof -
  have "demo_start = ring_start \<lparr>rc_magic = 0, rc_version = 0, rc_capacity = 0, rc_state = 0, rc_producer_pid = 0,
     rc_consumer_pid = 0, rc_head = 0, rc_tail = 0\<rparr> (2 ^ 3) 7 (replicate 8 0)"
    by (simp add: demo_start_def)
  moreover have "length (replicate 8 (0 :: u8)) = 2 ^ 3" "2 \<le> (3 :: nat)" "(3 :: nat) \<le> 63" by simp_all
  ultimately show ?thesis unfolding ring_init_def by blast
qed

definition demo_events :: "ring_event list" where
  "demo_events = [EvReserve 2 0, EvWrite 1 8, EvWrite 0 7, EvCommit, EvPeek 1, EvRelease,
     EvReserve 4 1, EvWrite 3 9, EvCommit]"

text \<open>
  A run on an eight-byte ring whose second record wraps around the end of the data area and
  reuses bytes of the first.
\<close>

definition demo_end :: ring_sys where
  "demo_end = (case ring_run demo_events demo_start of Some t \<Rightarrow> t | None \<Rightarrow> demo_start)"

lemma demo_run: "ring_run demo_events demo_start \<noteq> None"
  by code_simp

lemma demo_steps: "ring_step\<^sup>*\<^sup>* demo_start demo_end"
  using demo_run by (auto simp: demo_end_def intro: ring_run_steps)

lemma demo_end_facts:
  "rs_sent demo_end = [[7, 8], [0, 0, 7, 9]]" "rs_received demo_end = [[7, 8]]" "rs_seen_head demo_end = 1"
  "rc_capacity (rs_control demo_end) = 8" "rs_slot demo_end = None" "rs_view demo_end = None"
  by code_simp+

section \<open>Helper lemmas for the properties\<close>

lemma reachable_ring_inv: "ring_init s \<Longrightarrow> ring_step\<^sup>*\<^sup>* s t \<Longrightarrow> ring_inv t"
  by (rule ring.reachable_inv)

lemma peek_delivers:
  assumes inv: "ring_inv t" and j: "rs_seen_head t \<le> j" "j \<le> length (rs_sent t)" "length (rs_received t) < j"
  shows "\<exists>c sp. RingConsumer_try_peek (rs_cons t) (rs_heads t ! j) (rs_data t) = (c, Some sp) \<and>
    span_bytes (rs_data t) sp = rs_sent t ! length (rs_received t) \<and> \<not> rn_corrupted c"
proof -
  obtain c v where peek: "RingConsumer_try_peek (rs_cons t) (rs_heads t ! j) (rs_data t) = (c, v)"
    by fastforce
  let ?u = "sys_peek j t"
  have u: "rs_cons ?u = c" "rs_view ?u = v" "rs_data ?u = rs_data t" "rs_sent ?u = rs_sent t" "rs_received ?u = rs_received t"
    by (simp_all add: sys_peek_def peek)
  have inv': "ring_inv ?u" and view: "rs_view ?u \<noteq> None"
    using peek_step [OF inv j(1,2)] j(3) by auto
  then obtain sp where sp: "v = Some sp" using u by auto
  have "\<not> rn_corrupted c" using inv' u by (auto simp: ring_inv_def inv_view_def)
  moreover have "span_bytes (rs_data t) sp = rs_sent t ! length (rs_received t)"
    using view_bytes [OF inv'] u sp by simp
  ultimately show ?thesis using peek sp by blast
qed

lemma reserve_iff_room:
  assumes inv: "ring_inv t"
  shows "snd (snd (RingProducer_try_reserve (rs_prod t) (rc_tail (rs_control t)) (rs_data t) bytes)) \<noteq> None \<longleftrightarrow>
    bytes \<le> RingProducer_max_record_size (rs_prod t) \<and>
    stream_size (unread t) + (4 + unat bytes) \<le> unat (rc_capacity (rs_control t))"
proof -
  from inv obtain k where lay: "inv_layout k t" by (auto simp: ring_inv_def)
  note invs = ring_inv_layout [OF inv lay]
  let ?n = "length (rs_received t)" and ?need = "kRecordPrefixSize + bytes"
  let ?p = "(rs_prod t)\<lparr>rp_cached_tail := rc_tail (rs_control t)\<rparr>"
  have cap: "unat (rc_capacity (rs_control t)) = 2 ^ k" using lay by (simp add: inv_layout_def unat_two_power)
  have "rs_seen_tail t \<le> ?n" using invs(1) by (simp add: inv_counters_def)
  note fresh = refresh_inv [OF inv this order_refl]
  let ?t = "t\<lparr>rs_prod := ?p, rs_seen_tail := ?n\<rparr>"
  have t: "ring_inv ?t" "inv_layout k ?t"
    using fresh invs(1) lay by (simp_all add: inv_counters_def inv_layout_def)
  have small: "unat ?need = 4 + unat bytes" if "bytes \<le> RingProducer_max_record_size (rs_prod t)"
    using bytes_in_range [OF lay that] by (simp add: unat_prefix_add)
  have old: "lacks_room (rs_prod t) ?need \<longleftrightarrow>
      stream_size (take (rs_seen_tail t) (rs_received t)) + 2 ^ k < stream_size (rs_sent t) + unat ?need"
    by (rule lacks_room_inv [OF lay invs(1)])
  have new: "lacks_room ?p ?need \<longleftrightarrow> stream_size (rs_received t) + 2 ^ k < stream_size (rs_sent t) + unat ?need"
    using lacks_room_inv [OF t(2) ring_inv_layout(1) [OF t], of ?need] by simp
  show ?thesis
    using old new small sizes [OF invs(1)] unfolding cap
    by (auto simp: RingProducer_try_reserve_def reserve_at_head_def Let_def not_less)
qed

lemma used_bytes:
  assumes inv: "ring_inv t"
  shows "unat (RingProducer_used (rs_prod t) (rc_tail (rs_control t))) = stream_size (unread t)"
    and "unat (RingConsumer_used (rs_cons t) (rc_head (rs_control t))) = stream_size (unread t)"
    and "stream_size (unread t) \<le> unat (rc_capacity (rs_control t))"
proof -
  from inv obtain k where lay: "inv_layout k t" by (auto simp: ring_inv_def)
  note invs = ring_inv_layout [OF inv lay]
  have k: "k \<le> 63" using lay by (simp add: inv_layout_def)
  show le: "stream_size (unread t) \<le> unat (rc_capacity (rs_control t))"
    using sizes [OF invs(1)] invs(1) lay by (auto simp: inv_counters_def inv_layout_def unat_two_power)
  have "stream_size (rs_sent t) - stream_size (rs_received t) < 2 ^ 64"
    using sizes(3) [OF invs(1)] le lay power_below_u64 [OF k] by (simp add: inv_layout_def unat_two_power)
  then have "unat (counter_after (rs_sent t) - counter_after (rs_received t)) = stream_size (unread t)"
    using sizes [OF invs(1)] by (subst counter_diff) auto
  then show "unat (RingProducer_used (rs_prod t) (rc_tail (rs_control t))) = stream_size (unread t)"
    "unat (RingConsumer_used (rs_cons t) (rc_head (rs_control t))) = stream_size (unread t)"
    using invs(1) by (simp_all add: RingProducer_used_def RingConsumer_used_def inv_counters_def)
qed

lemma power_of_two_iff:
  fixes x :: u64
  shows "x \<noteq> 0 \<and> x AND (x - 1) = 0 \<longleftrightarrow> (\<exists>k < 64. x = 2 ^ k)"
proof
  assume x: "x \<noteq> 0 \<and> x AND (x - 1) = 0"
  then have "0 < unat x" by (simp add: unat_gt_0)
  then obtain k where k: "2 ^ k \<le> unat x" "unat x < 2 ^ (Suc k)"
    using ex_power_ivl1 [of 2 "unat x"] by auto
  have bit: "bit w k" if "2 ^ k \<le> unat w" "unat w < 2 ^ Suc k" for w :: u64
  proof -
    have "unat w div 2 ^ k = 1" using that by (intro div_nat_eqI) auto
    then have "bit (unat w) k" by (simp add: bit_iff_odd)
    then show ?thesis by (simp add: bit_unsigned_iff)
  qed
  have "unat x = 2 ^ k"
  proof (rule ccontr)
    assume "unat x \<noteq> 2 ^ k"
    with k have "2 ^ k \<le> unat (x - 1)" "unat (x - 1) < 2 ^ Suc k"
      using \<open>0 < unat x\<close> by (auto simp: unat_sub_small)
    then have "bit (x AND (x - 1)) k" using bit k by (simp add: bit_and_iff)
    with x show False by simp
  qed
  moreover have "k < 64"
  proof (rule ccontr)
    assume "\<not> k < 64"
    then have "(2 :: nat) ^ 64 \<le> 2 ^ k" by (intro power_increasing) simp_all
    moreover have "unat x < 2 ^ LENGTH(64)" by (rule unsigned_less)
    ultimately show False using k(1) by simp
  qed
  moreover have "x = of_nat (unat x)" by simp
  ultimately show "\<exists>k < 64. x = 2 ^ k"
    by (metis of_nat_numeral of_nat_power)
next
  assume "\<exists>k < 64. x = 2 ^ k"
  then obtain k where k: "k < 64" "x = 2 ^ k" by blast
  have "x AND (x - 1) = 0"
    unfolding k(2) by (rule bit_word_eqI) (auto simp: bit_simps simp flip: mask_eq_exp_minus_1)
  moreover have "x \<noteq> 0" using k by simp
  ultimately show "x \<noteq> 0 \<and> x AND (x - 1) = 0" by blast
qed


lemma spans_in_bounds:
  assumes inv: "ring_inv t" and sp: "rs_slot t = Some sp \<or> rs_view t = Some sp"
  shows "sp_off sp + sp_len sp \<le> 2 * length (rs_data t)"
proof -
  from inv obtain k where lay: "inv_layout k t" by (auto simp: ring_inv_def)
  note invs = ring_inv_layout [OF inv lay]
  have len: "length (rs_data t) = 2 ^ k" using lay by (simp add: inv_layout_def)
  then have wrap: "n mod length (rs_data t) < length (rs_data t)" for n by simp
  consider "rs_slot t = Some sp" | "rs_view t = Some sp" using sp by blast
  then have "\<exists>n. sp_off sp = n mod length (rs_data t) + 4 \<and> 4 + sp_len sp \<le> length (rs_data t)"
  proof cases
    case 1
    then show ?thesis
      using invs(1,3) sizes [OF invs(1)] len by (auto simp: inv_slot_def inv_counters_def)
  next
    case 2
    then have view: "length (rs_received t) < length (rs_sent t)" "sp_len sp = length (rs_sent t ! length (rs_received t))"
      "sp_off sp = stream_size (rs_received t) mod length (rs_data t) + 4"
      using invs(1,4) by (auto simp: inv_view_def inv_counters_def)
    obtain rest where "unread t = rs_sent t ! length (rs_received t) # rest" using unread_Cons [OF view(1)] .
    then have "4 + sp_len sp \<le> stream_size (unread t)" using view(2) by simp
    then show ?thesis using view(3) used_bytes(3) [OF inv] lay len by (auto simp: inv_layout_def unat_two_power)
  qed
  then obtain n where "sp_off sp = n mod length (rs_data t) + 4" "4 + sp_len sp \<le> length (rs_data t)" by blast
  then show ?thesis using wrap [of n] by linarith
qed

lemma slot_disjoint_from_unread:
  assumes inv: "ring_inv t" and sp: "rs_slot t = Some sp" and "i < sp_len sp" "j < stream_size (unread t)"
  shows "(sp_off sp + i) mod length (rs_data t) \<noteq> (stream_size (rs_received t) + j) mod length (rs_data t)"
proof -
  from inv obtain k where lay: "inv_layout k t" by (auto simp: ring_inv_def)
  note invs = ring_inv_layout [OF inv lay]
  let ?S = "stream_size (rs_sent t)" and ?L = "length (rs_data t)"
  have "sp_off sp = ?S mod ?L + 4" and room: "?S + (4 + sp_len sp) \<le> stream_size (rs_received t) + ?L"
    using invs(1,3) sp sizes [OF invs(1)] lay by (auto simp: inv_slot_def inv_counters_def inv_layout_def)
  then have "(sp_off sp + i) mod ?L = (?S + (4 + i)) mod ?L"
    by (simp add: mod_add_left_eq add.assoc)
  moreover have "(stream_size (rs_received t) + j) mod ?L \<noteq> (?S + (4 + i)) mod ?L"
    using assms(3,4) room sizes(3) [OF invs(1)] by (intro mod_window_neq) auto
  ultimately show ?thesis by metis
qed

text \<open>
  The consumer's own consistency, which does not depend on what the shared memory holds.
\<close>

definition consumer_wf :: "nat \<Rightarrow> RingConsumer \<Rightarrow> bool" where
  "consumer_wf k c \<longleftrightarrow> k \<le> 63 \<and> rn_capacity c = 2 ^ k \<and> rn_mask c = 2 ^ k - 1 \<and>
     (rn_pending c = 0 \<or> 4 \<le> unat (rn_pending c) \<and> unat (rn_pending c) \<le> 2 ^ k)"

lemma peek_record_safe:
  assumes wf: "consumer_wf k c" and res: "peek_record c d = (c', v)"
  shows "consumer_wf k c' \<and> (\<forall>sp. v = Some sp \<longrightarrow> sp_off sp + sp_len sp \<le> 2 * 2 ^ k)"
proof -
  let ?len = "load_le (mirror_read d (unat (rn_tail c AND rn_mask c)) 4) :: u32"
  let ?size = "kRecordPrefixSize + ucast ?len :: u64"
  have "unat ?len < 2 ^ LENGTH(32)" by (rule unsigned_less)
  then have usize: "unat ?size = 4 + unat ?len" by (subst unat_prefix_add) simp_all
  have off: "unat (rn_tail c AND rn_mask c) < 2 ^ k"
    using wf by (simp add: consumer_wf_def unat_and_mask)
  show ?thesis
  proof (cases "rn_cached_head c - rn_tail c < ?size \<or> rn_capacity c < ?size")
    case True
    then show ?thesis using res wf by (auto simp: peek_record_def Let_def consumer_wf_def)
  next
    case False
    then have "4 + unat ?len \<le> 2 ^ k"
      using usize wf by (simp add: word_less_nat_alt not_less consumer_wf_def unat_two_power)
    then show ?thesis
      using res wf usize off False by (auto simp: peek_record_def Let_def consumer_wf_def kRecordPrefixSize_def)
  qed
qed

lemma try_peek_safe:
  assumes wf: "consumer_wf k c" and res: "RingConsumer_try_peek c head_load d = (c', v)"
  shows "consumer_wf k c' \<and> (\<forall>sp. v = Some sp \<longrightarrow> sp_off sp + sp_len sp \<le> 2 * 2 ^ k)"
proof -
  have wf': "consumer_wf k (c\<lparr>rn_cached_head := head_load\<rparr>)" using wf by (simp add: consumer_wf_def)
  have off: "unat (rn_tail c AND rn_mask c) < 2 ^ k"
    using wf by (simp add: consumer_wf_def unat_and_mask)
  consider "rn_corrupted c" | "\<not> rn_corrupted c" "rn_pending c \<noteq> 0" | "\<not> rn_corrupted c" "rn_pending c = 0" by blast
  then show ?thesis
  proof cases
    case 2
    then have "4 \<le> unat (rn_pending c)" "unat (rn_pending c) \<le> 2 ^ k" using wf by (auto simp: consumer_wf_def)
    then show ?thesis
      using 2 res wf off by (auto simp: RingConsumer_try_peek_def kRecordPrefixSize_def unat_sub_small)
  next
    case 3
    then show ?thesis
      using res wf wf' peek_record_safe [OF wf] peek_record_safe [OF wf']
      by (auto simp: RingConsumer_try_peek_def Let_def split: if_splits)
  qed (use res wf in \<open>auto simp: RingConsumer_try_peek_def\<close>)
qed

section \<open>Properties\<close>

text \<open>
  C2: Refinement. From a freshly initialised ring of any power-of-two capacity of at least four
  bytes, under every interleaving of producer operations, single-byte writes into the reserved
  slot, consumer operations and consumer replacements, and with every counter load allowed to
  return any value stored since the one last seen, each step of the shared-memory ring is a step
  of the first-in first-out contract.
\<close>

theorem ring_refines_fifo:
  assumes "ring_init s" "ring_step\<^sup>*\<^sup>* s t" "ring_step t u"
  shows "fifo_step (ring_abs t) (ring_abs u)"
  using ring.reachable_inv [OF assms(1,2)] assms(3) by (rule ring.step_abs)

theorem ring_refines_fifo_witness:
  "fifo_step (ring_abs demo_end) (ring_abs (sys_peek 2 demo_end))"
  by (rule ring_refines_fifo [OF demo_start_init demo_steps step_peek]) (simp_all add: demo_end_facts)

text \<open>
  C1: No packet is lost, duplicated, reordered or altered. In every reachable state the released
  records are a prefix of the published ones, the consumer has not flagged corruption, and
  while the consumer holds a view its bytes are exactly the oldest unreleased published record.
\<close>

theorem ring_delivers_in_order:
  assumes "ring_init s" "ring_step\<^sup>*\<^sup>* s t"
  shows "prefix (rs_received t) (rs_sent t) \<and> \<not> rn_corrupted (rs_cons t) \<and>
    (\<forall>sp. rs_view t = Some sp \<longrightarrow> length (rs_received t) < length (rs_sent t) \<and>
       span_bytes (rs_data t) sp = rs_sent t ! length (rs_received t))"
proof -
  have "ring_inv t" by (rule ring.reachable_inv [OF assms])
  then have "\<not> rn_corrupted (rs_cons t)" by (auto simp: ring_inv_def inv_view_def)
  then show ?thesis
    using ring.delivered_in_order [OF assms] ring.view_is_next [OF assms] by (auto simp: ring_abs_def)
qed

theorem ring_delivers_in_order_witness:
  "rs_received demo_end = [[7, 8]] \<and> rs_sent demo_end = [[7, 8], [0, 0, 7, 9]] \<and>
   prefix (rs_received demo_end) (rs_sent demo_end) \<and> \<not> rn_corrupted (rs_cons demo_end)"
  using ring_delivers_in_order [OF demo_start_init demo_steps] by (simp add: demo_end_facts)

text \<open>
  A published record is received. In every reachable state, if the head value the consumer
  observes covers a record it has not released yet, \<^verbatim>\<open>try_peek\<close> succeeds and the span it
  returns shows exactly the bytes of the oldest such record.
\<close>

lemma ring_peek_returns_next_record:
  assumes "ring_init s" "ring_step\<^sup>*\<^sup>* s t"
    and "rs_seen_head t \<le> j" "j \<le> length (rs_sent t)" "length (rs_received t) < j"
  shows "\<exists>c sp. RingConsumer_try_peek (rs_cons t) (rs_heads t ! j) (rs_data t) = (c, Some sp) \<and>
    span_bytes (rs_data t) sp = rs_sent t ! length (rs_received t) \<and> \<not> rn_corrupted c"
  by (rule peek_delivers [OF ring.reachable_inv [OF assms(1,2)] assms(3-5)])

text \<open>
  Reserving is exact. In every reachable state \<^verbatim>\<open>try_reserve(n)\<close> with an up-to-date tail
  succeeds if and only if \<open>n\<close> is within \<^verbatim>\<open>max_record_size()\<close> and the record with its
  four-byte prefix fits beside the bytes of the records not yet released.
\<close>

lemma ring_reserve_iff_room:
  assumes "ring_init s" "ring_step\<^sup>*\<^sup>* s t"
  shows "snd (snd (RingProducer_try_reserve (rs_prod t) (rc_tail (rs_control t)) (rs_data t) bytes)) \<noteq> None \<longleftrightarrow>
    bytes \<le> RingProducer_max_record_size (rs_prod t) \<and>
    stream_size (unread t) + (4 + unat bytes) \<le> unat (rc_capacity (rs_control t))"
  by (rule reserve_iff_room [OF ring.reachable_inv [OF assms]])

text \<open>
  Fill level. In every reachable state both ends compute the same number of used bytes, it is
  the size of the unreleased records with their prefixes, and it never exceeds the capacity.
\<close>

lemma ring_used_bytes:
  assumes "ring_init s" "ring_step\<^sup>*\<^sup>* s t"
  shows "unat (RingProducer_used (rs_prod t) (rc_tail (rs_control t))) = stream_size (unread t) \<and>
    unat (RingConsumer_used (rs_cons t) (rc_head (rs_control t))) = stream_size (unread t) \<and>
    stream_size (unread t) \<le> unat (rc_capacity (rs_control t))"
  using used_bytes [OF ring.reachable_inv [OF assms]] by blast

text \<open>
  C17: Memory accesses. In every reachable state the reserved slot and the peeked view lie inside
  the doubly mapped data area, and no byte of the slot is physically a byte of a record that has
  not been released yet.
\<close>

theorem ring_spans_safe:
  assumes "ring_init s" "ring_step\<^sup>*\<^sup>* s t"
  shows "(\<forall>sp. rs_slot t = Some sp \<or> rs_view t = Some sp \<longrightarrow> sp_off sp + sp_len sp \<le> 2 * length (rs_data t)) \<and>
    (\<forall>sp i j. rs_slot t = Some sp \<longrightarrow> i < sp_len sp \<longrightarrow> j < stream_size (unread t) \<longrightarrow>
       (sp_off sp + i) mod length (rs_data t) \<noteq> (stream_size (rs_received t) + j) mod length (rs_data t))"
  using spans_in_bounds slot_disjoint_from_unread ring.reachable_inv [OF assms] by blast

theorem ring_spans_safe_witness:
  "\<exists>sp. rs_view (sys_peek 2 demo_end) = Some sp \<and> sp_off sp + sp_len sp \<le> 2 * length (rs_data (sys_peek 2 demo_end))"
proof -
  have "ring_step demo_end (sys_peek 2 demo_end)"
    by (rule step_peek) (simp_all add: demo_end_facts)
  with demo_steps have steps: "ring_step\<^sup>*\<^sup>* demo_start (sys_peek 2 demo_end)" by simp
  have "rs_view (sys_peek 2 demo_end) \<noteq> None" by code_simp
  then obtain sp where "rs_view (sys_peek 2 demo_end) = Some sp" by blast
  with ring_spans_safe [OF demo_start_init steps] show ?thesis by blast
qed

text \<open>
  C18: A damaged or hostile ring cannot drive the consumer out of bounds. Whatever the shared
  head, the length prefix and the data bytes are, \<^verbatim>\<open>try_peek\<close> on a consistent consumer of a
  \<open>2^k\<close>-byte ring leaves it consistent and returns only spans inside the doubly mapped area.
\<close>

theorem consumer_memory_safe:
  assumes "consumer_wf k c" "RingConsumer_try_peek c head_load d = (c', v)"
  shows "consumer_wf k c' \<and> (\<forall>sp. v = Some sp \<longrightarrow> sp_off sp + sp_len sp \<le> 2 * 2 ^ k)"
  by (rule try_peek_safe [OF assms])

theorem consumer_memory_safe_witness:
  "\<exists>c. consumer_wf 3 c \<and> fst (RingConsumer_try_peek c 100 (replicate 8 0xFF)) = c\<lparr>rn_cached_head := 100, rn_corrupted := True\<rparr> \<and>
     consumer_wf 3 (fst (RingConsumer_try_peek c 100 (replicate 8 0xFF)))"
proof -
  let ?c = "\<lparr>rn_capacity = 8, rn_mask = 7, rn_tail = 0, rn_cached_head = 0, rn_pending = 0, rn_corrupted = False\<rparr>"
  have wf: "consumer_wf 3 ?c" by (simp add: consumer_wf_def)
  have res: "RingConsumer_try_peek ?c 100 (replicate 8 0xFF)
      = (?c\<lparr>rn_cached_head := 100, rn_corrupted := True\<rparr>, None)"
    by code_simp
  from consumer_memory_safe [OF wf res] wf res show ?thesis
    by (metis fst_conv)
qed

text \<open>
  A control block is accepted as ready exactly when the producer published it with a
  power-of-two capacity: initialising a block makes it ready if and only if the capacity is
  \<open>2^k\<close> for some \<open>k < 64\<close>.
\<close>

lemma initialized_ring_ready_iff:
  "ring_control_ready (initialize_ring_control control capacity pid) \<longleftrightarrow> (\<exists>k < 64. capacity = 2 ^ k)"
  using power_of_two_iff [of capacity]
  by (simp add: ring_control_ready_def initialize_ring_control_def RingState_Ready_def)

end
