(* ===== verification/Waiting.thy ===== *)
theory Waiting
  imports Pc_Prelude
begin

text \<open>
  Waiting: the progressive back-off (\<^verbatim>\<open>common/include/pc/backoff.hpp\<close>), the timed retry loop
  \<^verbatim>\<open>wait_until\<close> of \<^verbatim>\<open>common/src/shm_transport.cpp\<close>, and the rate limiter
  (\<^verbatim>\<open>producer/rate_limiter.cpp\<close>). A loop turn's inputs (the stop token, the clock, what the
  other process does meanwhile) are given as a list; running out of turns is None, so the
  theorems that a loop returns show that it does for every long enough list. Clock values are
  nanoseconds.
\<close>

section \<open>Backoff\<close>

definition kSpinSteps :: u32 where
  "kSpinSteps = 64"

definition kYieldSteps :: u32 where
  "kYieldSteps = 16"

definition kMaxSleep_us :: nat where
  "kMaxSleep_us = 1000"

datatype wait_action = CpuRelax | ThreadYield | SleepUs nat

type_synonym Backoff = u32

definition Backoff_new :: Backoff where
  "Backoff_new = 0"

definition backoff_delay :: "Backoff \<Rightarrow> nat" where
  "backoff_delay step =
     (let exponent = step - kSpinSteps - kYieldSteps;
          delay = 50 * 2 ^ unat (if exponent < 5 then exponent else 4)
      in if kMaxSleep_us < delay then kMaxSleep_us else delay)"

definition Backoff_wait :: "Backoff \<Rightarrow> Backoff \<times> wait_action" where
  "Backoff_wait step =
     (let act = (if step < kSpinSteps then CpuRelax
                 else if step < kSpinSteps + kYieldSteps then ThreadYield
                 else SleepUs (backoff_delay step))
      in (if step < kSpinSteps + kYieldSteps + 8 then step + 1 else step, act))"

definition Backoff_sleeping :: "Backoff \<Rightarrow> bool" where
  "Backoff_sleeping step \<longleftrightarrow> kSpinSteps + kYieldSteps \<le> step"

definition Backoff_reset :: "Backoff \<Rightarrow> Backoff" where
  "Backoff_reset step = 0"

lemma backoff_after: "unat (((\<lambda>b. fst (Backoff_wait b)) ^^ n) Backoff_new) = min n 88"
proof (induction n)
  case 0
  show ?case by (simp add: Backoff_new_def)
next
  case (Suc n)
  define b where "b = ((\<lambda>b. fst (Backoff_wait b)) ^^ n) Backoff_new"
  have b: "unat b = min n 88" using Suc by (simp add: b_def)
  have "unat (fst (Backoff_wait b)) = (if unat b < 88 then unat b + 1 else unat b)"
  proof -
    have "b < 88 \<longleftrightarrow> unat b < 88" by (simp add: word_less_nat_alt)
    moreover have "unat b + 1 < 2 ^ 32 \<Longrightarrow> unat (b + 1) = unat b + 1" by (simp add: unat_add_small)
    ultimately show ?thesis by (simp add: Backoff_wait_def kSpinSteps_def kYieldSteps_def b)
  qed
  then show ?case by (simp add: b flip: b_def)
qed

lemma backoff_sleeping_iff: "Backoff_sleeping b \<longleftrightarrow> 80 \<le> unat b"
  by (simp add: Backoff_sleeping_def kSpinSteps_def kYieldSteps_def word_le_nat_alt)

section \<open>wait\_until\<close>

text \<open>
  One turn of the loop: the stop token, what the rest of the world does to the state while this
  thread waits, and the clock read at the end of the turn.
\<close>

record 's wait_turn =
  wt_stop :: bool
  wt_world :: "'s \<Rightarrow> 's"
  wt_clock :: int

fun wait_loop :: "('s \<Rightarrow> 's \<times> 'a option) \<Rightarrow> int \<Rightarrow> Backoff \<Rightarrow> 's wait_turn list \<Rightarrow> 's \<Rightarrow> ('s \<times> 'a option) option" where
  "wait_loop attempt deadline backoff [] s = None"
| "wait_loop attempt deadline backoff (t # ts) s =
     (if wt_stop t then Some (s, None)
      else
        let backoff = fst (Backoff_wait backoff);
            (s, res) = attempt (wt_world t s)
        in case res of
             Some x \<Rightarrow> Some (s, Some x)
           | None \<Rightarrow> if Backoff_sleeping backoff \<and> deadline \<le> wt_clock t then Some (s, None)
                     else wait_loop attempt deadline backoff ts s)"

definition wait_until :: "('s \<Rightarrow> 's \<times> 'a option) \<Rightarrow> int \<Rightarrow> int \<Rightarrow> 's wait_turn list \<Rightarrow> 's \<Rightarrow> ('s \<times> 'a option) option" where
  "wait_until attempt timeout_ms now turns s =
     (let (s, res) = attempt s
      in case res of
           Some x \<Rightarrow> Some (s, Some x)
         | None \<Rightarrow> if timeout_ms \<le> 0 then Some (s, None)
                   else wait_loop attempt (now + 1000000 * timeout_ms) Backoff_new turns s)"

text \<open>The loop returns as soon as the clock reaches the deadline after the first 80 turns.\<close>

lemma wait_loop_returns:
  assumes "k < length turns" "deadline \<le> wt_clock (turns ! k)" "79 \<le> n + k"
  shows "\<exists>out. wait_loop attempt deadline (((\<lambda>b. fst (Backoff_wait b)) ^^ n) Backoff_new) turns s = Some out"
  using assms
proof (induction turns arbitrary: n k s)
  case (Cons t ts)
  define b where "b = ((\<lambda>b. fst (Backoff_wait b)) ^^ Suc n) Backoff_new"
  obtain s' r where a: "attempt (wt_world t s) = (s', r)" by fastforce
  show ?case
  proof (cases k)
    case 0
    then have "Backoff_sleeping b" unfolding backoff_sleeping_iff b_def backoff_after using Cons.prems(3) by simp
    then show ?thesis using 0 Cons.prems a by (cases r) (simp_all add: b_def)
  next
    case (Suc k')
    have "\<exists>out. wait_loop attempt deadline b ts s' = Some out"
      unfolding b_def by (rule Cons.IH [of k']) (use Cons.prems Suc in auto)
    then show ?thesis using a by (cases r) (auto simp: b_def Let_def)
  qed
qed simp

text \<open>A failed wait was stopped or reached the deadline.\<close>

lemma wait_loop_failure:
  assumes "wait_loop attempt deadline b turns s = Some (s', None)"
  shows "\<exists>t \<in> set turns. wt_stop t \<or> deadline \<le> wt_clock t"
  using assms
proof (induction turns arbitrary: b s)
  case (Cons t ts)
  then show ?case by (auto simp: Let_def split_beta split: if_splits option.splits)
qed simp

text \<open>Whatever the turns, a wait is a sequence of attempts and steps of the world.\<close>

locale waiting =
  fixes attempt :: "'s \<Rightarrow> 's \<times> 'a option"
    and step :: "'s \<Rightarrow> 's \<Rightarrow> bool"
    and good :: "'s \<Rightarrow> bool"
    and ensures :: "'s \<Rightarrow> 'a \<Rightarrow> bool"
  assumes attempt_step: "good s \<Longrightarrow> step\<^sup>*\<^sup>* s (fst (attempt s))"
    and attempt_ensures: "good s \<Longrightarrow> snd (attempt s) = Some x \<Longrightarrow> ensures (fst (attempt s)) x"
    and step_good: "good s \<Longrightarrow> step s t \<Longrightarrow> good t"
begin

lemma steps_good: "step\<^sup>*\<^sup>* s t \<Longrightarrow> good s \<Longrightarrow> good t"
  by (induction rule: rtranclp_induct) (auto intro: step_good)

lemma wait_loop_steps:
  assumes "wait_loop attempt deadline b turns s = Some (s', r)" "good s"
    and "\<And>t s. t \<in> set turns \<Longrightarrow> good s \<Longrightarrow> step\<^sup>*\<^sup>* s (wt_world t s)"
  shows "step\<^sup>*\<^sup>* s s' \<and> (\<forall>x. r = Some x \<longrightarrow> ensures s' x)"
  using assms
proof (induction turns arbitrary: b s)
  case (Cons t ts)
  let ?w = "wt_world t s"
  have w: "step\<^sup>*\<^sup>* s ?w" using Cons.prems(2) by (intro Cons.prems(3)) simp
  have gw: "good ?w" by (rule steps_good [OF w Cons.prems(2)])
  note u = attempt_step [OF gw]
  have su: "step\<^sup>*\<^sup>* s (fst (attempt ?w))" using w u by (rule rtranclp_trans)
  show ?case
  proof (cases "wt_stop t")
    case True
    then show ?thesis using Cons.prems(1) by simp
  next
    case False
    show ?thesis
    proof (cases "snd (attempt ?w)")
      case (Some x)
      then have "s' = fst (attempt ?w)" "r = Some x"
        using Cons.prems(1) False by (simp_all add: split_beta)
      then show ?thesis using su attempt_ensures [OF gw Some] by simp
    next
      case None
      have res: "(if Backoff_sleeping (fst (Backoff_wait b)) \<and> deadline \<le> wt_clock t then Some (fst (attempt ?w), None)
          else wait_loop attempt deadline (fst (Backoff_wait b)) ts (fst (attempt ?w))) = Some (s', r)"
        using Cons.prems(1) False None by (simp add: split_beta Let_def)
      show ?thesis
      proof (cases "Backoff_sleeping (fst (Backoff_wait b)) \<and> deadline \<le> wt_clock t")
        case True
        then show ?thesis using res su by simp
      next
        case False
        then have *: "wait_loop attempt deadline (fst (Backoff_wait b)) ts (fst (attempt ?w)) = Some (s', r)"
          using res by (simp only: if_False)
        have "step\<^sup>*\<^sup>* (fst (attempt ?w)) s' \<and> (\<forall>x. r = Some x \<longrightarrow> ensures s' x)"
          by (rule Cons.IH [OF * steps_good [OF u gw]]) (rule Cons.prems(3), simp_all)
        with rtranclp_trans [OF su] show ?thesis by blast
      qed
    qed
  qed
qed simp

lemma wait_until_steps:
  assumes "wait_until attempt timeout now turns s = Some (s', r)" "good s"
    and "\<And>t s. t \<in> set turns \<Longrightarrow> good s \<Longrightarrow> step\<^sup>*\<^sup>* s (wt_world t s)"
  shows "step\<^sup>*\<^sup>* s s' \<and> (\<forall>x. r = Some x \<longrightarrow> ensures s' x)"
proof (cases "snd (attempt s)")
  case (Some x)
  then have "s' = fst (attempt s)" "r = Some x"
    using assms(1) by (simp_all add: wait_until_def split_beta)
  then show ?thesis using attempt_step [OF assms(2)] attempt_ensures [OF assms(2) Some] by simp
next
  case None
  note u = attempt_step [OF assms(2)]
  have res: "(if timeout \<le> 0 then Some (fst (attempt s), None)
      else wait_loop attempt (now + 1000000 * timeout) Backoff_new turns (fst (attempt s))) = Some (s', r)"
    using assms(1) None by (simp add: wait_until_def split_beta)
  show ?thesis
  proof (cases "timeout \<le> 0")
    case True
    then show ?thesis using res u by simp
  next
    case False
    then have "wait_loop attempt (now + 1000000 * timeout) Backoff_new turns (fst (attempt s)) = Some (s', r)"
      using res by (simp only: if_False)
    from wait_loop_steps [OF this steps_good [OF u assms(2)] assms(3)] rtranclp_trans [OF u]
    show ?thesis by blast
  qed
qed

end

text \<open>The result of a wait is that of its last attempt, in a state that an invariant of the attempts and the world satisfies.\<close>

lemma wait_loop_attempt:
  assumes "wait_loop attempt deadline b turns s = Some (s', r)" "\<exists>u. good u \<and> attempt u = (s, None)"
    and "\<And>s. good s \<Longrightarrow> good (fst (attempt s))" "\<And>w s. w \<in> set turns \<Longrightarrow> good s \<Longrightarrow> good (wt_world w s)"
  shows "\<exists>u. good u \<and> attempt u = (s', r)"
  using assms
proof (induction turns arbitrary: b s)
  case (Cons w turns)
  obtain s1 r1 where a: "attempt (wt_world w s) = (s1, r1)" by fastforce
  have "good s" using Cons.prems(2,3) by (metis fst_conv)
  then have w: "good (wt_world w s)" using Cons.prems(4) by simp
  have IH: "\<exists>u. good u \<and> attempt u = (s', r)" if "wait_loop attempt deadline b' turns s1 = Some (s', r)" "r1 = None" for b'
    using Cons.IH [OF that(1)] Cons.prems(3,4) w a that(2) by auto
  show ?case using Cons.prems(1,2) w a IH by (auto simp: Let_def split: if_splits option.splits)
qed simp

lemma wait_until_attempt:
  assumes "wait_until attempt timeout_ms now turns s = Some (s', r)" "good s"
    and "\<And>s. good s \<Longrightarrow> good (fst (attempt s))" "\<And>w s. w \<in> set turns \<Longrightarrow> good s \<Longrightarrow> good (wt_world w s)"
  shows "\<exists>u. good u \<and> attempt u = (s', r)"
proof -
  obtain s1 r1 where a: "attempt s = (s1, r1)" by fastforce
  show ?thesis
  proof (cases "r1 = None \<and> 0 < timeout_ms")
    case True
    then have "wait_loop attempt (now + 1000000 * timeout_ms) Backoff_new turns s1 = Some (s', r)"
      using assms(1) a by (simp add: wait_until_def)
    then show ?thesis by (rule wait_loop_attempt) (use assms a True in auto)
  next
    case False
    then show ?thesis using assms(1,2) a by (auto simp: wait_until_def split: option.splits if_splits)
  qed
qed

section \<open>The rate limiter\<close>

text \<open>
  The interval in nanoseconds is computed by the constructor from a floating-point rate, see
  \<^verbatim>\<open>Rates\<close>; \<open>cast_interval\<close> is the result of that \<^verbatim>\<open>duration_cast\<close> for a positive rate, None for a
  rate that is not positive.
\<close>

record RateLimiter =
  rl_interval :: int
  rl_next :: int

definition RateLimiter_new :: "int option \<Rightarrow> int \<Rightarrow> RateLimiter" where
  "RateLimiter_new cast_interval now =
     \<lparr>rl_interval = (case cast_interval of None \<Rightarrow> 0 | Some i \<Rightarrow> if i = 0 then 1 else i), rl_next = now\<rparr>"

definition RateLimiter_enabled :: "RateLimiter \<Rightarrow> bool" where
  "RateLimiter_enabled l \<longleftrightarrow> 0 < rl_interval l"

definition kSpinThreshold :: int where
  "kSpinThreshold = 200000"

definition kMaxSleep :: int where
  "kMaxSleep = 20000000"

datatype pace_action = PaceSleep int | PaceRelax

definition pace_action_for :: "int \<Rightarrow> pace_action" where
  "pace_action_for remaining =
     (if kSpinThreshold < remaining
      then let nap = remaining - kSpinThreshold div 2 in PaceSleep (if nap < kMaxSleep then nap else kMaxSleep)
      else PaceRelax)"

text \<open>
  The waiting loop: each turn gives the stop token read by the loop condition and the clock read
  after the nap. The result is the last clock value and the naps taken.
\<close>

fun slot_loop :: "int \<Rightarrow> int \<Rightarrow> (bool \<times> int) list \<Rightarrow> (int \<times> pace_action list) option" where
  "slot_loop next_slot now [] = (if now < next_slot then None else Some (now, []))"
| "slot_loop next_slot now ((stop, now') # turns) =
     (if now < next_slot \<and> \<not> stop
      then map_option (\<lambda>(t, naps). (t, pace_action_for (next_slot - now) # naps)) (slot_loop next_slot now' turns)
      else Some (now, []))"

definition wait_for_slot :: "RateLimiter \<Rightarrow> int \<Rightarrow> (bool \<times> int) list \<Rightarrow> (RateLimiter \<times> int \<times> pace_action list) option" where
  "wait_for_slot l now turns =
     (if \<not> RateLimiter_enabled l then Some (l, now, [])
      else map_option (\<lambda>(t, naps).
        (l\<lparr>rl_next := (if t - rl_next l < rl_interval l then rl_next l + rl_interval l else t + rl_interval l)\<rparr>, t, naps))
        (slot_loop (rl_next l) now turns))"

lemma slot_loop_on_time:
  "slot_loop nx now turns = Some (t, naps) \<Longrightarrow> \<forall>(stop, c) \<in> set turns. \<not> stop \<Longrightarrow> nx \<le> t"
proof (induction turns arbitrary: now naps)
  case (Cons turn turns)
  obtain stop c where turn: "turn = (stop, c)" by (cases turn)
  show ?case
    using Cons.prems Cons.IH [of c] by (auto simp: turn split: if_splits)
qed (auto split: if_splits)

lemma slot_loop_returns:
  assumes "i < length turns" "nx \<le> snd (turns ! i)"
  shows "\<exists>out. slot_loop nx now turns = Some out"
  using assms
proof (induction turns arbitrary: now i)
  case (Cons turn turns)
  obtain stop c where turn: "turn = (stop, c)" by (cases turn)
  have "\<exists>out. slot_loop nx c turns = Some out"
  proof (cases i)
    case 0
    then show ?thesis using Cons.prems turn by (cases turns) (auto split: prod.splits)
  next
    case (Suc j)
    then show ?thesis using Cons.prems by (intro Cons.IH [of j]) auto
  qed
  then show ?case by (auto simp: turn)
qed simp

text \<open>Slots granted one after the other, each call with its own clock readings.\<close>

fun grant_times :: "RateLimiter \<Rightarrow> (int \<times> (bool \<times> int) list) list \<Rightarrow> int list option" where
  "grant_times l [] = Some []"
| "grant_times l ((now, turns) # calls) =
     (case wait_for_slot l now turns of
        None \<Rightarrow> None
      | Some (l, t, naps) \<Rightarrow> map_option (\<lambda>ts. t # ts) (grant_times l calls))"

lemma grant_times_Cons:
  assumes "grant_times l ((now, turns) # calls) = Some ts" "0 < rl_interval l" "\<forall>(stop, c) \<in> set turns. \<not> stop"
  obtains t ts' l' where "ts = t # ts'" "grant_times l' calls = Some ts'" "rl_interval l' = rl_interval l"
    "rl_next l \<le> t" "rl_next l + rl_interval l \<le> rl_next l'" "t < rl_next l'"
proof -
  obtain t naps where t: "slot_loop (rl_next l) now turns = Some (t, naps)"
    using assms(1,2) by (cases "slot_loop (rl_next l) now turns") (auto simp: wait_for_slot_def RateLimiter_enabled_def)
  define l' where "l' = l\<lparr>rl_next := (if t - rl_next l < rl_interval l then rl_next l + rl_interval l else t + rl_interval l)\<rparr>"
  obtain ts' where ts: "ts = t # ts'" "grant_times l' calls = Some ts'"
    using assms(1,2) t by (auto simp: wait_for_slot_def RateLimiter_enabled_def l'_def)
  have on_time: "rl_next l \<le> t" using slot_loop_on_time [OF t] assms(3) by simp
  then have "rl_next l + rl_interval l \<le> rl_next l'" "t < rl_next l'" "rl_interval l' = rl_interval l"
    using assms(2) by (auto simp: l'_def)
  then show thesis using that ts on_time by blast
qed

lemma grant_times_paced:
  assumes "grant_times l calls = Some ts" "0 < rl_interval l"
    and "\<forall>(now, turns) \<in> set calls. \<forall>(stop, c) \<in> set turns. \<not> stop" "k < length ts"
  shows "rl_next l + int k * rl_interval l \<le> ts ! k"
  using assms
proof (induction calls arbitrary: l ts k)
  case (Cons call calls)
  obtain now turns where call: "call = (now, turns)" by (cases call)
  have go: "\<forall>(stop, c) \<in> set turns. \<not> stop" using Cons.prems(3) by (simp add: call)
  obtain t ts' l' where g: "ts = t # ts'" "grant_times l' calls = Some ts'" "rl_interval l' = rl_interval l"
    "rl_next l \<le> t" "rl_next l + rl_interval l \<le> rl_next l'"
    using grant_times_Cons [OF Cons.prems(1) [unfolded call] Cons.prems(2) go] by metis
  show ?case
  proof (cases k)
    case (Suc j)
    have "rl_next l' + int j * rl_interval l' \<le> ts' ! j"
      by (rule Cons.IH [OF g(2)]) (use Cons.prems Suc g in auto)
    then show ?thesis using g Suc by (simp add: algebra_simps)
  qed (use g in simp)
qed simp

text \<open>
  No burst: from any slot on, the slots that follow are at least their number of intervals away, but
  for one. After a stall the cadence restarts.
\<close>

lemma grant_times_window:
  assumes "grant_times l calls = Some ts" "0 < rl_interval l"
    and "\<forall>(now, turns) \<in> set calls. \<forall>(stop, c) \<in> set turns. \<not> stop" "j < k" "k < length ts"
  shows "ts ! j + int (k - j - 1) * rl_interval l < ts ! k"
  using assms
proof (induction calls arbitrary: l ts j k)
  case (Cons call calls)
  obtain now turns where call: "call = (now, turns)" by (cases call)
  have go: "\<forall>(stop, c) \<in> set turns. \<not> stop" "\<forall>(now, turns) \<in> set calls. \<forall>(stop, c) \<in> set turns. \<not> stop"
    using Cons.prems(3) by (simp_all add: call)
  obtain t ts' l' where g: "ts = t # ts'" "grant_times l' calls = Some ts'" "rl_interval l' = rl_interval l" "t < rl_next l'"
    using grant_times_Cons [OF Cons.prems(1) [unfolded call] Cons.prems(2) go(1)] by metis
  have k: "k - 1 < length ts'" "0 < rl_interval l'" using Cons.prems(2,4,5) g by auto
  show ?case
  proof (cases j)
    case 0
    have "rl_next l' + int (k - 1) * rl_interval l' \<le> ts' ! (k - 1)" by (rule grant_times_paced [OF g(2) k(2) go(2) k(1)])
    then show ?thesis using g 0 Cons.prems(4) by (simp add: nth_Cons')
  next
    case (Suc i)
    have "ts' ! i + int (k - 1 - i - 1) * rl_interval l' < ts' ! (k - 1)"
      by (rule Cons.IH [OF g(2) k(2) go(2) _ k(1)]) (use Cons.prems(4) Suc in simp)
    then show ?thesis using g Suc Cons.prems(4) by (simp add: nth_Cons' diff_right_commute)
  qed
qed simp

section \<open>Properties\<close>

text \<open>
  C28: a timed wait always comes back: if the attempt keeps failing and nobody requests a stop,
  the loop still returns at the first turn, from the 80th on, at which the clock has reached
  the deadline; and it reports failure only after a stop request or when the deadline has
  passed (or at once when the timeout is not positive).
\<close>

theorem wait_until_returns:
  assumes "79 \<le> k" "k < length turns" "now + 1000000 * timeout_ms \<le> wt_clock (turns ! k)"
  shows "(\<exists>out. wait_until attempt timeout_ms now (take (Suc k) turns) s = Some out) \<and>
    (\<forall>ts s'. wait_until attempt timeout_ms now ts s = Some (s', None) \<longrightarrow>
       timeout_ms \<le> 0 \<or> (\<exists>t \<in> set ts. wt_stop t \<or> now + 1000000 * timeout_ms \<le> wt_clock t))"
proof -
  have "\<exists>out. wait_loop attempt (now + 1000000 * timeout_ms) Backoff_new (take (Suc k) turns) s = Some out" for s
    using wait_loop_returns [of k "take (Suc k) turns" "now + 1000000 * timeout_ms" 0 attempt s] assms by simp
  then have "\<exists>out. wait_until attempt timeout_ms now (take (Suc k) turns) s = Some out"
    by (simp add: wait_until_def split_beta split: option.splits)
  moreover have "timeout_ms \<le> 0 \<or> (\<exists>t \<in> set ts. wt_stop t \<or> now + 1000000 * timeout_ms \<le> wt_clock t)"
    if "wait_until attempt timeout_ms now ts s = Some (s', None)" for ts s'
    using that wait_loop_failure by (auto simp: wait_until_def split_beta split: option.splits if_splits)
  ultimately show ?thesis by blast
qed

theorem wait_until_returns_witness:
  "\<exists>out. wait_until (\<lambda>s :: nat. (Suc s, None :: nat option)) 50 0
     (take 91 (replicate 100 \<lparr>wt_stop = False, wt_world = id, wt_clock = 50000000\<rparr>)) 0 = Some out"
  using wait_until_returns [of 90 "replicate 100 \<lparr>wt_stop = False, wt_world = id, wt_clock = 50000000\<rparr>" 0 50
      "\<lambda>s. (Suc s, None :: nat option)" "0 :: nat"] by simp

text \<open>
  Back-off is bounded: it spins 64 times, then yields 16 times, then sleeps, and no sleep
  is longer than 800 microseconds, however many times it waits.
\<close>

lemma backoff_schedule:
  "snd (Backoff_wait (((\<lambda>b. fst (Backoff_wait b)) ^^ n) Backoff_new)) =
     (if n < 64 then CpuRelax else if n < 80 then ThreadYield else SleepUs (50 * 2 ^ min (n - 80) 4))"
proof -
  define b where "b = ((\<lambda>b. fst (Backoff_wait b)) ^^ n) Backoff_new"
  have b: "unat b = min n 88" by (simp add: b_def backoff_after)
  have cmp: "b < 64 \<longleftrightarrow> n < 64" "b < 80 \<longleftrightarrow> n < 80" by (auto simp: word_less_nat_alt b)
  have "backoff_delay b = 50 * 2 ^ min (n - 80) 4" if "80 \<le> n"
  proof -
    have "unat (b - 80) = min n 88 - 80" using that b by (simp add: unat_sub_small)
    then have e: "unat (if b - 80 < 5 then b - 80 else 4) = min (n - 80) 4"
      using that by (auto simp: word_less_nat_alt)
    have k: "b - kSpinSteps - kYieldSteps = b - 80" by (simp add: kSpinSteps_def kYieldSteps_def)
    have "50 * 2 ^ min (n - 80) 4 \<le> (1000 :: nat)"
      using power_increasing [of "min (n - 80) 4" 4 "2 :: nat"] by simp
    then show ?thesis unfolding backoff_delay_def Let_def k e kMaxSleep_us_def by simp
  qed
  moreover have "snd (Backoff_wait b) = (if b < 64 then CpuRelax else if b < 80 then ThreadYield else SleepUs (backoff_delay b))"
    by (simp add: Backoff_wait_def kSpinSteps_def kYieldSteps_def)
  ultimately show ?thesis using cmp unfolding b_def [symmetric] by simp
qed

end
