(* ===== verification/Shm_Transport.thy ===== *)
theory Shm_Transport
  imports Ring_Buffer Waiting Shm_Region
begin

text \<open>
  The shared-memory transport: \<^verbatim>\<open>common/src/shm_transport.cpp\<close>,
  \<^verbatim>\<open>common/include/pc/shm_transport.hpp\<close> and \<^verbatim>\<open>common/include/pc/transport.hpp\<close>. The
  creation and attach protocols call the region layer, so they extend the trace of system calls, and
  read the control block of a mapped region, whose contents are a parameter; sending and
  receiving are timed waits over the steps of the ring. The lemmas give the rounding of the
  capacity, the meaning of a received view and the end of stream.
\<close>

section \<open>Processes and status\<close>

text \<open>What \<^verbatim>\<open>kill(pid, 0)\<close> returns: zero, -1 with EPERM, or -1 with another errno.\<close>

datatype kill_result = KillOk | KillEperm | KillError

definition process_alive :: "(i32 \<Rightarrow> kill_result) \<Rightarrow> i32 \<Rightarrow> bool" where
  "process_alive kill pid = (if sint pid \<le> 0 then False else kill pid = KillOk \<or> kill pid = KillEperm)"

record QueueStatus =
  qs_used_bytes :: u64
  qs_capacity_bytes :: u64

record PeerStatus =
  ps_present :: bool
  ps_alive :: bool
  ps_finished :: bool

definition kDefaultShmName :: string where
  "kDefaultShmName = ''/pc-ring''"

section \<open>The sink\<close>

text \<open>The loop of \<^verbatim>\<open>normalize_capacity\<close>; it would not end if the page size were zero.\<close>

partial_function (option) normalize_loop :: "u64 \<Rightarrow> u64 \<Rightarrow> u64 result option" where
  "normalize_loop requested capacity =
     (if capacity < requested then
        if push_bit 62 1 < capacity then Some (Inl (InvalidArgument ''ring capacity is too large''))
        else normalize_loop requested (push_bit 1 capacity)
      else Some (Inr capacity))"

declare normalize_loop.simps [code]

definition normalize_capacity :: "u64 \<Rightarrow> u64 \<Rightarrow> u64 result option" where
  "normalize_capacity page requested = normalize_loop requested page"

text \<open>\<^verbatim>\<open>RingControl{}\<close>, the value-initialised control block.\<close>

definition RingControl_zero :: RingControl where
  "RingControl_zero = \<lparr>rc_magic = 0, rc_version = 0, rc_capacity = 0, rc_state = 0, rc_producer_pid = 0,
     rc_consumer_pid = 0, rc_head = 0, rc_tail = 0\<rparr>"

text \<open>
  The control block in the header page of a mapped region: \<open>memory\<close> says what it holds when it is
  read.
\<close>

type_synonym memory = "MirroredShmRegion \<Rightarrow> RingControl"

record ShmPacketSink =
  sk_region :: MirroredShmRegion
  sk_control :: RingControl
  sk_ring :: RingProducer

text \<open>The test that refuses a second producer, on the control block of the region that exists, if any.\<close>

definition other_producer :: "(i32 \<Rightarrow> kill_result) \<Rightarrow> i32 \<Rightarrow> RingControl option \<Rightarrow> i32 option" where
  "other_producer kill getpid existing =
     (case existing of
        None \<Rightarrow> None
      | Some control \<Rightarrow>
          (let pid = rc_producer_pid control
           in if ring_control_ready control \<and> process_alive kill pid \<and> pid \<noteq> getpid then Some pid else None))"

text \<open>The end of a block with a local \<^verbatim>\<open>std::optional\<close> of a region: its destructor.\<close>

definition leave_scope :: "os \<Rightarrow> MirroredShmRegion option \<Rightarrow> 'a \<times> trace \<Rightarrow> 'a \<times> trace" where
  "leave_scope os region x =
     (case region of None \<Rightarrow> x | Some r \<Rightarrow> let (res, tr) = x in (res, snd (region_release os r tr)))"

text \<open>
  The initialiser of \<^verbatim>\<open>region_\<close> in the constructor: an exception of \<^verbatim>\<open>try_open\<close> is swallowed, and the
  region that exists is mapped until the new one has been created.
\<close>

definition make_region ::
  "os \<Rightarrow> (i32 \<Rightarrow> kill_result) \<Rightarrow> i32 \<Rightarrow> string \<Rightarrow> u64 \<Rightarrow> RingControl option \<Rightarrow> trace \<Rightarrow> (MirroredShmRegion result \<times> trace) option" where
  "make_region os kill getpid name capacity existing tr =
     (case other_producer kill getpid existing of
        Some pid \<Rightarrow> Some (Inl (RuntimeError
          (''another producer (pid '' @ show_int (sint pid) @ '') is already using '' @ name)), tr)
      | None \<Rightarrow>
          (case page_size os tr of
             (Inl e, tr) \<Rightarrow> Some (Inl e, tr)
           | (Inr page, tr) \<Rightarrow>
               (case normalize_capacity page capacity of
                  None \<Rightarrow> None
                | Some (Inl e) \<Rightarrow> Some (Inl e, tr)
                | Some (Inr cap) \<Rightarrow> Some (create os name cap tr))))"

definition replace_region ::
  "os \<Rightarrow> memory \<Rightarrow> (i32 \<Rightarrow> kill_result) \<Rightarrow> i32 \<Rightarrow> string \<Rightarrow> u64 \<Rightarrow> trace \<Rightarrow> (MirroredShmRegion result \<times> trace) option" where
  "replace_region os memory kill getpid name capacity tr =
     (let (opened, tr) = try_open os name tr; existing = (case opened of Inl e \<Rightarrow> None | Inr r \<Rightarrow> r)
      in map_option (leave_scope os existing) (make_region os kill getpid name capacity (map_option memory existing) tr))"

definition ShmPacketSink_new ::
  "os \<Rightarrow> memory \<Rightarrow> (i32 \<Rightarrow> kill_result) \<Rightarrow> i32 \<Rightarrow> string \<Rightarrow> u64 \<Rightarrow> trace \<Rightarrow> (ShmPacketSink result \<times> trace) option" where
  "ShmPacketSink_new os memory kill getpid name capacity tr =
     (case replace_region os memory kill getpid name capacity tr of
        None \<Rightarrow> None
      | Some (Inl e, tr) \<Rightarrow> Some (Inl e, tr)
      | Some (Inr region, tr) \<Rightarrow>
          (let control = initialize_ring_control RingControl_zero (mr_data_bytes region) getpid
           in Some (Inr \<lparr>sk_region = region, sk_control = control, sk_ring = RingProducer_new control (rc_tail control)\<rparr>, tr)))"

text \<open>
  The destructor marks the stream as finished and unlinks the name; then the region is destroyed.
  The control block is that at the time: the mapping stays with an attached consumer.
\<close>

definition ShmPacketSink_finish :: "RingControl \<Rightarrow> RingControl" where
  "ShmPacketSink_finish control = control\<lparr>rc_state := RingState_ProducerFinished\<rparr>"

definition ShmPacketSink_drop :: "os \<Rightarrow> ShmPacketSink \<Rightarrow> trace \<Rightarrow> RingControl \<times> trace" where
  "ShmPacketSink_drop os sink tr =
     (let control = ShmPacketSink_finish (sk_control sink); (region, tr) = region_unlink os (sk_region sink) tr
      in (control, snd (region_release os region tr)))"

text \<open>
  \<^verbatim>\<open>ring_.try_reserve(bytes)\<close> as the attempt of a wait. \<open>tail_load s\<close> says which of the stored
  tail values the acquire load returns.
\<close>

definition reserve_attempt :: "(ring_sys \<Rightarrow> nat) \<Rightarrow> u64 \<Rightarrow> ring_sys \<Rightarrow> ring_sys \<times> span option" where
  "reserve_attempt tail_load bytes s =
     (sys_reserve bytes (tail_load s) s,
      snd (snd (RingProducer_try_reserve (rs_prod s) (rs_tails s ! tail_load s) (rs_data s) bytes)))"

definition ShmPacketSink_reserve ::
  "(ring_sys \<Rightarrow> nat) \<Rightarrow> u64 \<Rightarrow> int \<Rightarrow> int \<Rightarrow> ring_sys wait_turn list \<Rightarrow> ring_sys \<Rightarrow> (ring_sys \<times> span option) option" where
  "ShmPacketSink_reserve tail_load bytes timeout_ms now turns s =
     wait_until (reserve_attempt tail_load bytes) timeout_ms now turns s"

definition ShmPacketSink_commit :: "ring_sys \<Rightarrow> ring_sys" where
  "ShmPacketSink_commit s = sys_commit s"

definition ShmPacketSink_peer_status :: "(i32 \<Rightarrow> kill_result) \<Rightarrow> RingControl \<Rightarrow> PeerStatus" where
  "ShmPacketSink_peer_status kill control =
     (let pid = rc_consumer_pid control
      in \<lparr>ps_present = pid \<noteq> 0, ps_alive = process_alive kill pid, ps_finished = False\<rparr>)"

text \<open>Each turn of \<^verbatim>\<open>wait_for_peer\<close>: the stop token and the control block at that time.\<close>

fun ShmPacketSink_wait_for_peer :: "(i32 \<Rightarrow> kill_result) \<Rightarrow> (bool \<times> RingControl) list \<Rightarrow> bool option" where
  "ShmPacketSink_wait_for_peer kill [] = None"
| "ShmPacketSink_wait_for_peer kill ((stop, control) # turns) =
     (if stop then Some False
      else if ps_alive (ShmPacketSink_peer_status kill control) then Some True
      else ShmPacketSink_wait_for_peer kill turns)"

definition ShmPacketSink_max_packet_size :: "RingProducer \<Rightarrow> u64" where
  "ShmPacketSink_max_packet_size p = RingProducer_max_record_size p"

definition ShmPacketSink_queue_status :: "RingProducer \<Rightarrow> RingControl \<Rightarrow> QueueStatus" where
  "ShmPacketSink_queue_status p control =
     \<lparr>qs_used_bytes = RingProducer_used p (rc_tail control), qs_capacity_bytes = rp_capacity p\<rparr>"

section \<open>The source\<close>

record ShmPacketSource =
  ss_name :: string
  ss_poll_interval_ms :: int
  ss_region :: "MirroredShmRegion option"
  ss_ring :: "RingConsumer option"

definition ShmPacketSource_new :: "string \<Rightarrow> int \<Rightarrow> ShmPacketSource" where
  "ShmPacketSource_new name poll_interval_ms =
     \<lparr>ss_name = name, ss_poll_interval_ms = poll_interval_ms, ss_region = None, ss_ring = None\<rparr>"

definition connected :: "ShmPacketSource \<Rightarrow> bool" where
  "connected src \<longleftrightarrow> ss_ring src \<noteq> None"

text \<open>
  The checks of \<^verbatim>\<open>try_attach\<close> up to the load of \<^verbatim>\<open>consumer_pid\<close>: give up for now, an exception,
  or the value that the exchange expects.
\<close>

datatype attach_check = NotYet | Refused exn | Expect i32

definition attach_check_of :: "(i32 \<Rightarrow> kill_result) \<Rightarrow> i32 \<Rightarrow> string \<Rightarrow> RingControl \<Rightarrow> u64 \<Rightarrow> attach_check" where
  "attach_check_of kill me name control data_capacity =
     (let expected = rc_consumer_pid control
      in if \<not> ring_control_ready control then NotYet
         else if rc_capacity control \<noteq> data_capacity
         then Refused (RuntimeError ''shared memory ring capacity does not match the mapped size'')
         else if \<not> process_alive kill (rc_producer_pid control) then NotYet
         else if expected \<noteq> 0 \<and> expected \<noteq> me \<and> process_alive kill expected
         then Refused (RuntimeError (''another consumer (pid '' @ show_int (sint expected) @ '') is already attached to '' @ name))
         else Expect expected)"

text \<open>
  What an attempt to attach meets, with the stop token before it: the contents of the region, the
  control block when the exchange happens (another consumer may have written it since), and the
  head value the new consumer end reads.
\<close>

record attach_turn =
  at_stop :: bool
  at_memory :: memory
  at_control :: RingControl
  at_head_load :: u64

text \<open>
  \<^verbatim>\<open>region_ = std::move(region)\<close>: the target's old region, if any, is released by the assignment; the
  moved-from local is destroyed at the end of the block.
\<close>

definition keep_region :: "os \<Rightarrow> MirroredShmRegion option \<Rightarrow> MirroredShmRegion \<Rightarrow> trace \<Rightarrow> MirroredShmRegion option \<times> trace" where
  "keep_region os target region tr =
     (case target of
        None \<Rightarrow> let (new, old) = move_construct region in leave_scope os (Some old) (Some new, tr)
      | Some this \<Rightarrow> let ((new, old), tr) = move_assign os this region tr in leave_scope os (Some old) (Some new, tr))"

text \<open>\<^verbatim>\<open>try_attach\<close>: what it returns or throws, the source, the control block and the trace.\<close>

definition try_attach ::
  "os \<Rightarrow> (i32 \<Rightarrow> kill_result) \<Rightarrow> i32 \<Rightarrow> attach_turn \<Rightarrow> ShmPacketSource \<Rightarrow> trace
     \<Rightarrow> (bool result \<times> ShmPacketSource \<times> RingControl) \<times> trace" where
  "try_attach os kill me t src tr =
     (case try_open os (ss_name src) tr of
        (Inl e, tr) \<Rightarrow> ((Inl e, src, at_control t), tr)
      | (Inr None, tr) \<Rightarrow> ((Inr False, src, at_control t), tr)
      | (Inr (Some region), tr) \<Rightarrow>
          (case attach_check_of kill me (ss_name src) (at_memory t region) (mr_data_bytes region) of
             NotYet \<Rightarrow> leave_scope os (Some region) ((Inr False, src, at_control t), tr)
           | Refused e \<Rightarrow> leave_scope os (Some region) ((Inl e, src, at_control t), tr)
           | Expect expected \<Rightarrow>
               if rc_consumer_pid (at_control t) \<noteq> expected
               then leave_scope os (Some region) ((Inr False, src, at_control t), tr)
               else (let control = (at_control t)\<lparr>rc_consumer_pid := me\<rparr>;
                         (kept, tr) = keep_region os (ss_region src) region tr
                     in ((Inr True, src\<lparr>ss_region := kept, ss_ring := Some (RingConsumer_new control (at_head_load t))\<rparr>, control), tr))))"

text \<open>\<^verbatim>\<open>connect\<close>: None when the turns run out.\<close>

fun connect_loop ::
  "os \<Rightarrow> (i32 \<Rightarrow> kill_result) \<Rightarrow> i32 \<Rightarrow> attach_turn list \<Rightarrow> ShmPacketSource \<Rightarrow> trace
     \<Rightarrow> ((bool result \<times> ShmPacketSource) \<times> trace) option" where
  "connect_loop os kill me [] src tr = None"
| "connect_loop os kill me (t # ts) src tr =
     (if at_stop t then Some ((Inr False, src), tr)
      else case try_attach os kill me t src tr of
             ((Inl e, src, control), tr) \<Rightarrow> Some ((Inl e, src), tr)
           | ((Inr ok, src, control), tr) \<Rightarrow> if ok then Some ((Inr True, src), tr) else connect_loop os kill me ts src tr)"

definition connect ::
  "os \<Rightarrow> (i32 \<Rightarrow> kill_result) \<Rightarrow> i32 \<Rightarrow> attach_turn list \<Rightarrow> ShmPacketSource \<Rightarrow> trace
     \<Rightarrow> ((bool result \<times> ShmPacketSource) \<times> trace) option" where
  "connect os kill me turns src tr =
     (if connected src then Some ((Inr True, src), tr) else connect_loop os kill me turns src tr)"

definition disconnect :: "os \<Rightarrow> i32 \<Rightarrow> ShmPacketSource \<Rightarrow> RingControl \<Rightarrow> trace \<Rightarrow> (ShmPacketSource \<times> RingControl) \<times> trace" where
  "disconnect os me src control tr =
     (case ss_ring src of
        None \<Rightarrow> ((src, control), tr)
      | Some ring \<Rightarrow>
          (let (ring, control) = RingConsumer_release ring control;
               control = (if rc_consumer_pid control = me then control\<lparr>rc_consumer_pid := 0\<rparr> else control)
           in leave_scope os (ss_region src) ((src\<lparr>ss_region := None, ss_ring := None\<rparr>, control), tr)))"

text \<open>The destructor disconnects; then the members are destroyed.\<close>

definition ShmPacketSource_drop :: "os \<Rightarrow> i32 \<Rightarrow> ShmPacketSource \<Rightarrow> RingControl \<Rightarrow> trace \<Rightarrow> RingControl \<times> trace" where
  "ShmPacketSource_drop os me src control tr =
     (let ((src, control), tr) = disconnect os me src control tr in leave_scope os (ss_region src) (control, tr))"

text \<open>\<^verbatim>\<open>ring_->try_peek()\<close> as the attempt of a wait; \<open>head_load s\<close> is the choice of the acquire load.\<close>

definition peek_attempt :: "(ring_sys \<Rightarrow> nat) \<Rightarrow> ring_sys \<Rightarrow> ring_sys \<times> span option" where
  "peek_attempt head_load s = (sys_peek (head_load s) s, rs_view (sys_peek (head_load s) s))"

definition ShmPacketSource_receive ::
  "(ring_sys \<Rightarrow> nat) \<Rightarrow> int \<Rightarrow> int \<Rightarrow> ring_sys wait_turn list \<Rightarrow> ring_sys \<Rightarrow> (ring_sys \<times> span option) option" where
  "ShmPacketSource_receive head_load timeout_ms now turns s =
     wait_until (peek_attempt head_load) timeout_ms now turns (sys_release s)"

definition ShmPacketSource_release :: "ring_sys \<Rightarrow> ring_sys" where
  "ShmPacketSource_release s = sys_release s"

definition ShmPacketSource_queue_status :: "ShmPacketSource \<Rightarrow> RingControl \<Rightarrow> QueueStatus" where
  "ShmPacketSource_queue_status src control =
     (case ss_ring src of
        None \<Rightarrow> \<lparr>qs_used_bytes = 0, qs_capacity_bytes = 0\<rparr>
      | Some ring \<Rightarrow> \<lparr>qs_used_bytes = RingConsumer_used ring (rc_head control), qs_capacity_bytes = rn_capacity ring\<rparr>)"

definition ShmPacketSource_peer_status :: "(i32 \<Rightarrow> kill_result) \<Rightarrow> ShmPacketSource \<Rightarrow> RingControl \<Rightarrow> PeerStatus" where
  "ShmPacketSource_peer_status kill src control =
     (case ss_ring src of
        None \<Rightarrow> \<lparr>ps_present = False, ps_alive = False, ps_finished = False\<rparr>
      | Some ring \<Rightarrow>
          (let pid = rc_producer_pid control
           in \<lparr>ps_present = pid \<noteq> 0, ps_alive = process_alive kill pid,
               ps_finished = rc_state control = RingState_ProducerFinished \<or> rn_corrupted ring\<rparr>))"

section \<open>Rounding of the capacity\<close>

lemma normalize_loop_doubles:
  assumes "p \<le> 62" "2 ^ p < unat r"
  shows "normalize_loop r (2 ^ p) = normalize_loop r (2 ^ Suc p)"
proof -
  have "(2 :: nat) ^ p \<le> 2 ^ 62" by (rule power_increasing [OF assms(1)]) simp
  then have "\<not> (push_bit 62 1 :: u64) < 2 ^ p" "2 ^ p < r" using assms by (simp_all add: word_less_nat_alt unat_two_power)
  then show ?thesis by (subst normalize_loop.simps) (simp add: mult.commute)
qed

lemma normalize_loop_power:
  assumes "p \<le> 63"
  shows "if unat r \<le> 2 ^ 63 then \<exists>k. p \<le> k \<and> k \<le> 63 \<and> normalize_loop r (2 ^ p) = Some (Inr (2 ^ k)) \<and> unat r \<le> 2 ^ k \<and> (k = p \<or> 2 ^ (k - 1) < unat r)
    else normalize_loop r (2 ^ p) = Some (Inl (InvalidArgument ''ring capacity is too large''))"
  using assms
proof (induction "63 - p" arbitrary: p)
  case 0
  then have p: "p = 63" by simp
  have "2 ^ 63 < r \<longleftrightarrow> 2 ^ 63 < unat r" by (simp add: word_less_nat_alt)
  moreover have "normalize_loop r (2 ^ 63) = (if 2 ^ 63 < r then Some (Inl (InvalidArgument ''ring capacity is too large''))
      else Some (Inr (2 ^ 63)))" by (subst normalize_loop.simps) simp
  ultimately show ?case unfolding p by (auto intro!: exI [of _ 63])
next
  case (Suc n)
  have lt: "2 ^ p < r \<longleftrightarrow> 2 ^ p < unat r" using Suc.prems by (simp add: word_less_nat_alt unat_two_power)
  show ?case
  proof (cases "2 ^ p < unat r")
    case True
    have "p \<le> 62" using Suc.hyps(2) by simp
    note eq = normalize_loop_doubles [OF this True]
    have IH: "if unat r \<le> 2 ^ 63 then \<exists>k. Suc p \<le> k \<and> k \<le> 63 \<and> normalize_loop r (2 ^ Suc p) = Some (Inr (2 ^ k)) \<and>
        unat r \<le> 2 ^ k \<and> (k = Suc p \<or> 2 ^ (k - 1) < unat r)
      else normalize_loop r (2 ^ Suc p) = Some (Inl (InvalidArgument ''ring capacity is too large''))"
      by (rule Suc.hyps(1)) (use Suc.hyps(2) in simp_all)
    show ?thesis
    proof (cases "unat r \<le> 2 ^ 63")
      case le: True
      then obtain k where k: "Suc p \<le> k" "k \<le> 63" "normalize_loop r (2 ^ Suc p) = Some (Inr (2 ^ k))"
        "unat r \<le> 2 ^ k" "k = Suc p \<or> 2 ^ (k - 1) < unat r" using IH by (auto simp del: power_Suc)
      then have "2 ^ (k - 1) < unat r" using True by auto
      then show ?thesis using le k eq by (auto simp del: power_Suc intro!: exI [of _ k])
    next
      case False
      then show ?thesis using IH eq by (simp del: power_Suc)
    qed
  next
    case False
    have "normalize_loop r (2 ^ p) = Some (Inr (2 ^ p))" using False lt by (subst normalize_loop.simps) simp
    moreover have "unat r \<le> 2 ^ 63" using False Suc.prems power_increasing [of p 63 "2 :: nat"] by simp
    ultimately show ?thesis using False Suc.prems by auto
  qed
qed


section \<open>Waits over the ring\<close>

text \<open>
  While one end waits, the other end and its own attempts take ring steps that release nothing
  (the consumer is in this call, and the producer never releases), or that publish nothing.
\<close>

definition quiet_receive :: "ring_sys \<Rightarrow> ring_sys \<Rightarrow> bool" where
  "quiet_receive s t \<longleftrightarrow> ring_step s t \<and> rs_received t = rs_received s"

definition quiet_send :: "ring_sys \<Rightarrow> ring_sys \<Rightarrow> bool" where
  "quiet_send s t \<longleftrightarrow> ring_step s t \<and> rs_sent t = rs_sent s"

text \<open>A load that returns one of the values stored since the last one seen.\<close>

definition head_load_ok :: "(ring_sys \<Rightarrow> nat) \<Rightarrow> bool" where
  "head_load_ok load \<longleftrightarrow> (\<forall>s. ring_inv s \<longrightarrow> rs_seen_head s \<le> load s \<and> load s \<le> length (rs_sent s))"

definition tail_load_ok :: "(ring_sys \<Rightarrow> nat) \<Rightarrow> bool" where
  "tail_load_ok load \<longleftrightarrow> (\<forall>s. ring_inv s \<longrightarrow> rs_seen_tail s \<le> load s \<and> load s \<le> length (rs_received s))"

definition latest_head :: "ring_sys \<Rightarrow> nat" where
  "latest_head s = length (rs_sent s)"

definition latest_tail :: "ring_sys \<Rightarrow> nat" where
  "latest_tail s = length (rs_received s)"

lemma latest_head_ok: "head_load_ok latest_head"
  by (auto simp: head_load_ok_def latest_head_def ring_inv_def inv_counters_def)

lemma latest_tail_ok: "tail_load_ok latest_tail"
  by (auto simp: tail_load_ok_def latest_tail_def ring_inv_def inv_counters_def)

lemma quiet_receive_steps:
  assumes "quiet_receive\<^sup>*\<^sup>* s t"
  shows "ring_step\<^sup>*\<^sup>* s t \<and> rs_received t = rs_received s"
  using assms
proof (induction rule: rtranclp_induct)
  case (step t u)
  then have "ring_step\<^sup>*\<^sup>* s t" "ring_step t u" "rs_received u = rs_received s" by (simp_all add: quiet_receive_def)
  then show ?case by (simp add: rtranclp.rtrancl_into_rtrancl)
qed simp

lemma quiet_send_steps:
  assumes "quiet_send\<^sup>*\<^sup>* s t"
  shows "ring_step\<^sup>*\<^sup>* s t \<and> rs_sent t = rs_sent s"
  using assms
proof (induction rule: rtranclp_induct)
  case (step t u)
  then have "ring_step\<^sup>*\<^sup>* s t" "ring_step t u" "rs_sent u = rs_sent s" by (simp_all add: quiet_send_def)
  then show ?case by (simp add: rtranclp.rtrancl_into_rtrancl)
qed simp

definition holds_next :: "ring_sys \<Rightarrow> span \<Rightarrow> bool" where
  "holds_next s sp \<longleftrightarrow> rs_view s = Some sp \<and> length (rs_received s) < length (rs_sent s) \<and>
     span_bytes (rs_data s) sp = rs_sent s ! length (rs_received s)"

definition holds_slot :: "u64 \<Rightarrow> ring_sys \<Rightarrow> span \<Rightarrow> bool" where
  "holds_slot bytes s sp \<longleftrightarrow> rs_slot s = Some sp \<and> sp_len sp = unat bytes"

lemma view_holds_next:
  assumes "ring_inv s" "rs_view s = Some sp"
  shows "holds_next s sp"
proof -
  have "length (rs_received s) < rs_seen_head s" "rs_seen_head s \<le> length (rs_sent s)"
    using assms by (auto simp: ring_inv_def inv_view_def inv_counters_def)
  then show ?thesis using view_bytes [OF assms] assms(2) by (simp add: holds_next_def)
qed

text \<open>The record the consumer holds a view of, if any.\<close>

definition held_record :: "ring_sys \<Rightarrow> bytes list" where
  "held_record t = (case rs_view t of None \<Rightarrow> [] | Some sp \<Rightarrow> [span_bytes (rs_data t) sp])"

lemma taken_prefix:
  assumes "ring_inv s"
  shows "prefix (rs_received s @ held_record s) (rs_sent s)"
proof -
  have pre: "prefix (rs_received s) (rs_sent s)" using assms by (auto simp: ring_inv_def inv_counters_def)
  show ?thesis
  proof (cases "rs_view s")
    case (Some sp)
    then have "held_record s = [rs_sent s ! length (rs_received s)]" "length (rs_received s) < length (rs_sent s)"
      using view_holds_next [OF assms Some] by (simp_all add: held_record_def holds_next_def)
    then show ?thesis using pre by (simp add: prefix_snoc_nth)
  qed (use pre in \<open>simp add: held_record_def\<close>)
qed

lemma sys_peek_received: "rs_received (sys_peek j s) = rs_received s"
  by (simp add: sys_peek_def split_beta)

lemma sys_reserve_sent: "rs_sent (sys_reserve b i s) = rs_sent s"
  by (simp add: sys_reserve_def split_beta)

lemma peek_waiting:
  assumes "head_load_ok load"
  shows "waiting (peek_attempt load) quiet_receive ring_inv holds_next"
proof
  fix s t sp
  assume inv: "ring_inv s"
  then have j: "rs_seen_head s \<le> load s" "load s \<le> length (rs_sent s)" using assms by (simp_all add: head_load_ok_def)
  then have "quiet_receive s (sys_peek (load s) s)" by (simp add: quiet_receive_def step_peek sys_peek_received)
  then show "quiet_receive\<^sup>*\<^sup>* s (fst (peek_attempt load s))" by (simp add: peek_attempt_def)
  have "ring_inv (sys_peek (load s) s)" using peek_step(1) [OF inv j] by blast
  then show "snd (peek_attempt load s) = Some sp \<Longrightarrow> holds_next (fst (peek_attempt load s)) sp"
    by (simp add: peek_attempt_def view_holds_next)
  show "quiet_receive s t \<Longrightarrow> ring_inv t" using ring_step_simulates inv by (auto simp: quiet_receive_def)
qed

interpretation latest_receive: waiting "peek_attempt latest_head" quiet_receive ring_inv holds_next
  by (rule peek_waiting [OF latest_head_ok])

lemma reserve_slot:
  assumes "snd (snd (RingProducer_try_reserve p t d bytes)) = Some sp"
  shows "sp_len sp = unat bytes"
  using assms by (auto simp: RingProducer_try_reserve_def reserve_at_head_def Let_def split: if_splits)

lemma reserve_waiting:
  assumes "tail_load_ok load"
  shows "waiting (reserve_attempt load bytes) quiet_send ring_inv (holds_slot bytes)"
proof
  fix s t sp
  assume inv: "ring_inv s"
  then have i: "rs_seen_tail s \<le> load s" "load s \<le> length (rs_received s)" using assms by (simp_all add: tail_load_ok_def)
  then have "quiet_send s (sys_reserve bytes (load s) s)" by (simp add: quiet_send_def step_reserve sys_reserve_sent)
  then show "quiet_send\<^sup>*\<^sup>* s (fst (reserve_attempt load bytes s))" by (simp add: reserve_attempt_def)
  show "snd (reserve_attempt load bytes s) = Some sp \<Longrightarrow> holds_slot bytes (fst (reserve_attempt load bytes s)) sp"
    by (auto simp: reserve_attempt_def holds_slot_def sys_reserve_def split_beta dest: reserve_slot)
  show "quiet_send s t \<Longrightarrow> ring_inv t" using ring_step_simulates inv by (auto simp: quiet_send_def)
qed

interpretation latest_reserve: waiting "reserve_attempt latest_tail bytes" quiet_send ring_inv "holds_slot bytes" for bytes
  by (rule reserve_waiting [OF latest_tail_ok])

text \<open>The end of the stream: with an up-to-date head an empty read means everything was received.\<close>

lemma peek_none_drained:
  assumes "ring_inv s" "rs_view (sys_peek (length (rs_sent s)) s) = None"
  shows "rs_received s = rs_sent s"
proof -
  have c: "prefix (rs_received s) (rs_sent s)" "rs_seen_head s \<le> length (rs_sent s)"
    using assms(1) by (auto simp: ring_inv_def inv_counters_def)
  have "\<not> length (rs_received s) < length (rs_sent s)"
    using peek_step(2) [OF assms(1) c(2) order_refl] assms(2) by blast
  then show ?thesis using c(1) by (auto simp: prefix_def)
qed


section \<open>Properties\<close>

text \<open>
  The ring capacity is rounded as documented: with a page size that is a power of two, the
  loop ends, and gives the smallest power of two that is at least one page and at least the
  requested size, or the "too large" error exactly when the request exceeds 2^63.
\<close>

lemma capacity_rounded_up:
  assumes "p \<le> 63"
  shows "if unat requested \<le> 2 ^ 63
    then \<exists>k. p \<le> k \<and> k \<le> 63 \<and> normalize_capacity (2 ^ p) requested = Some (Inr (2 ^ k)) \<and>
      unat requested \<le> 2 ^ k \<and> (k = p \<or> 2 ^ (k - 1) < unat requested)
    else normalize_capacity (2 ^ p) requested = Some (Inl (InvalidArgument ''ring capacity is too large''))"
  unfolding normalize_capacity_def by (rule normalize_loop_power [OF assms])

text \<open>
  C6: what \<^verbatim>\<open>receive\<close> returns: from any reachable state of the ring, whatever the producer does
  while the consumer waits and whichever stored head values its loads see, if the call returns a
  view then the previous record has been released and the view shows exactly the next published
  record, the one after those released so far.
\<close>

theorem receive_returns_next_record:
  assumes "ring_init s0" "ring_step\<^sup>*\<^sup>* s0 s" "head_load_ok load"
    and "\<forall>t \<in> set turns. \<forall>u. ring_inv u \<longrightarrow> quiet_receive\<^sup>*\<^sup>* u (wt_world t u)"
    and "ShmPacketSource_receive load timeout_ms now turns s = Some (s', Some view)"
  shows "rs_received s' = rs_received (sys_release s) \<and> length (rs_received s') < length (rs_sent s') \<and>
    span_bytes (rs_data s') view = rs_sent s' ! length (rs_received s') \<and> ring_step\<^sup>*\<^sup>* s0 s'"
proof -
  have "ring_step\<^sup>*\<^sup>* s0 (sys_release s)" using assms(2) by (simp add: step_release rtranclp.rtrancl_into_rtrancl)
  note rel = this reachable_ring_inv [OF assms(1) this]
  have "quiet_receive\<^sup>*\<^sup>* (sys_release s) s' \<and> (\<forall>x. Some view = Some x \<longrightarrow> holds_next s' x)"
    by (rule waiting.wait_until_steps [OF peek_waiting [OF assms(3)] assms(5) [unfolded ShmPacketSource_receive_def] rel(2)])
      (use assms(4) in blast)
  then show ?thesis
    using quiet_receive_steps [of "sys_release s" s'] rel(1) by (auto simp: holds_next_def intro: rtranclp_trans)
qed

theorem receive_returns_next_record_witness:
  "\<exists>s' view. ShmPacketSource_receive latest_head 0 0 [] demo_end = Some (s', Some view) \<and>
     span_bytes (rs_data s') view = [0, 0, 7, 9]"
proof -
  have "case ShmPacketSource_receive latest_head 0 0 [] demo_end of
      Some (s', Some view) \<Rightarrow> rs_sent s' ! length (rs_received s') = [0, 0, 7, 9] | _ \<Rightarrow> False" by code_simp
  then obtain s' view where r: "ShmPacketSource_receive latest_head 0 0 [] demo_end = Some (s', Some view)"
    "rs_sent s' ! length (rs_received s') = [0, 0, 7, 9]" by (auto split: option.splits)
  from receive_returns_next_record [OF demo_start_init demo_steps latest_head_ok _ r(1)] r show ?thesis by auto
qed

text \<open>
  What \<^verbatim>\<open>reserve\<close> returns: from any reachable state, whatever the consumer does meanwhile, a
  successful \<^verbatim>\<open>reserve(n)\<close> leaves the producer holding a slot of exactly n bytes and has
  published nothing.
\<close>

lemma reserve_returns_slot:
  assumes "ring_init s0" "ring_step\<^sup>*\<^sup>* s0 s" "tail_load_ok load"
    and "\<forall>t \<in> set turns. \<forall>u. ring_inv u \<longrightarrow> quiet_send\<^sup>*\<^sup>* u (wt_world t u)"
    and "ShmPacketSink_reserve load bytes timeout_ms now turns s = Some (s', Some slot)"
  shows "rs_slot s' = Some slot \<and> sp_len slot = unat bytes \<and> rs_sent s' = rs_sent s \<and> ring_step\<^sup>*\<^sup>* s0 s'"
proof -
  have "quiet_send\<^sup>*\<^sup>* s s' \<and> (\<forall>x. Some slot = Some x \<longrightarrow> holds_slot bytes s' x)"
    by (rule waiting.wait_until_steps [OF reserve_waiting [OF assms(3)] assms(5) [unfolded ShmPacketSink_reserve_def]
          reachable_ring_inv [OF assms(1,2)]]) (use assms(4) in blast)
  then show ?thesis
    using quiet_send_steps [of s s'] assms(2) by (auto simp: holds_slot_def intro: rtranclp_trans)
qed

end
