(* ===== verification/Transport_Lifetime.thy ===== *)
theory Transport_Lifetime
  imports Shm_Transport "HOL-Library.Multiset"
begin

text \<open>
  What the two ends of the transport hold of the operating system, from their constructors to their
  destructors in \<^verbatim>\<open>common/src/shm_transport.cpp\<close>. A sink owns a mapping and a name, a source a mapping
  while it is connected; on every path, exceptions of the constructor and of an attempt to
  attach included, they give back exactly what they took, whatever the system calls return. The
  second half gives the outcome of creating a ring.
\<close>

section \<open>Releasing a region in any state\<close>

lemma release_effect:
  "re_fds (held (snd (region_release os r tr))) = re_fds (held tr)"
  "mset (re_mapped (held (snd (region_release os r tr)))) = mset (re_mapped (held tr)) - mset (ranges r)"
  "re_names (held (snd (region_release os r tr))) =
     (if mr_owner r then filter (\<lambda>n. n \<noteq> mr_name r) (re_names (held tr)) else re_names (held tr))"
  by (auto simp: region_release_def release_header_def release_data_def region_unlink_def sys_eq Let_def ranges_def split: option.split)

lemma leave_scope_simps [simp]:
  "leave_scope os None x = x" "leave_scope os (Some r) (res, tr) = (res, snd (region_release os r tr))"
  "fst (leave_scope os region x) = fst x"
  by (auto simp: leave_scope_def split_beta split: option.split)

lemma moved_from_release [simp]: "region_release os (moved_from r) tr = (moved_from r, tr)"
  by (simp add: region_release_def release_header_def release_data_def region_unlink_def moved_from_def)

lemma ranges_owner [simp]: "ranges (r\<lparr>mr_owner := b\<rparr>) = ranges r"
  by (simp add: ranges_def split: option.split)

section \<open>The source\<close>

text \<open>A source that is connected holds the ranges of its region, one that is not holds nothing.\<close>

definition source_holds :: "trace \<Rightarrow> ShmPacketSource \<Rightarrow> trace \<Rightarrow> bool" where
  "source_holds tr0 src tr \<longleftrightarrow>
     (case ss_region src of
        None \<Rightarrow> \<not> connected src \<and> held tr = held tr0
      | Some r \<Rightarrow> connected src \<and> \<not> mr_owner r \<and> length (ranges r) = 2 \<and> held tr = with_ranges (ranges r) (held tr0))"

lemma opened_region:
  assumes "try_open os name tr = (Inr (Some r), tr')"
  shows "held tr' = with_ranges (ranges r) (held tr)" "\<not> mr_owner r" "length (ranges r) = 2" "mr_name r = name"
    "held (snd (region_release os r tr')) = held tr"
proof -
  obtain page file_size fd where r: "held tr' = with_ranges (ranges r) (held tr)" "region_fields name page (file_size - page) False r"
    "mirrored fd r tr'" using try_open_held [OF assms] by auto
  then show "held tr' = with_ranges (ranges r) (held tr)" "\<not> mr_owner r" "length (ranges r) = 2" "mr_name r = name"
    "held (snd (region_release os r tr')) = held tr"
    using release_held [OF r(1)] by (auto simp: region_fields_def mirrored_def ranges_def)
qed

lemma try_attach_holds:
  assumes "source_holds tr0 src tr" "\<not> connected src" "try_attach os kill me t src tr = ((res, src', control), tr')"
  shows "source_holds tr0 src' tr'" "connected src' \<longleftrightarrow> res = Inr True"
proof -
  obtain opened tr1 where opened: "try_open os (ss_name src) tr = (opened, tr1)" by fastforce
  have src: "ss_region src = None" "held tr = held tr0" using assms(1,2) by (auto simp: source_holds_def split: option.splits)
  consider "\<forall>r. opened \<noteq> Inr (Some r)" | r where "opened = Inr (Some r)" by blast
  then have "source_holds tr0 src' tr' \<and> (connected src' \<longleftrightarrow> res = Inr True)"
  proof cases
    case 1
    then have "held tr1 = held tr" using try_open_held [OF opened] by (auto split: sum.splits option.splits)
    moreover have "src' = src" "tr' = tr1" "res \<noteq> Inr True"
      using 1 assms(3) opened by (auto simp: try_attach_def split: sum.splits option.splits)
    ultimately show ?thesis using src assms(2) by (simp add: source_holds_def)
  next
    case (2 r)
    note region = opened_region [OF opened [unfolded 2]]
    have "src' = src \<and> tr' = snd (region_release os r tr1) \<and> res \<noteq> Inr True \<or>
        ss_region src' = Some r \<and> connected src' \<and> tr' = tr1 \<and> res = Inr True"
      using assms(3) opened 2 src(1)
      by (auto simp: try_attach_def keep_region_def move_construct_def connected_def Let_def split: attach_check.splits if_splits)
    then show ?thesis using region src assms(2) by (auto simp: source_holds_def)
  qed
  then show "source_holds tr0 src' tr'" "connected src' \<longleftrightarrow> res = Inr True" by auto
qed

lemma connect_holds:
  assumes "source_holds tr0 src tr" "connect os kill me turns src tr = Some ((res, src'), tr')"
  shows "source_holds tr0 src' tr'" "connected src' \<longleftrightarrow> res = Inr True"
proof -
  have "source_holds tr0 src' tr' \<and> (connected src' \<longleftrightarrow> res = Inr True)"
    if "source_holds tr0 src tr" "\<not> connected src" "connect_loop os kill me turns src tr = Some ((res, src'), tr')"
    using that
  proof (induction turns arbitrary: src tr)
    case (Cons t ts)
    obtain r src1 control tr1 where attach: "try_attach os kill me t src tr = ((r, src1, control), tr1)" by (metis surj_pair)
    show ?case
      using Cons try_attach_holds [OF Cons.prems(1,2) attach] attach by (auto split: if_splits sum.splits)
  qed simp
  then show "source_holds tr0 src' tr'" "connected src' \<longleftrightarrow> res = Inr True"
    using assms by (auto simp: connect_def split: if_splits)
qed

lemma disconnect_holds:
  assumes "source_holds tr0 src tr" "disconnect os me src control tr = ((src', control'), tr')"
  shows "source_holds tr0 src' tr'" "\<not> connected src'"
proof -
  have "source_holds tr0 src' tr' \<and> \<not> connected src'"
  proof (cases "ss_region src")
    case None
    then show ?thesis using assms by (auto simp: source_holds_def disconnect_def connected_def)
  next
    case (Some r)
    then have "tr' = snd (region_release os r tr)" "ss_region src' = None" "\<not> connected src'"
      using assms by (auto simp: source_holds_def disconnect_def connected_def split_beta Let_def)
    then show ?thesis using assms(1) release_held [of tr r "held tr0" os] Some by (auto simp: source_holds_def)
  qed
  then show "source_holds tr0 src' tr'" "\<not> connected src'" by auto
qed

text \<open>The calls that change what a source holds, in any order; None when a \<^verbatim>\<open>connect\<close> does not return.\<close>

datatype lifetime_call = SourceConnect "attach_turn list" | SourceDisconnect RingControl

fun source_calls :: "os \<Rightarrow> (i32 \<Rightarrow> kill_result) \<Rightarrow> i32 \<Rightarrow> lifetime_call list \<Rightarrow> ShmPacketSource \<Rightarrow> trace \<Rightarrow> (ShmPacketSource \<times> trace) option" where
  "source_calls os kill me [] src tr = Some (src, tr)"
| "source_calls os kill me (SourceConnect turns # cs) src tr =
     (case connect os kill me turns src tr of None \<Rightarrow> None | Some ((res, src), tr) \<Rightarrow> source_calls os kill me cs src tr)"
| "source_calls os kill me (SourceDisconnect control # cs) src tr =
     (let ((src, control), tr) = disconnect os me src control tr in source_calls os kill me cs src tr)"

lemma source_calls_hold:
  "source_holds tr0 src tr \<Longrightarrow> source_calls os kill me cs src tr = Some (src', tr') \<Longrightarrow> source_holds tr0 src' tr'"
proof (induction os kill me cs src tr rule: source_calls.induct)
  case (2 os kill me turns cs src tr)
  then show ?case using connect_holds(1) [OF "2.prems"(1)] by (auto split: option.splits)
next
  case (3 os kill me control cs src tr)
  obtain src1 control1 tr1 where d: "disconnect os me src control tr = ((src1, control1), tr1)" by (metis surj_pair)
  then show ?case using 3 disconnect_holds(1) [OF "3.prems"(1) d] by simp
qed simp

lemma source_drop_held:
  assumes "source_holds tr0 src tr"
  shows "held (snd (ShmPacketSource_drop os me src control tr)) = held tr0"
proof -
  obtain src1 control1 tr1 where d: "disconnect os me src control tr = ((src1, control1), tr1)" by (metis surj_pair)
  from disconnect_holds [OF assms d] have "ss_region src1 = None" "held tr1 = held tr0"
    by (auto simp: source_holds_def split: option.splits)
  then show ?thesis by (simp add: ShmPacketSource_drop_def d)
qed

section \<open>The sink\<close>

lemma make_region_held:
  assumes "make_region os kill me name capacity existing tr = Some (res, tr')"
  shows "case res of
      Inl e \<Rightarrow> held tr' \<in> {held tr, unnamed name (held tr)}
    | Inr r \<Rightarrow> mr_owner r \<and> mr_name r = name \<and> length (ranges r) = 2 \<and>
        held tr' = with_ranges (ranges r) ((unnamed name (held tr))\<lparr>re_names := name # re_names (unnamed name (held tr))\<rparr>)"
proof -
  obtain page tr1 where page: "page_size os tr = (page, tr1)" by fastforce
  have h1: "held tr1 = held tr" using page_size_held(1) [of os tr] page by simp
  consider e where "res = Inl e" "held tr' = held tr" | cap where "create os name cap tr1 = (res, tr')"
    using assms page h1 by (auto simp: make_region_def split: option.splits sum.splits)
  then show ?thesis
  proof cases
    case 2
    then show ?thesis
      using create_held [OF 2] h1 by (auto simp: region_fields_def mirrored_def ranges_def split: sum.splits)
  qed simp
qed

lemma replace_region_held:
  assumes "replace_region os memory kill me name capacity tr = Some (res, tr')"
  shows "re_fds (held tr') = re_fds (held tr)" and
    "case res of
      Inl e \<Rightarrow> mset (re_mapped (held tr')) = mset (re_mapped (held tr)) \<and>
        re_names (held tr') \<in> {re_names (held tr), filter (\<lambda>n. n \<noteq> name) (re_names (held tr))}
    | Inr r \<Rightarrow> mset (re_mapped (held tr')) = mset (ranges r) + mset (re_mapped (held tr)) \<and> mr_owner r \<and> mr_name r = name \<and>
        length (ranges r) = 2 \<and> re_names (held tr') = name # filter (\<lambda>n. n \<noteq> name) (re_names (held tr))"
proof -
  obtain opened tr1 where opened: "try_open os name tr = (opened, tr1)" by fastforce
  define existing where "existing = (case opened of Inl e \<Rightarrow> None | Inr r \<Rightarrow> r)"
  define mapped where "mapped = (case existing of None \<Rightarrow> [] | Some r \<Rightarrow> ranges r)"
  have h1: "held tr1 = with_ranges mapped (held tr)" "existing = Some r \<Longrightarrow> \<not> mr_owner r" for r
    using try_open_held [OF opened] opened_region(1,2) [of os name tr _ tr1] opened
    by (auto simp: existing_def mapped_def with_ranges_def split: sum.splits option.splits)
  obtain tr2 where y: "tr' = snd (leave_scope os existing (res, tr2))"
    and make: "make_region os kill me name capacity (map_option memory existing) tr1 = Some (res, tr2)"
  proof -
    obtain x where x: "make_region os kill me name capacity (map_option memory existing) tr1 = Some x"
      "leave_scope os existing x = (res, tr')"
      using assms by (auto simp: replace_region_def opened existing_def [symmetric] Let_def)
    then have "x = (res, snd x)" using leave_scope_simps(3) [of os existing x] by (metis fst_conv prod.collapse)
    then show thesis using that [of "snd x"] x by (metis snd_conv)
  qed
  note inner = make_region_held [OF make]
  have leave: "re_fds (held tr') = re_fds (held tr2)" "mset (re_mapped (held tr')) = mset (re_mapped (held tr2)) - mset mapped"
    "re_names (held tr') = re_names (held tr2)"
    using h1(2) by (auto simp: y mapped_def release_effect leave_scope_def split: option.splits)
  show "re_fds (held tr') = re_fds (held tr)"
    using inner h1(1) by (auto simp: leave with_ranges_def unnamed_def split: sum.splits)
  show "case res of
      Inl e \<Rightarrow> mset (re_mapped (held tr')) = mset (re_mapped (held tr)) \<and>
        re_names (held tr') \<in> {re_names (held tr), filter (\<lambda>n. n \<noteq> name) (re_names (held tr))}
    | Inr r \<Rightarrow> mset (re_mapped (held tr')) = mset (ranges r) + mset (re_mapped (held tr)) \<and> mr_owner r \<and> mr_name r = name \<and>
        length (ranges r) = 2 \<and> re_names (held tr') = name # filter (\<lambda>n. n \<noteq> name) (re_names (held tr))"
    using inner h1(1) by (auto simp: leave with_ranges_def unnamed_def split: sum.splits)
qed

text \<open>A sink from its constructor to its destructor: afterwards only the name is gone.\<close>

lemma sink_lifetime:
  assumes "ShmPacketSink_new os memory kill me name capacity tr = Some (res, tr')"
  shows "case res of
      Inl e \<Rightarrow> re_fds (held tr') = re_fds (held tr) \<and> mset (re_mapped (held tr')) = mset (re_mapped (held tr)) \<and>
        re_names (held tr') \<in> {re_names (held tr), filter (\<lambda>n. n \<noteq> name) (re_names (held tr))}
    | Inr sink \<Rightarrow> name \<in> set (re_names (held tr')) \<and>
        (\<forall>control later. held later = held tr' \<longrightarrow>
           (let final = held (snd (ShmPacketSink_drop os (sink\<lparr>sk_control := control\<rparr>) later))
            in re_fds final = re_fds (held tr) \<and> mset (re_mapped final) = mset (re_mapped (held tr)) \<and>
               re_names final = filter (\<lambda>n. n \<noteq> name) (re_names (held tr))))"
proof -
  obtain r where r: "replace_region os memory kill me name capacity tr = Some (r, tr')"
    "case r of Inl e \<Rightarrow> res = Inl e | Inr region \<Rightarrow> \<exists>sink. res = Inr sink \<and> sk_region sink = region"
    using assms by (auto simp: ShmPacketSink_new_def Let_def split: option.splits sum.splits)
  note held = replace_region_held [OF r(1)]
  show ?thesis
  proof (cases r)
    case (Inl e)
    then show ?thesis using r(2) held by simp
  next
    case (Inr region)
    then obtain sink where sink: "res = Inr sink" "sk_region sink = region" using r(2) by auto
    have "let final = held (snd (ShmPacketSink_drop os (sink\<lparr>sk_control := control\<rparr>) later))
        in re_fds final = re_fds (held tr) \<and> mset (re_mapped final) = mset (re_mapped (held tr)) \<and>
           re_names final = filter (\<lambda>n. n \<noteq> name) (re_names (held tr))" if "held later = held tr'" for control later
    proof -
      obtain region' later' where unlink: "region_unlink os region later = (region', later')" by fastforce
      then have "ranges region' = ranges region" "\<not> mr_owner region'" "held later' = unnamed name (held tr')"
        using held(2) Inr that by (auto simp: region_unlink_def sys_eq unnamed_def split: if_splits)
      then show ?thesis
        using held Inr sink(2) unlink by (simp add: ShmPacketSink_drop_def Let_def release_effect unnamed_def)
    qed
    then show ?thesis using held Inr sink(1) by (simp add: Let_def)
  qed
qed

text \<open>The capacity of a new region; the constructor returns for page sizes that are powers of two.\<close>

definition pages_are_powers :: "os \<Rightarrow> bool" where
  "pages_are_powers os \<longleftrightarrow> (\<forall>tr n. os tr SysConfPageSize = RetVal n \<longrightarrow> (\<exists>p \<le> 63. n = 2 ^ p))"

lemma make_region_new:
  assumes "pages_are_powers os" "other_producer kill me existing = None"
  shows "\<exists>res tr'. make_region os kill me name requested existing tr = Some (res, tr') \<and>
    (case res of
       Inl e \<Rightarrow> 2 ^ 63 < unat requested \<or> (\<exists>t. fst (page_size os t) = Inl e) \<or> (\<exists>cap t. fst (create os name cap t) = Inl e)
     | Inr r \<Rightarrow> (\<exists>k \<le> 63. mr_data_bytes r = 2 ^ k) \<and> requested \<le> mr_data_bytes r)"
proof (cases "fst (page_size os tr)")
  case (Inl e)
  then have "\<exists>t. fst (page_size os t) = Inl e" by blast
  then show ?thesis using Inl assms(2) by (cases "page_size os tr") (auto simp: make_region_def)
next
  case (Inr page)
  obtain tr1 where page: "page_size os tr = (Inr page, tr1)" using Inr by (metis prod.collapse)
  then obtain p where p: "p \<le> 63" "page = 2 ^ p"
    using assms(1) by (auto simp: pages_are_powers_def page_size_def sys_eq Let_def split: sysret.splits if_splits)
  show ?thesis
  proof (cases "unat requested \<le> 2 ^ 63")
    case False
    then show ?thesis
      using normalize_loop_power [OF p(1), of requested] assms(2) page p(2) by (auto simp: make_region_def normalize_capacity_def)
  next
    case True
    then obtain k where k: "k \<le> 63" "normalize_capacity page requested = Some (Inr (2 ^ k))" "unat requested \<le> 2 ^ k"
      using normalize_loop_power [OF p(1), of requested] p(2) by (auto simp: normalize_capacity_def)
    obtain res tr2 where created: "create os name (2 ^ k) tr1 = (res, tr2)" by fastforce
    have "requested \<le> 2 ^ k" using k by (simp add: word_le_nat_alt unat_two_power)
    moreover have "make_region os kill me name requested existing tr = Some (res, tr2)"
      using assms(2) page k(2) created by (simp add: make_region_def)
    moreover have "\<exists>cap t. fst (create os name cap t) = Inl e" if "res = Inl e" for e using created that by (metis fst_conv)
    ultimately show ?thesis
      using create_held [OF created] k(1) by (auto simp: region_fields_def split: sum.splits)
  qed
qed

section \<open>Properties\<close>

text \<open>
  C21: a consumer holds a region exactly while it is connected: after any sequence of \<^verbatim>\<open>connect\<close> and
  \<^verbatim>\<open>disconnect\<close> calls, whatever the system calls return, whatever a mapped region contains and whichever
  attempts to attach fail, are refused or throw, a source that is not connected holds nothing, a
  connected one exactly the two ranges of its region, which it does not own, and the destructor
  gives everything back; no name disappears.
\<close>

theorem source_holds_its_region:
  assumes "source_calls os kill me cs (ShmPacketSource_new name poll) tr0 = Some (src, tr)"
  shows "(case ss_region src of
       None \<Rightarrow> \<not> connected src \<and> held tr = held tr0
     | Some r \<Rightarrow> connected src \<and> \<not> mr_owner r \<and> length (ranges r) = 2 \<and>
         held tr = (held tr0)\<lparr>re_mapped := ranges r @ re_mapped (held tr0)\<rparr>) \<and>
     held (snd (ShmPacketSource_drop os me src control tr)) = held tr0"
proof -
  have "source_holds tr0 (ShmPacketSource_new name poll) tr0"
    by (simp add: source_holds_def ShmPacketSource_new_def connected_def)
  from source_calls_hold [OF this assms] show ?thesis
    using source_drop_held [of tr0 src tr] by (simp add: source_holds_def with_ranges_def cong: option.case_cong)
qed

definition demo_attach :: attach_turn where
  "demo_attach = \<lparr>at_stop = False, at_memory = (\<lambda>r. initialize_ring_control RingControl_zero 8192 9),
     at_control = initialize_ring_control RingControl_zero 8192 9, at_head_load = 0\<rparr>"

theorem source_holds_its_region_witness:
  "\<exists>src tr. source_calls kind_os (\<lambda>pid. KillOk) 5 [SourceConnect [demo_attach]] (ShmPacketSource_new ''/ring'' 100) [] = Some (src, tr) \<and>
     connected src \<and> held (snd (ShmPacketSource_drop kind_os 5 src RingControl_zero tr)) = no_resources"
proof -
  let ?run = "source_calls kind_os (\<lambda>pid. KillOk) 5 [SourceConnect [demo_attach]] (ShmPacketSource_new ''/ring'' 100) []"
  have "case ?run of Some (src, tr) \<Rightarrow> connected src | None \<Rightarrow> False" by code_simp
  then obtain src tr where run: "?run = Some (src, tr)" "connected src" by (auto split: option.splits)
  from source_holds_its_region [OF run(1)] run show ?thesis by auto
qed

text \<open>The name holds a ready ring of another live process.\<close>

definition ring_in_use :: "memory \<Rightarrow> (i32 \<Rightarrow> kill_result) \<Rightarrow> i32 \<Rightarrow> MirroredShmRegion option result \<Rightarrow> bool" where
  "ring_in_use memory kill me opened \<longleftrightarrow> (\<exists>r. opened = Inr (Some r) \<and> ring_control_ready (memory r) \<and>
     process_alive kill (rc_producer_pid (memory r)) \<and> rc_producer_pid (memory r) \<noteq> me)"

lemma fresh_control_ready:
  assumes "k \<le> 63"
  shows "ring_control_ready (initialize_ring_control control (2 ^ k) pid)"
proof -
  have "\<exists>j<64. (2 ^ k :: u64) = 2 ^ j" using assms by (intro exI [of _ k]) simp
  then show ?thesis using power_of_two_iff [of "2 ^ k"] by (simp add: ring_control_ready_def initialize_ring_control_def)
qed

text \<open>
  C40: a second producer is refused: the sink's constructor returns for every system with a page size
  that is a power of two, and fails with the "another producer" error exactly when the name holds a
  ready ring of another live process, which it leaves alone. A leftover of a dead producer, an
  unreadable object or one's own ring is replaced: the ring of a new sink is ready, nobody consumes
  it yet, and its capacity is the size of the mapped data area and at least the requested one. The
  only other errors are those of creating the region and of a request above \<open>2\<^sup>6\<^sup>3\<close>.
\<close>

theorem sink_creation:
  assumes "pages_are_powers os"
  shows "\<exists>res tr'. ShmPacketSink_new os memory kill me name requested tr = Some (res, tr') \<and>
    (if ring_in_use memory kill me (fst (try_open os name tr)) then (\<exists>msg. res = Inl (RuntimeError msg)) \<and> re_names (held tr') = re_names (held tr)
     else case res of
       Inl e \<Rightarrow> 2 ^ 63 < unat requested \<or> (\<exists>t. fst (page_size os t) = Inl e) \<or> (\<exists>cap t. fst (create os name cap t) = Inl e)
     | Inr sink \<Rightarrow> ring_control_ready (sk_control sink) \<and> rc_producer_pid (sk_control sink) = me \<and>
         rc_consumer_pid (sk_control sink) = 0 \<and> rc_capacity (sk_control sink) = mr_data_bytes (sk_region sink) \<and>
         requested \<le> mr_data_bytes (sk_region sink))"
proof -
  obtain opened tr1 where opened: "try_open os name tr = (opened, tr1)" by fastforce
  define existing where "existing = (case opened of Inl e \<Rightarrow> None | Inr r \<Rightarrow> r)"
  have new: "replace_region os memory kill me name requested tr =
      map_option (leave_scope os existing) (make_region os kill me name requested (map_option memory existing) tr1)"
    by (simp add: replace_region_def opened existing_def Let_def)
  show ?thesis
  proof (cases "other_producer kill me (map_option memory existing)")
    case (Some pid)
    then obtain r where r: "existing = Some r" "opened = Inr (Some r)" and refused: "ring_in_use memory kill me opened"
      using opened by (auto simp: other_producer_def existing_def ring_in_use_def Let_def split: option.splits sum.splits if_splits)
    obtain msg where "make_region os kill me name requested (map_option memory existing) tr1 = Some (Inl (RuntimeError msg), tr1)"
      using Some by (simp add: make_region_def)
    then have "ShmPacketSink_new os memory kill me name requested tr = Some (Inl (RuntimeError msg), snd (region_release os r tr1))"
      by (simp add: ShmPacketSink_new_def new r(1))
    moreover have "held (snd (region_release os r tr1)) = held tr" using opened_region(5) opened r(2) by blast
    ultimately show ?thesis using refused opened by auto
  next
    case None
    then have free: "\<not> ring_in_use memory kill me opened"
      using opened by (auto simp: other_producer_def existing_def ring_in_use_def Let_def split: option.splits sum.splits if_splits)
    obtain res tr2 where made: "make_region os kill me name requested (map_option memory existing) tr1 = Some (res, tr2)" and
      out: "case res of
          Inl e \<Rightarrow> 2 ^ 63 < unat requested \<or> (\<exists>t. fst (page_size os t) = Inl e) \<or> (\<exists>cap t. fst (create os name cap t) = Inl e)
        | Inr r \<Rightarrow> (\<exists>k \<le> 63. mr_data_bytes r = 2 ^ k) \<and> requested \<le> mr_data_bytes r"
      using make_region_new [OF assms(1) None] by blast
    have res: "ShmPacketSink_new os memory kill me name requested tr = Some (case res of Inl e \<Rightarrow> Inl e
        | Inr r \<Rightarrow> (let control = initialize_ring_control RingControl_zero (mr_data_bytes r) me
            in Inr \<lparr>sk_region = r, sk_control = control, sk_ring = RingProducer_new control (rc_tail control)\<rparr>),
        snd (leave_scope os existing (res, tr2)))"
      using leave_scope_simps(3) [of os existing "(res, tr2)"]
      by (cases "leave_scope os existing (res, tr2)") (simp add: ShmPacketSink_new_def new made Let_def split: sum.split)
    show ?thesis
      using free opened out fresh_control_ready unfolding res
      by (auto simp: Let_def initialize_ring_control_def split: sum.splits)
  qed
qed

theorem sink_creation_witness:
  "\<exists>msg tr. ShmPacketSink_new kind_os (\<lambda>r. initialize_ring_control RingControl_zero 8192 9) (\<lambda>pid. KillOk) 5 ''/ring'' 8192 [] =
     Some (Inl (RuntimeError msg), tr) \<and> re_names (held tr) = []"
proof -
  have pages: "pages_are_powers kind_os"
    by (auto simp: pages_are_powers_def kind_os_def intro!: exI [of _ 12])
  have "case fst (try_open kind_os ''/ring'' []) of Inr (Some r) \<Rightarrow> True | _ \<Rightarrow> False" by code_simp
  then obtain r where r: "fst (try_open kind_os ''/ring'' []) = Inr (Some r)" by (auto split: sum.splits option.splits)
  have "ring_control_ready (initialize_ring_control RingControl_zero 8192 9)" by code_simp
  then have "ring_in_use (\<lambda>r. initialize_ring_control RingControl_zero 8192 9) (\<lambda>pid. KillOk) 5 (fst (try_open kind_os ''/ring'' []))"
    by (simp add: ring_in_use_def r process_alive_def) (simp add: initialize_ring_control_def)
  then show ?thesis
    using sink_creation [OF pages, of "\<lambda>r. initialize_ring_control RingControl_zero 8192 9" "\<lambda>pid. KillOk" 5 "''/ring''" 8192 "[]"]
    by (auto simp: no_resources_def)
qed

end
