(* ===== verification/Ring_Owners.thy ===== *)
theory Ring_Owners
  imports Transport_Lifetime
begin

text \<open>
  Who consumes a ring: any number of processes that start, attach, detach and die around one control
  block, in any interleaving, each attempt and each detach being the code's own \<^verbatim>\<open>try_attach\<close> and
  \<^verbatim>\<open>disconnect\<close>. An attempt is three steps: it loads the control block, asks the system whether the
  recorded consumer lives, and exchanges the consumer's PID; the result of the last one is computed by
  \<^term>\<open>try_attach\<close> from the values loaded, the answers got and the control block at that time. What
  the load returns is arbitrary, so a value that is out of date is covered. At most one live process
  is attached at any time. This rests on two facts about PIDs: the system does not report a live
  process as missing, and it does not give the PID of a dead consumer to a new process between
  another attempt's check of that PID and its exchange. The second is an assumption the code makes and
  cannot check: if it fails, two processes can be attached. A process has one source, as the
  consumer program has.
\<close>

section \<open>Processes around a ring\<close>

record owners =
  ow_control :: RingControl
  ow_alive :: "i32 set"
  ow_source :: "i32 \<Rightarrow> ShmPacketSource"
  ow_seen :: "i32 \<Rightarrow> RingControl option"
  ow_answers :: "i32 \<Rightarrow> (i32 \<Rightarrow> kill_result) option"

definition attached :: "owners \<Rightarrow> i32 set" where
  "attached s = {p \<in> ow_alive s. connected (ow_source s p)}"

text \<open>Process \<open>q\<close> has loaded the PID \<open>p\<close> and been told that no such process lives; its exchange is still to come.\<close>

definition found_dead :: "owners \<Rightarrow> i32 \<Rightarrow> i32 \<Rightarrow> bool" where
  "found_dead s q p \<longleftrightarrow> (\<exists>c kill. ow_seen s q = Some c \<and> ow_answers s q = Some kill \<and> rc_consumer_pid c = p \<and> \<not> process_alive kill p)"

text \<open>What an attempt meets that has seen \<open>c\<close>, when the control block is \<open>control\<close>.\<close>

definition attempt_turn :: "RingControl \<Rightarrow> RingControl \<Rightarrow> u64 \<Rightarrow> attach_turn" where
  "attempt_turn c control head_load = \<lparr>at_stop = False, at_memory = \<lambda>_. c, at_control = control, at_head_load = head_load\<rparr>"

inductive owner_step :: "owners \<Rightarrow> owners \<Rightarrow> bool" where
  own_start: "0 < sint p \<Longrightarrow> p \<notin> ow_alive s \<Longrightarrow> \<forall>q. \<not> found_dead s q p \<Longrightarrow>
    owner_step s (s\<lparr>ow_alive := insert p (ow_alive s), ow_source := (ow_source s)(p := ShmPacketSource_new name poll),
      ow_seen := (ow_seen s)(p := None), ow_answers := (ow_answers s)(p := None)\<rparr>)"
| own_load: "p \<in> ow_alive s \<Longrightarrow> \<not> connected (ow_source s p) \<Longrightarrow>
    owner_step s (s\<lparr>ow_seen := (ow_seen s)(p := Some c), ow_answers := (ow_answers s)(p := None)\<rparr>)"
| own_check: "p \<in> ow_alive s \<Longrightarrow> ow_seen s p = Some c \<Longrightarrow>
    rc_consumer_pid c \<in> ow_alive s \<longrightarrow> kill (rc_consumer_pid c) \<noteq> KillError \<Longrightarrow>
    owner_step s (s\<lparr>ow_answers := (ow_answers s)(p := Some kill)\<rparr>)"
| own_exchange: "p \<in> ow_alive s \<Longrightarrow> ow_seen s p = Some c \<Longrightarrow> ow_answers s p = Some kill \<Longrightarrow>
    try_attach os kill p (attempt_turn c (ow_control s) head_load) (ow_source s p) tr = ((res, src, control), tr') \<Longrightarrow>
    owner_step s (s\<lparr>ow_control := control, ow_source := (ow_source s)(p := src),
      ow_seen := (ow_seen s)(p := None), ow_answers := (ow_answers s)(p := None)\<rparr>)"
| own_detach: "p \<in> ow_alive s \<Longrightarrow> disconnect os p (ow_source s p) (ow_control s) tr = ((src, control), tr') \<Longrightarrow>
    owner_step s (s\<lparr>ow_control := control, ow_source := (ow_source s)(p := src)\<rparr>)"
| own_die: "owner_step s (s\<lparr>ow_alive := ow_alive s - {p}, ow_seen := (ow_seen s)(p := None), ow_answers := (ow_answers s)(p := None)\<rparr>)"
| own_stream: "rc_consumer_pid control = rc_consumer_pid (ow_control s) \<Longrightarrow> (connected src \<longleftrightarrow> connected (ow_source s p)) \<Longrightarrow>
    owner_step s (s\<lparr>ow_control := control, ow_source := (ow_source s)(p := src)\<rparr>)"

inductive_cases owner_stepE: "owner_step s t"

text \<open>\<open>own_stream\<close> covers what both ends do to the control block of an attached ring.\<close>

lemma stream_keeps_owner:
  "rc_consumer_pid (snd (RingConsumer_release c control)) = rc_consumer_pid control"
  "rc_consumer_pid (control\<lparr>rc_head := h\<rparr>) = rc_consumer_pid control"
  "rc_consumer_pid (ShmPacketSink_finish control) = rc_consumer_pid control"
  by (simp_all add: RingConsumer_release_def ShmPacketSink_finish_def)

section \<open>What the two operations do to the owner\<close>

lemma process_alive_iff: "process_alive kill p \<longleftrightarrow> 0 < sint p \<and> kill p \<noteq> KillError"
  by (cases "kill p") (auto simp: process_alive_def)

lemma try_attach_owner:
  assumes "try_attach os kill p t src tr = ((res, src', control), tr')"
  shows "(res \<noteq> Inr True \<and> src' = src \<and> control = at_control t) \<or>
    (res = Inr True \<and> connected src' \<and> control = (at_control t)\<lparr>rc_consumer_pid := p\<rparr> \<and>
       (\<exists>r. rc_consumer_pid (at_memory t r) = rc_consumer_pid (at_control t)) \<and>
       (rc_consumer_pid (at_control t) = 0 \<or> rc_consumer_pid (at_control t) = p \<or> \<not> process_alive kill (rc_consumer_pid (at_control t))))"
  using assms
  by (auto simp: try_attach_def attach_check_of_def Let_def connected_def split_beta leave_scope_def
      split: prod.splits sum.splits option.splits attach_check.splits if_splits)

lemma disconnect_owner:
  assumes "disconnect os p src control tr = ((src', control'), tr')"
  shows "\<not> connected src'"
    and "rc_consumer_pid control' = rc_consumer_pid control \<or> (rc_consumer_pid control = p \<and> rc_consumer_pid control' = 0)"
  using assms stream_keeps_owner(1)
  by (auto simp: disconnect_def connected_def Let_def split_beta leave_scope_def split: prod.splits option.splits if_splits)

section \<open>One consumer at a time\<close>

text \<open>
  A live attached process is the recorded consumer, and no pending attempt holds a check that found
  a process dead which is alive.
\<close>

definition owners_inv :: "owners \<Rightarrow> bool" where
  "owners_inv s \<longleftrightarrow> (\<forall>p \<in> attached s. rc_consumer_pid (ow_control s) = p) \<and> (\<forall>p \<in> ow_alive s. 0 < sint p) \<and>
     (\<forall>q. \<forall>p \<in> ow_alive s. \<not> found_dead s q p)"

lemma owners_invD:
  assumes "owners_inv s" "p \<in> ow_alive s"
  shows "connected (ow_source s p) \<Longrightarrow> rc_consumer_pid (ow_control s) = p" "0 < sint p" "\<not> found_dead s q p"
  using assms by (auto simp: owners_inv_def attached_def)

text \<open>An exchange that succeeds finds no live process attached but its own.\<close>

lemma exchange_owner:
  assumes inv: "owners_inv s" and p: "ow_seen s p = Some c" "ow_answers s p = Some kill"
    and run: "try_attach os kill p (attempt_turn c (ow_control s) h) src tr = ((res, src', control), tr')"
  shows "(res \<noteq> Inr True \<and> src' = src \<and> control = ow_control s) \<or>
    (res = Inr True \<and> connected src' \<and> rc_consumer_pid control = p \<and> attached s \<subseteq> {p})"
proof -
  let ?e = "rc_consumer_pid c"
  have "attached s \<subseteq> {p}" if e: "rc_consumer_pid (ow_control s) = ?e" "?e = 0 \<or> ?e = p \<or> \<not> process_alive kill ?e"
  proof
    fix q assume q: "q \<in> attached s"
    then have alive: "q \<in> ow_alive s" "?e = q" using owners_invD(1) [OF inv] e(1) by (auto simp: attached_def)
    then have "q \<noteq> 0" "process_alive kill q"
      using owners_invD(2) [OF inv alive(1)] owners_invD(3) [OF inv alive(1), of p] p by (auto simp: found_dead_def)
    with e(2) alive(2) show "q \<in> {p}" by auto
  qed
  then show ?thesis
    using try_attach_owner [OF run] unfolding attempt_turn_def attach_turn.simps by auto
qed

lemma owner_step_inv:
  assumes "owner_step s t" "owners_inv s"
  shows "owners_inv t"
  using assms
proof cases
  case (own_start p name poll)
  then show ?thesis using assms(2)
    by (auto simp: owners_inv_def attached_def found_dead_def ShmPacketSource_new_def connected_def)
next
  case (own_load p c)
  then show ?thesis using assms(2) by (auto simp: owners_inv_def attached_def found_dead_def)
next
  case (own_check p c kill)
  have "process_alive kill (rc_consumer_pid c)" if "rc_consumer_pid c \<in> ow_alive s"
    using own_check that owners_invD(2) [OF assms(2)] by (simp add: process_alive_iff)
  then show ?thesis using assms(2) own_check by (auto simp: owners_inv_def attached_def found_dead_def)
next
  case (own_exchange p c kill os h tr res src control tr')
  from exchange_owner [OF assms(2) own_exchange(3,4,5)] show ?thesis
    using assms(2) own_exchange(1,2) by (auto simp: owners_inv_def attached_def found_dead_def)
next
  case (own_detach p os tr src control tr')
  from disconnect_owner [OF own_detach(3)] show ?thesis
    using assms(2) own_detach(1,2) by (auto simp: owners_inv_def attached_def found_dead_def)
next
  case (own_die p)
  then show ?thesis using assms(2) by (auto simp: owners_inv_def attached_def found_dead_def)
next
  case (own_stream control src p)
  then show ?thesis using assms(2) by (auto simp: owners_inv_def attached_def found_dead_def)
qed

lemma reachable_owners_inv:
  assumes "ow_alive s = {}" "owner_step\<^sup>*\<^sup>* s t"
  shows "owners_inv t"
  using assms(2) by (induction rule: rtranclp_induct) (use assms(1) owner_step_inv in \<open>auto simp: owners_inv_def attached_def\<close>)

section \<open>Properties\<close>

text \<open>
  C19: at most one live process consumes a ring: whatever processes start, attach with \<open>try_attach\<close>,
  detach with \<open>disconnect\<close> and die, in any interleaving of their loads, liveness checks and exchanges,
  an attached process is the one recorded in the control block, and an attempt of another process
  fails and leaves the control block as it is. It is assumed that the system reports no live process
  as missing and that the PID of a dead consumer is not given to a new process between an attempt's
  check of it and its exchange; the code cannot rule the latter out.
\<close>

theorem one_consumer_per_ring:
  assumes "ow_alive s = {}" "owner_step\<^sup>*\<^sup>* s t" "p \<in> attached t"
  shows "attached t = {p} \<and> rc_consumer_pid (ow_control t) = p \<and>
    (\<forall>q c kill os head_load tr. q \<noteq> p \<and> ow_seen t q = Some c \<and> ow_answers t q = Some kill \<longrightarrow>
       (case fst (try_attach os kill q (attempt_turn c (ow_control t) head_load) (ow_source t q) tr) of
          (res, src, control) \<Rightarrow> res \<noteq> Inr True \<and> src = ow_source t q \<and> control = ow_control t))"
proof -
  have inv: "owners_inv t" by (rule reachable_owners_inv [OF assms(1,2)])
  then have recorded: "rc_consumer_pid (ow_control t) = q" if "q \<in> attached t" for q
    using that by (simp add: owners_inv_def)
  then have "rc_consumer_pid (ow_control t) = p" using assms(3) by blast
  moreover have "attached t = {p}"
  proof
    show "attached t \<subseteq> {p}" using recorded recorded [OF assms(3)] by blast
  qed (use assms(3) in simp)
  moreover have "case fst (try_attach os kill q (attempt_turn c (ow_control t) h) (ow_source t q) tr) of
      (res, src, control) \<Rightarrow> res \<noteq> Inr True \<and> src = ow_source t q \<and> control = ow_control t"
    if q: "q \<noteq> p" "ow_seen t q = Some c" "ow_answers t q = Some kill" for q c kill os h tr
  proof -
    obtain res src control tr' where run: "try_attach os kill q (attempt_turn c (ow_control t) h) (ow_source t q) tr = ((res, src, control), tr')"
      by (metis prod.exhaust)
    from exchange_owner [OF inv q(2,3) run] have "res \<noteq> Inr True \<and> src = ow_source t q \<and> control = ow_control t"
      using assms(3) q(1) by blast
    then show ?thesis by (simp add: run)
  qed
  ultimately show ?thesis by simp
qed

definition demo_control :: RingControl where
  "demo_control = initialize_ring_control RingControl_zero 8192 9"

definition no_process :: owners where
  "no_process = \<lparr>ow_control = demo_control, ow_alive = {}, ow_source = \<lambda>_. ShmPacketSource_new ''/ring'' 100,
     ow_seen = \<lambda>_. None, ow_answers = \<lambda>_. None\<rparr>"

lemma demo_attaches:
  "\<exists>src control tr. try_attach kind_os (\<lambda>_. KillOk) 5 (attempt_turn demo_control demo_control 0) (ShmPacketSource_new ''/ring'' 100) []
     = ((Inr True, src, control), tr) \<and> connected src"
proof -
  let ?run = "try_attach kind_os (\<lambda>_. KillOk) 5 (attempt_turn demo_control demo_control 0) (ShmPacketSource_new ''/ring'' 100) []"
  have "fst (fst ?run) = Inr True \<and> connected (fst (snd (fst ?run)))" by code_simp
  then show ?thesis by (cases ?run) auto
qed

text \<open>Two processes see the ring free; process 5 attaches, and then process 6 fails and changes nothing.\<close>

theorem one_consumer_per_ring_witness:
  "\<exists>t. owner_step\<^sup>*\<^sup>* no_process t \<and> attached t = {5} \<and> rc_consumer_pid (ow_control t) = 5 \<and> 6 \<in> ow_alive t \<and>
     ow_seen t 6 = Some demo_control \<and>
     (case fst (try_attach kind_os (\<lambda>_. KillOk) 6 (attempt_turn demo_control (ow_control t) 0) (ow_source t 6) []) of
        (res, src, control) \<Rightarrow> res \<noteq> Inr True \<and> control = ow_control t)"
proof -
  define start where "start p s = s\<lparr>ow_alive := insert p (ow_alive s), ow_source := (ow_source s)(p := ShmPacketSource_new ''/ring'' 100),
    ow_seen := (ow_seen s)(p := None), ow_answers := (ow_answers s)(p := None)\<rparr>" for p and s :: owners
  define load where "load p s = s\<lparr>ow_seen := (ow_seen s)(p := Some demo_control), ow_answers := (ow_answers s)(p := None)\<rparr>" for p :: i32 and s :: owners
  define check where "check p s = s\<lparr>ow_answers := (ow_answers s)(p := Some (\<lambda>_. KillOk))\<rparr>" for p :: i32 and s :: owners
  obtain src control tr where run: "try_attach kind_os (\<lambda>_. KillOk) 5 (attempt_turn demo_control demo_control 0)
      (ShmPacketSource_new ''/ring'' 100) [] = ((Inr True, src, control), tr)" "connected src"
    using demo_attaches by blast
  define r where "r = check 6 (check 5 (load 6 (load 5 (start 6 (start 5 no_process)))))"
  define t where "t = r\<lparr>ow_control := control, ow_source := (ow_source r)(5 := src), ow_seen := (ow_seen r)(5 := None), ow_answers := (ow_answers r)(5 := None)\<rparr>"
  note defs = start_def load_def check_def no_process_def
  have new: "\<not> connected (ShmPacketSource_new n b)" for n b by (simp add: connected_def ShmPacketSource_new_def)
  have "owner_step\<^sup>*\<^sup>* no_process (start 5 no_process)"
    unfolding start_def by (rule r_into_rtranclp, rule own_start) (simp_all add: no_process_def found_dead_def)
  also have "owner_step\<^sup>*\<^sup>* \<dots> (start 6 (start 5 no_process))"
    unfolding start_def [of 6] by (rule r_into_rtranclp, rule own_start) (simp_all add: defs found_dead_def)
  also have "owner_step\<^sup>*\<^sup>* \<dots> (load 5 (start 6 (start 5 no_process)))"
    unfolding load_def by (rule r_into_rtranclp, rule own_load) (simp_all add: defs new)
  also have "owner_step\<^sup>*\<^sup>* \<dots> (load 6 (load 5 (start 6 (start 5 no_process))))"
    unfolding load_def [of 6] by (rule r_into_rtranclp, rule own_load) (simp_all add: defs new)
  also have "owner_step\<^sup>*\<^sup>* \<dots> (check 5 (load 6 (load 5 (start 6 (start 5 no_process)))))"
    unfolding check_def by (rule r_into_rtranclp, rule own_check [where c = demo_control]) (simp_all add: defs)
  also have "owner_step\<^sup>*\<^sup>* \<dots> r"
    unfolding r_def check_def [of 6] by (rule r_into_rtranclp, rule own_check [where c = demo_control]) (simp_all add: defs)
  also have "owner_step\<^sup>*\<^sup>* \<dots> t"
    unfolding t_def by (rule r_into_rtranclp, rule own_exchange [where c = demo_control and kill = "\<lambda>_. KillOk"])
      (use run in \<open>simp_all add: r_def defs\<close>)
  finally have steps: "owner_step\<^sup>*\<^sup>* no_process t" .
  have pending: "ow_alive no_process = {}" "5 \<in> attached t" "6 \<in> ow_alive t" "ow_seen t 6 = Some demo_control" "ow_answers t 6 = Some (\<lambda>_. KillOk)"
    using run(2) by (simp_all add: attached_def t_def r_def defs)
  have six: "(6 :: i32) \<noteq> 5" by simp
  note one = one_consumer_per_ring [OF pending(1) steps pending(2)]
  have all: "attached t = {5}" "rc_consumer_pid (ow_control t) = 5" by (rule one [THEN conjunct1], rule one [THEN conjunct2, THEN conjunct1])
  have "case fst (try_attach kind_os (\<lambda>_. KillOk) 6 (attempt_turn demo_control (ow_control t) 0) (ow_source t 6) []) of
       (res, src, control) \<Rightarrow> res \<noteq> Inr True \<and> src = ow_source t 6 \<and> control = ow_control t"
    by (rule one [THEN conjunct2, THEN conjunct2, THEN spec, THEN spec, THEN spec, THEN spec, THEN spec, THEN spec, THEN mp])
      (intro conjI six pending(4,5))
  then have "case fst (try_attach kind_os (\<lambda>_. KillOk) 6 (attempt_turn demo_control (ow_control t) 0) (ow_source t 6) []) of
       (res, src, control) \<Rightarrow> res \<noteq> Inr True \<and> control = ow_control t"
    by (simp add: split_beta)
  then show ?thesis by (intro exI [of _ t] conjI steps all pending(3,4))
qed

end
