(* ===== verification/Checksum.thy ===== *)
theory Checksum
  imports Pc_Prelude
begin

text \<open>
  The checksum component: \<^verbatim>\<open>common/src/checksum.cpp\<close> and
  \<^verbatim>\<open>common/include/pc/checksum.hpp\<close>. The slice-by-8 tables and loop, the hardware loops
  over the CPU's CRC instructions, the two \<^verbatim>\<open>IChecksum\<close> classes, the registry and the
  factory. The lemmas show that every implementation computes the bit-at-a-time CRC, that
  hashing is incremental, and that a change confined to four consecutive bytes always changes
  the checksum.
\<close>

section \<open>Tables and the slice-by-8 loop\<close>

definition crc_bit :: "u32 \<Rightarrow> u32 \<Rightarrow> u32" where
  "crc_bit polynomial crc =
     (if crc AND 1 \<noteq> 0 then polynomial XOR drop_bit 1 crc else drop_bit 1 crc)"

definition kSlices :: nat where
  "kSlices = 8"

type_synonym CrcTable = "u32 list list"

text \<open>
  \<^verbatim>\<open>table[0][i]\<close> is eight bit steps from \<open>i\<close>; \<^verbatim>\<open>table[slice][i]\<close> is computed from
  \<^verbatim>\<open>table[slice - 1][i]\<close>, column by column.
\<close>

definition crc_table_first :: "u32 \<Rightarrow> u32 list" where
  "crc_table_first polynomial = map (\<lambda>i. (crc_bit polynomial ^^ 8) (of_nat i)) [0..<256]"

definition crc_table_next :: "u32 list \<Rightarrow> u32 list \<Rightarrow> u32 list" where
  "crc_table_next first_row row = map (\<lambda>prev. drop_bit 8 prev XOR first_row ! unat (prev AND 0xFF)) row"

definition make_crc_table :: "u32 \<Rightarrow> CrcTable" where
  "make_crc_table polynomial =
     map (\<lambda>k. (crc_table_next (crc_table_first polynomial) ^^ k) (crc_table_first polynomial))
       [0..<kSlices]"

definition kCrc32Polynomial :: u32 where
  "kCrc32Polynomial = 0xEDB88320"

definition kCrc32cPolynomial :: u32 where
  "kCrc32cPolynomial = 0x82F63B78"

definition kCrc32Table :: CrcTable where
  "kCrc32Table = make_crc_table kCrc32Polynomial"

definition kCrc32cTable :: CrcTable where
  "kCrc32cTable = make_crc_table kCrc32cPolynomial"

definition load_le32 :: "bytes \<Rightarrow> u32" where
  "load_le32 p = ucast (p ! 0) OR push_bit 8 (ucast (p ! 1)) OR
     push_bit 16 (ucast (p ! 2)) OR push_bit 24 (ucast (p ! 3))"

text \<open>\<^verbatim>\<open>table[slice][index & 0xFF]\<close>.\<close>

definition crc_lookup :: "CrcTable \<Rightarrow> nat \<Rightarrow> u32 \<Rightarrow> u32" where
  "crc_lookup table k index = table ! k ! unat (index AND 0xFF)"

definition crc_block :: "CrcTable \<Rightarrow> u32 \<Rightarrow> bytes \<Rightarrow> u32" where
  "crc_block table crc p =
     (let one = load_le32 p XOR crc;
          two = load_le32 (drop 4 p)
      in crc_lookup table 0 (drop_bit 24 two) XOR crc_lookup table 1 (drop_bit 16 two) XOR
         crc_lookup table 2 (drop_bit 8 two) XOR crc_lookup table 3 two XOR
         crc_lookup table 4 (drop_bit 24 one) XOR crc_lookup table 5 (drop_bit 16 one) XOR
         crc_lookup table 6 (drop_bit 8 one) XOR crc_lookup table 7 one)"

definition crc_table_byte :: "CrcTable \<Rightarrow> u32 \<Rightarrow> u8 \<Rightarrow> u32" where
  "crc_table_byte table crc b = crc_lookup table 0 (crc XOR ucast b) XOR drop_bit 8 crc"

function crc_slice_by_8 :: "CrcTable \<Rightarrow> u32 \<Rightarrow> bytes \<Rightarrow> u32" where
  "crc_slice_by_8 table crc data =
     (if 8 \<le> length data then crc_slice_by_8 table (crc_block table crc data) (drop 8 data)
      else foldl (crc_table_byte table) crc data)"
  by pat_completeness auto
termination
  by (relation "measure (\<lambda>(table, crc, data). length data)") auto

declare crc_slice_by_8.simps [simp del]

section \<open>The hardware path\<close>

text \<open>
  What the code uses of the CPU and the compiler: the target the code is compiled for, the
  feature bits read at run time, and the CRC instructions. They are parameters; what the
  vendors document of the instructions is \<open>crc_instructions_documented\<close> below.
\<close>

datatype crc_target = Target_X86 | Target_Arm_Linux | Target_Arm_Apple | Target_Arm_Other | Target_Other

record crc_cpu =
  cpu_target :: crc_target
  cpu_supports_sse42 :: bool
  cpu_hwcap_crc32 :: bool
  mm_crc32_u64 :: "u64 \<Rightarrow> u64 \<Rightarrow> u64"
  mm_crc32_u8 :: "u32 \<Rightarrow> u8 \<Rightarrow> u32"
  arm_crc32cd :: "u32 \<Rightarrow> u64 \<Rightarrow> u32"
  arm_crc32cb :: "u32 \<Rightarrow> u8 \<Rightarrow> u32"

function crc32c_x86_words :: "crc_cpu \<Rightarrow> u64 \<Rightarrow> bytes \<Rightarrow> u64 \<times> bytes" where
  "crc32c_x86_words cpu wide data =
     (if 8 \<le> length data
      then crc32c_x86_words cpu (mm_crc32_u64 cpu wide (load_le (take 8 data))) (drop 8 data)
      else (wide, data))"
  by pat_completeness auto
termination
  by (relation "measure (\<lambda>(cpu, wide, data). length data)") auto

definition crc32c_hardware_x86 :: "crc_cpu \<Rightarrow> u32 \<Rightarrow> bytes \<Rightarrow> u32" where
  "crc32c_hardware_x86 cpu crc data =
     (let (wide, rest) = crc32c_x86_words cpu (ucast crc) data
      in foldl (mm_crc32_u8 cpu) (ucast wide) rest)"

function crc32c_hardware_arm :: "crc_cpu \<Rightarrow> u32 \<Rightarrow> bytes \<Rightarrow> u32" where
  "crc32c_hardware_arm cpu crc data =
     (if 8 \<le> length data
      then crc32c_hardware_arm cpu (arm_crc32cd cpu crc (load_le (take 8 data))) (drop 8 data)
      else foldl (arm_crc32cb cpu) crc data)"
  by pat_completeness auto
termination
  by (relation "measure (\<lambda>(cpu, crc, data). length data)") auto

declare crc32c_x86_words.simps [simp del] crc32c_hardware_arm.simps [simp del]

section \<open>The classes, the registry and the factory\<close>

text \<open>
  \<^verbatim>\<open>enum class ChecksumKind : std::uint8_t\<close>: any byte can be cast to it, as the validator
  does with the header field.
\<close>

type_synonym ChecksumKind = u8

definition ChecksumKind_Crc32 :: ChecksumKind where
  "ChecksumKind_Crc32 = 1"

definition ChecksumKind_Crc32c :: ChecksumKind where
  "ChecksumKind_Crc32c = 2"

text \<open>The virtual functions of \<^verbatim>\<open>IChecksum\<close>, as an object.\<close>

record IChecksum =
  ck_kind :: ChecksumKind
  ck_name :: string
  ck_begin :: u32
  ck_update :: "u32 \<Rightarrow> bytes \<Rightarrow> u32"
  ck_finish :: "u32 \<Rightarrow> u32"

definition ck_compute :: "IChecksum \<Rightarrow> bytes \<Rightarrow> u32" where
  "ck_compute c data = ck_finish c (ck_update c (ck_begin c) data)"

definition Crc32 :: IChecksum where
  "Crc32 = \<lparr>ck_kind = ChecksumKind_Crc32, ck_name = ''crc32 (software, slice-by-8)'',
     ck_begin = 0xFFFFFFFF, ck_update = crc_slice_by_8 kCrc32Table,
     ck_finish = (\<lambda>state. state XOR 0xFFFFFFFF)\<rparr>"

definition hardware_available :: "crc_cpu \<Rightarrow> bool" where
  "hardware_available cpu =
     (case cpu_target cpu of
        Target_X86 \<Rightarrow> cpu_supports_sse42 cpu
      | Target_Arm_Linux \<Rightarrow> cpu_hwcap_crc32 cpu
      | Target_Arm_Apple \<Rightarrow> True
      | Target_Arm_Other \<Rightarrow> False
      | Target_Other \<Rightarrow> False)"

definition Crc32c_update :: "crc_cpu \<Rightarrow> bool \<Rightarrow> u32 \<Rightarrow> bytes \<Rightarrow> u32" where
  "Crc32c_update cpu hardware state data =
     (if hardware \<and> cpu_target cpu = Target_X86 then crc32c_hardware_x86 cpu state data
      else if hardware \<and> cpu_target cpu \<noteq> Target_Other then crc32c_hardware_arm cpu state data
      else crc_slice_by_8 kCrc32cTable state data)"

definition Crc32c :: "crc_cpu \<Rightarrow> bool \<Rightarrow> IChecksum" where
  "Crc32c cpu allow_hardware =
     (let hardware = allow_hardware \<and> hardware_available cpu
      in \<lparr>ck_kind = ChecksumKind_Crc32c,
          ck_name = (if hardware then ''crc32c (hardware)'' else ''crc32c (software, slice-by-8)''),
          ck_begin = 0xFFFFFFFF, ck_update = Crc32c_update cpu hardware,
          ck_finish = (\<lambda>state. state XOR 0xFFFFFFFF)\<rparr>)"

definition ChecksumRegistry_find :: "crc_cpu \<Rightarrow> ChecksumKind \<Rightarrow> IChecksum option" where
  "ChecksumRegistry_find cpu kind =
     (if kind = ChecksumKind_Crc32 then Some Crc32
      else if kind = ChecksumKind_Crc32c then Some (Crc32c cpu True)
      else None)"

definition make_checksum :: "crc_cpu \<Rightarrow> string \<Rightarrow> IChecksum result" where
  "make_checksum cpu name =
     (if name = ''crc32'' then Inr Crc32
      else if name = ''crc32c'' then Inr (Crc32c cpu True)
      else Inl (InvalidArgument
        (''unknown checksum '' @ [CHR 0x27] @ name @ [CHR 0x27] @ '' (expected: crc32, crc32c)'')))"

section \<open>The reference: one bit at a time\<close>

text \<open>
  The reference the unit test compares against (\<^verbatim>\<open>tests/test_crc32.cpp\<close>): every byte is
  xored into the low end of the register and shifted out bit by bit.
\<close>

definition crc_byte :: "u32 \<Rightarrow> u32 \<Rightarrow> u8 \<Rightarrow> u32" where
  "crc_byte polynomial crc b = (crc_bit polynomial ^^ 8) (crc XOR ucast b)"

definition reference_crc :: "u32 \<Rightarrow> bytes \<Rightarrow> u32" where
  "reference_crc polynomial data = foldl (crc_byte polynomial) 0xFFFFFFFF data XOR 0xFFFFFFFF"

text \<open>
  The CRC instructions, as documented: the operand is divided bit by bit, least significant
  bit first, by the reflected Castagnoli polynomial; the 64-bit form of the x86 instruction
  uses the low half of its accumulator and clears the high half of the result.
\<close>

primrec crc_serial :: "u32 \<Rightarrow> nat \<Rightarrow> u32 \<Rightarrow> 'a::len word \<Rightarrow> u32" where
  "crc_serial polynomial 0 crc operand = crc"
| "crc_serial polynomial (Suc n) crc operand =
     crc_serial polynomial n (crc_bit polynomial (crc XOR of_bool (bit operand 0))) (drop_bit 1 operand)"

definition crc_instructions_documented :: "crc_cpu \<Rightarrow> bool" where
  "crc_instructions_documented cpu \<longleftrightarrow>
     (\<forall>wide operand. mm_crc32_u64 cpu wide operand
        = ucast (crc_serial kCrc32cPolynomial 64 (ucast wide) operand)) \<and>
     (\<forall>crc operand. mm_crc32_u8 cpu crc operand = crc_serial kCrc32cPolynomial 8 crc operand) \<and>
     (\<forall>crc operand. arm_crc32cd cpu crc operand = crc_serial kCrc32cPolynomial 64 crc operand) \<and>
     (\<forall>crc operand. arm_crc32cb cpu crc operand = crc_serial kCrc32cPolynomial 8 crc operand)"

section \<open>Linearity of the bit step\<close>

lemma crc_bit_alt: "crc_bit p c = (if bit c 0 then p else 0) XOR drop_bit 1 c"
  by (simp add: crc_bit_def and_one_eq bit_0 odd_iff_mod_2_eq_one)

lemma crc_bit_xor: "crc_bit p (a XOR b) = crc_bit p a XOR crc_bit p b"
  by (auto simp: crc_bit_alt bit_xor_iff drop_bit_xor xor.assoc xor.left_commute)

lemma crc_bits_xor: "(crc_bit p ^^ n) (a XOR b) = (crc_bit p ^^ n) a XOR (crc_bit p ^^ n) b"
  by (induction n) (simp_all add: crc_bit_xor)

lemma crc_bits_add: "(crc_bit p ^^ m) ((crc_bit p ^^ n) x) = (crc_bit p ^^ (m + n)) x"
  by (simp add: funpow_add)

text \<open>Shifting out zeros is a plain shift.\<close>

lemma crc_bits_shift:
  "take_bit n x = 0 \<Longrightarrow> (crc_bit p ^^ n) x = drop_bit n x"
proof (induction n)
  case 0
  show ?case by simp
next
  case (Suc n)
  have low: "bit x k = False" if "k < Suc n" for k
    using Suc.prems that by (metis bit_0_eq bit_take_bit_iff bot_apply bot_bool_def)
  have "take_bit n x = 0"
    by (rule bit_word_eqI) (simp add: bit_simps low)
  then have "(crc_bit p ^^ Suc n) x = crc_bit p (drop_bit n x)"
    by (simp add: Suc.IH)
  also have "\<dots> = drop_bit (Suc n) x"
    by (simp add: crc_bit_alt bit_drop_bit_eq low)
  finally show ?case .
qed

lemma crc_bits_push:
  fixes x :: u32
  assumes "take_bit 8 x = x" and "n \<le> 24"
  shows "(crc_bit p ^^ n) (push_bit n x) = x"
proof -
  have low: "k < 8" if "bit x k" for k
    using assms(1) that by (metis bit_take_bit_iff)
  have "drop_bit n (push_bit n x) = x"
    using assms(2) by (intro bit_word_eqI) (auto simp: bit_simps dest: low)
  then show ?thesis
    by (simp add: crc_bits_shift take_bit_push_bit)
qed

lemma crc_bit_inj:
  assumes "bit p 31"
  shows "inj (crc_bit p)"
proof (rule injI)
  fix a b assume eq: "crc_bit p a = crc_bit p b"
  have top: "bit (crc_bit p c) 31 = bit c 0" for c
    using assms bit_imp_le_length [of c 32] by (auto simp: crc_bit_alt bit_simps)
  have "bit a 0 = bit b 0"
    using eq top by metis
  with eq have "drop_bit 1 a = drop_bit 1 b"
    by (auto simp: crc_bit_alt split: if_splits)
  show "a = b"
  proof (rule bit_word_eqI)
    fix n assume "n < LENGTH(32)"
    show "bit a n = bit b n"
    proof (cases n)
      case 0 with \<open>bit a 0 = bit b 0\<close> show ?thesis by simp
    next
      case (Suc m)
      have "bit (drop_bit 1 a) m = bit (drop_bit 1 b) m"
        using \<open>drop_bit 1 a = drop_bit 1 b\<close> by simp
      then show ?thesis by (simp add: Suc bit_drop_bit_eq)
    qed
  qed
qed

lemma crc_bits_inj: "bit p 31 \<Longrightarrow> (crc_bit p ^^ n) x = (crc_bit p ^^ n) y \<Longrightarrow> x = y"
  by (induction n) (auto dest: crc_bit_inj [THEN injD])

section \<open>Four bytes at a time\<close>

lemma take_bit_8_ucast [simp]: "take_bit 8 (ucast (b :: u8) :: u32) = ucast b"
  by (rule bit_word_eqI) (auto simp: bit_simps dest: bit_imp_le_length)

lemma and_255_eq: "(x :: u32) AND 255 = take_bit 8 x"
  by (simp add: take_bit_eq_mask mask_eq_exp_minus_1)

lemma crc_byte_shifted:
  "n \<le> 24 \<Longrightarrow> crc_byte p ((crc_bit p ^^ n) x) b = (crc_bit p ^^ (8 + n)) (x XOR push_bit n (ucast b))"
  by (simp add: crc_byte_def crc_bits_xor crc_bits_push flip: crc_bits_add)

lemma load_le32_xor:
  "load_le32 p = ucast (p ! 0) XOR push_bit 8 (ucast (p ! 1)) XOR
     push_bit 16 (ucast (p ! 2)) XOR push_bit 24 (ucast (p ! 3))"
  by (rule bit_word_eqI) (auto simp: load_le32_def bit_simps dest: bit_imp_le_length)

lemma crc_four_bytes:
  "foldl (crc_byte p) c [a, b, d, e] = (crc_bit p ^^ 32) (c XOR load_le32 [a, b, d, e])"
proof -
  have "crc_byte p c a = (crc_bit p ^^ 8) (c XOR ucast a)"
    by (simp add: crc_byte_def)
  then show ?thesis
    by (simp add: crc_byte_shifted load_le32_xor xor.assoc)
qed

lemma crc_four_bytes_split:
  "(crc_bit p ^^ (32 + n)) w =
     (crc_bit p ^^ (8 + n)) (drop_bit 24 w AND 0xFF) XOR (crc_bit p ^^ (16 + n)) (drop_bit 16 w AND 0xFF) XOR
     (crc_bit p ^^ (24 + n)) (drop_bit 8 w AND 0xFF) XOR (crc_bit p ^^ (32 + n)) (w AND 0xFF)"
proof -
  have w: "w = push_bit 24 (take_bit 8 (drop_bit 24 w)) XOR push_bit 16 (take_bit 8 (drop_bit 16 w)) XOR
      push_bit 8 (take_bit 8 (drop_bit 8 w)) XOR take_bit 8 w"
  proof (rule bit_word_eqI)
    fix k assume "k < LENGTH(32)"
    consider "k < 8" | "8 \<le> k" "k < 16" | "16 \<le> k" "k < 24" | "24 \<le> k" by linarith
    then show "bit w k = bit (push_bit 24 (take_bit 8 (drop_bit 24 w)) XOR
        push_bit 16 (take_bit 8 (drop_bit 16 w)) XOR push_bit 8 (take_bit 8 (drop_bit 8 w)) XOR take_bit 8 w) k"
      using \<open>k < LENGTH(32)\<close> by cases (auto simp: bit_simps)
  qed
  have push: "(crc_bit p ^^ (32 + n)) (push_bit k (take_bit 8 x)) = (crc_bit p ^^ (32 + n - k)) (take_bit 8 x)"
    if "k \<le> 24" for k x
  proof -
    have "(crc_bit p ^^ (32 + n)) (push_bit k (take_bit 8 x))
        = (crc_bit p ^^ (32 + n - k)) ((crc_bit p ^^ k) (push_bit k (take_bit 8 x)))"
      using that by (simp add: crc_bits_add)
    then show ?thesis using that by (simp add: crc_bits_push)
  qed
  have "(crc_bit p ^^ (32 + n)) w = (crc_bit p ^^ (32 + n)) (push_bit 24 (take_bit 8 (drop_bit 24 w)) XOR
      push_bit 16 (take_bit 8 (drop_bit 16 w)) XOR push_bit 8 (take_bit 8 (drop_bit 8 w)) XOR take_bit 8 w)"
    by (subst (1) w) (rule refl)
  then show ?thesis
    by (simp add: crc_bits_xor push and_255_eq)
qed

section \<open>The tables\<close>

lemma crc_byte_table_step:
  "drop_bit 8 x XOR (crc_bit p ^^ 8) (x AND 0xFF) = (crc_bit p ^^ 8) x"
proof -
  have "x = push_bit 8 (drop_bit 8 x) XOR take_bit 8 x"
    by (rule bit_word_eqI) (auto simp: bit_simps)
  then have "(crc_bit p ^^ 8) x = (crc_bit p ^^ 8) (push_bit 8 (drop_bit 8 x)) XOR (crc_bit p ^^ 8) (take_bit 8 x)"
    by (metis crc_bits_xor)
  moreover have "(crc_bit p ^^ 8) (push_bit 8 (drop_bit 8 x)) = drop_bit 8 x"
  proof -
    have "drop_bit 8 (push_bit 8 (drop_bit 8 x)) = drop_bit 8 x"
      by (rule bit_word_eqI) (auto simp: bit_simps dest: bit_imp_le_length)
    then show ?thesis by (simp add: crc_bits_shift take_bit_push_bit)
  qed
  ultimately show ?thesis by (simp add: and_255_eq)
qed

lemma unat_and_255: "unat ((x :: u32) AND 255) < 256"
  by (simp add: and_255_eq take_bit_eq_mod unat_mod)

lemma crc_table_first_nth:
  "crc_table_first p ! unat (x AND 0xFF) = (crc_bit p ^^ 8) (x AND 0xFF)"
  using unat_and_255 [of x] by (simp add: crc_table_first_def)

lemma crc_table_rows:
  "(crc_table_next (crc_table_first p) ^^ k) (crc_table_first p)
     = map (\<lambda>i. (crc_bit p ^^ (8 * (k + 1))) (of_nat i)) [0..<256]"
proof (induction k)
  case 0
  show ?case by (simp add: crc_table_first_def)
next
  case (Suc k)
  have "crc_table_next (crc_table_first p) row = map (crc_bit p ^^ 8) row" for row
    by (simp add: crc_table_next_def crc_table_first_nth crc_byte_table_step)
  moreover have "(crc_bit p ^^ 8) ((crc_bit p ^^ (8 * (k + 1))) x) = (crc_bit p ^^ (8 * (Suc k + 1))) x" for x
    by (simp add: crc_bits_add)
  ultimately show ?case
    using Suc.IH by simp
qed

lemma crc_lookup_make_crc_table:
  "k < 8 \<Longrightarrow> crc_lookup (make_crc_table p) k x = (crc_bit p ^^ (8 * (k + 1))) (x AND 0xFF)"
  using unat_and_255 [of x]
  by (simp add: crc_lookup_def make_crc_table_def kSlices_def crc_table_rows del: funpow.simps)

lemma crc_table_byte_eq: "crc_table_byte (make_crc_table p) = crc_byte p"
proof (intro ext)
  fix c :: u32 and b :: u8
  have "drop_bit 8 (c XOR ucast b) = drop_bit 8 c"
    by (rule bit_word_eqI) (auto simp: bit_simps dest: bit_imp_le_length)
  then show "crc_table_byte (make_crc_table p) c b = crc_byte p c b"
    using crc_byte_table_step [of "c XOR ucast b" p]
    by (simp add: crc_table_byte_def crc_lookup_make_crc_table crc_byte_def xor.commute)
qed


lemma crc_block_eq:
  assumes "8 \<le> length d"
  shows "crc_block (make_crc_table p) c d = foldl (crc_byte p) c (take 8 d)"
proof -
  obtain b0 b1 b2 b3 b4 b5 b6 b7 rest where d: "d = b0 # b1 # b2 # b3 # b4 # b5 # b6 # b7 # rest"
    using assms by (auto simp: numeral_eq_Suc Suc_le_length_iff)
  let ?one = "c XOR load_le32 [b0, b1, b2, b3]" and ?two = "load_le32 [b4, b5, b6, b7]"
  have loads: "load_le32 d = load_le32 [b0, b1, b2, b3]" "load_le32 (drop 4 d) = load_le32 [b4, b5, b6, b7]"
    by (simp_all add: load_le32_def d)
  have "foldl (crc_byte p) c (take 8 d) = foldl (crc_byte p) (foldl (crc_byte p) c [b0, b1, b2, b3]) [b4, b5, b6, b7]"
    by (simp add: d)
  also have "\<dots> = (crc_bit p ^^ (32 + 0)) ?two XOR (crc_bit p ^^ (32 + 32)) ?one"
    unfolding crc_four_bytes by (simp add: crc_bits_xor crc_bits_add xor.commute)
  also have "\<dots> = crc_block (make_crc_table p) c d"
    unfolding crc_four_bytes_split [where n = 0 and w = ?two] crc_four_bytes_split [where n = 32 and w = ?one]
    using loads
    by (simp add: crc_block_def Let_def crc_lookup_make_crc_table xor.assoc xor.commute xor.left_commute)
  finally show ?thesis ..
qed

lemma crc_slice_by_8_eq: "crc_slice_by_8 (make_crc_table p) c data = foldl (crc_byte p) c data"
proof (induction "make_crc_table p" c data rule: crc_slice_by_8.induct)
  case (1 c data)
  show ?case
  proof (cases "8 \<le> length data")
    case True
    with 1 have "crc_slice_by_8 (make_crc_table p) c data
        = foldl (crc_byte p) (foldl (crc_byte p) c (take 8 data)) (drop 8 data)"
      by (subst crc_slice_by_8.simps) (simp add: crc_block_eq)
    then show ?thesis by (simp flip: foldl_append)
  next
    case False
    then show ?thesis by (subst crc_slice_by_8.simps) (simp add: crc_table_byte_eq)
  qed
qed

section \<open>The instructions\<close>

lemma crc_serial_add:
  "crc_serial p (m + n) c w = crc_serial p n (crc_serial p m c w) (drop_bit m w)"
  by (induction m arbitrary: c w) (simp_all add: drop_bit_drop_bit add.commute)

lemma crc_serial_eq:
  fixes w :: "'a::len word"
  assumes "n \<le> 8"
  shows "crc_serial p n c w = (crc_bit p ^^ n) (c XOR ucast (take_bit n w))"
  using assms
proof (induction n)
  case 0
  show ?case by simp
next
  case (Suc n)
  let ?b = "of_bool (bit w n) :: u32"
  have "(crc_bit p ^^ n) (push_bit n ?b) = ?b"
    using Suc.prems by (intro crc_bits_push) auto
  moreover have "(ucast (take_bit (Suc n) w) :: u32) = ucast (take_bit n w) XOR push_bit n ?b"
    using Suc.prems by (intro bit_word_eqI) (auto simp: bit_simps less_Suc_eq)
  moreover have "crc_serial p (n + 1) c w = crc_bit p (crc_serial p n c w XOR ?b)"
    unfolding crc_serial_add by (simp add: bit_drop_bit_eq)
  ultimately show ?case
    using Suc by (simp add: crc_bits_xor xor.assoc)
qed

lemma crc_serial_8: "crc_serial p 8 c w = crc_byte p c (ucast w)"
proof -
  have "(ucast (take_bit 8 w) :: u32) = ucast (ucast w :: u8)"
    by (rule bit_word_eqI) (auto simp: bit_simps)
  then show ?thesis by (simp add: crc_serial_eq crc_byte_def)
qed

lemma crc_serial_bytes:
  "crc_serial p (8 * n) c w = foldl (crc_byte p) c (store_le n w)"
proof (induction n arbitrary: c w)
  case 0
  show ?case by simp
next
  case (Suc n)
  have "crc_serial p (8 * Suc n) c w = crc_serial p (8 + 8 * n) c w" by simp
  also have "\<dots> = foldl (crc_byte p) c (store_le (Suc n) w)"
    unfolding crc_serial_add by (simp add: crc_serial_8 Suc.IH)
  finally show ?case .
qed

section \<open>The contract of a checksum algorithm\<close>

text \<open>
  What the clients of \<^verbatim>\<open>IChecksum\<close> rely on: hashing is incremental, the state is never
  forgotten, and a difference confined to four consecutive bytes is never cancelled.
\<close>

locale checksum_algorithm =
  fixes c :: IChecksum
  assumes update_nil: "ck_update c s [] = s"
    and update_append: "ck_update c s (xs @ ys) = ck_update c (ck_update c s xs) ys"
    and update_inj: "ck_update c s xs = ck_update c t xs \<Longrightarrow> s = t"
    and update_burst: "length xs = length ys \<Longrightarrow> length xs \<le> 4 \<Longrightarrow>
      ck_update c s xs = ck_update c s ys \<Longrightarrow> xs = ys"
    and finish_inj: "ck_finish c s = ck_finish c t \<Longrightarrow> s = t"
begin

lemma update_concat: "foldl (ck_update c) s chunks = ck_update c s (concat chunks)"
  by (induction chunks arbitrary: s) (simp_all add: update_nil update_append)

lemma compute_burst:
  assumes "length xs = length ys" "length xs \<le> 4" "xs \<noteq> ys"
  shows "ck_compute c (pre @ xs @ post) \<noteq> ck_compute c (pre @ ys @ post)"
proof
  assume "ck_compute c (pre @ xs @ post) = ck_compute c (pre @ ys @ post)"
  then have "ck_update c (ck_update c (ck_begin c) pre) xs = ck_update c (ck_update c (ck_begin c) pre) ys"
    by (auto simp: ck_compute_def update_append dest!: finish_inj update_inj)
  with assms(1,2) have "xs = ys" by (rule update_burst)
  with assms(3) show False by contradiction
qed

end

lemma crc_bytes_load:
  "length xs \<le> 4 \<Longrightarrow> foldl (crc_byte p) s xs = (crc_bit p ^^ (8 * length xs)) (s XOR load_le xs)"
proof (induction xs rule: rev_induct)
  case Nil
  show ?case by simp
next
  case (snoc b xs)
  have "(load_le (xs @ [b]) :: u32) = load_le xs XOR push_bit (8 * length xs) (ucast b)"
    by (rule bit_word_eqI) (auto simp: load_le_append bit_simps dest: load_le_bit)
  with snoc show ?case by (simp add: crc_byte_shifted xor.assoc)
qed

lemma crc_bytes_inj:
  "bit p 31 \<Longrightarrow> foldl (crc_byte p) s xs = foldl (crc_byte p) t xs \<Longrightarrow> s = t"
proof (induction xs arbitrary: s t)
  case Nil
  then show ?case by simp
next
  case (Cons b xs)
  have "foldl (crc_byte p) (crc_byte p s b) xs = foldl (crc_byte p) (crc_byte p t b) xs"
    using Cons.prems(2) by simp
  then have "crc_byte p s b = crc_byte p t b"
    by (rule Cons.IH [OF Cons.prems(1)])
  then have "s XOR ucast b = t XOR ucast b"
    unfolding crc_byte_def by (rule crc_bits_inj [OF Cons.prems(1)])
  then show ?case by simp
qed

lemma crc_bytes_burst:
  assumes "bit p 31" "length xs = length ys" "length xs \<le> 4" "foldl (crc_byte p) s xs = foldl (crc_byte p) s ys"
  shows "xs = ys"
proof -
  have "(crc_bit p ^^ (8 * length xs)) (s XOR load_le xs) = (crc_bit p ^^ (8 * length xs)) (s XOR load_le ys)"
    using assms(2-4) by (simp add: crc_bytes_load)
  then have "s XOR load_le xs = s XOR load_le ys"
    by (rule crc_bits_inj [OF assms(1)])
  then have "(load_le xs :: u32) = load_le ys"
    by simp
  from load_le_inj [OF this assms(2)] assms(3) show ?thesis by simp
qed

text \<open>An object whose update is the bit-at-a-time fold satisfies the contract.\<close>

lemma crc_checksum_algorithm:
  assumes "ck_update c = foldl (crc_byte p)" "bit p 31" "ck_finish c = (\<lambda>s. s XOR m)"
  shows "checksum_algorithm c"
proof
  fix s t xs ys
  show "ck_update c s [] = s" by (simp add: assms)
  show "ck_update c s (xs @ ys) = ck_update c (ck_update c s xs) ys" by (simp add: assms)
  show "ck_update c s xs = ck_update c t xs \<Longrightarrow> s = t"
    using assms by (auto dest: crc_bytes_inj)
  show "length xs = length ys \<Longrightarrow> length xs \<le> 4 \<Longrightarrow> ck_update c s xs = ck_update c s ys \<Longrightarrow> xs = ys"
    using assms by (auto dest: crc_bytes_burst)
  show "ck_finish c s = ck_finish c t \<Longrightarrow> s = t"
    by (simp add: assms)
qed

lemma poly_top_bits [simp]: "bit kCrc32Polynomial 31" "bit kCrc32cPolynomial 31"
  by (simp_all add: kCrc32Polynomial_def kCrc32cPolynomial_def bit_simps)

lemma Crc32_update_eq: "ck_update Crc32 = foldl (crc_byte kCrc32Polynomial)"
  by (simp add: Crc32_def kCrc32Table_def crc_slice_by_8_eq fun_eq_iff)

interpretation crc32: checksum_algorithm Crc32
  by (rule crc_checksum_algorithm [OF Crc32_update_eq]) (simp_all add: Crc32_def)

lemma Crc32c_software_update_eq: "ck_update (Crc32c cpu False) = foldl (crc_byte kCrc32cPolynomial)"
  by (simp add: Crc32c_def Crc32c_update_def kCrc32cTable_def crc_slice_by_8_eq fun_eq_iff)

interpretation crc32c_software: checksum_algorithm "Crc32c cpu False" for cpu
  by (rule crc_checksum_algorithm [OF Crc32c_software_update_eq]) (simp_all add: Crc32c_def)

text \<open>With the documented instructions, the hardware loops compute the same fold.\<close>

lemma crc_serial_word:
  "8 \<le> length data \<Longrightarrow>
     crc_serial p 64 c (load_le (take 8 data) :: u64) = foldl (crc_byte p) c (take 8 data)"
  using crc_serial_bytes [of p 8 c "load_le (take 8 data) :: u64"] store_le_load_le [where ?'a = 64, of "take 8 data"]
  by simp

lemma crc_serial_byte: "crc_serial p 8 c (b :: u8) = crc_byte p c b"
  by (simp add: crc_serial_8)

lemma crc32c_x86_words_eq:
  assumes "crc_instructions_documented cpu"
  shows "(case crc32c_x86_words cpu (ucast c) data of (wide, rest) \<Rightarrow>
     foldl (crc_byte kCrc32cPolynomial) (ucast wide) rest) = foldl (crc_byte kCrc32cPolynomial) c data"
proof (induction "length data" arbitrary: c data rule: less_induct)
  case less
  show ?case
  proof (cases "8 \<le> length data")
    case True
    let ?c = "foldl (crc_byte kCrc32cPolynomial) c (take 8 data)"
    have "mm_crc32_u64 cpu (ucast c) (load_le (take 8 data)) = ucast ?c"
      using assms True by (simp add: crc_instructions_documented_def crc_serial_word)
    then have "crc32c_x86_words cpu (ucast c) data = crc32c_x86_words cpu (ucast ?c) (drop 8 data)"
      using True by (subst crc32c_x86_words.simps) simp
    with less [of "drop 8 data" ?c] True show ?thesis by (simp add: foldl_take_drop)
  next
    case False
    then show ?thesis by (subst crc32c_x86_words.simps) simp
  qed
qed

lemma crc32c_hardware_x86_eq:
  assumes "crc_instructions_documented cpu"
  shows "crc32c_hardware_x86 cpu c data = foldl (crc_byte kCrc32cPolynomial) c data"
proof -
  have "mm_crc32_u8 cpu = crc_byte kCrc32cPolynomial"
    using assms by (simp add: crc_instructions_documented_def crc_serial_byte fun_eq_iff)
  then show ?thesis
    using crc32c_x86_words_eq [OF assms, of c data] by (simp add: crc32c_hardware_x86_def)
qed

lemma crc32c_hardware_arm_eq:
  assumes "crc_instructions_documented cpu"
  shows "crc32c_hardware_arm cpu c data = foldl (crc_byte kCrc32cPolynomial) c data"
proof (induction "length data" arbitrary: c data rule: less_induct)
  case less
  have byte: "arm_crc32cb cpu = crc_byte kCrc32cPolynomial"
    using assms by (simp add: crc_instructions_documented_def crc_serial_byte fun_eq_iff)
  show ?case
  proof (cases "8 \<le> length data")
    case True
    let ?c = "foldl (crc_byte kCrc32cPolynomial) c (take 8 data)"
    have "arm_crc32cd cpu c (load_le (take 8 data)) = ?c"
      using assms True by (simp add: crc_instructions_documented_def crc_serial_word)
    then have "crc32c_hardware_arm cpu c data = crc32c_hardware_arm cpu ?c (drop 8 data)"
      using True by (subst crc32c_hardware_arm.simps) simp
    with less [of "drop 8 data" ?c] True show ?thesis by (simp add: foldl_take_drop)
  next
    case False
    then show ?thesis by (subst crc32c_hardware_arm.simps) (simp add: byte)
  qed
qed

lemma Crc32c_update_eq:
  "crc_instructions_documented cpu \<Longrightarrow> ck_update (Crc32c cpu hw) = foldl (crc_byte kCrc32cPolynomial)"
  by (simp add: Crc32c_def Let_def Crc32c_update_def kCrc32cTable_def crc_slice_by_8_eq
      crc32c_hardware_x86_eq crc32c_hardware_arm_eq fun_eq_iff)

lemma Crc32c_algorithm: "crc_instructions_documented cpu \<Longrightarrow> checksum_algorithm (Crc32c cpu hw)"
  by (rule crc_checksum_algorithm [OF Crc32c_update_eq]) (simp_all add: Crc32c_def Let_def)

lemma ChecksumRegistry_algorithm:
  "crc_instructions_documented cpu \<Longrightarrow> ChecksumRegistry_find cpu k = Some c \<Longrightarrow> checksum_algorithm c"
  by (auto simp: ChecksumRegistry_find_def crc32.checksum_algorithm_axioms Crc32c_algorithm split: if_splits)

lemma ChecksumRegistry_find_kind: "ChecksumRegistry_find cpu k = Some c \<Longrightarrow> ck_kind c = k"
  by (auto simp: ChecksumRegistry_find_def Crc32_def Crc32c_def Let_def split: if_splits)

lemma make_checksum_registered:
  "make_checksum cpu name = Inr c \<Longrightarrow> ChecksumRegistry_find cpu (ck_kind c) = Some c"
  by (auto simp: make_checksum_def ChecksumRegistry_find_def Crc32_def Crc32c_def Let_def
      ChecksumKind_Crc32_def ChecksumKind_Crc32c_def split: if_splits)


lemma Crc32_compute_reference: "ck_compute Crc32 data = reference_crc kCrc32Polynomial data"
  unfolding ck_compute_def Crc32_update_eq by (simp add: Crc32_def reference_crc_def)

lemma Crc32c_software_compute_reference:
  "ck_compute (Crc32c cpu False) data = reference_crc kCrc32cPolynomial data"
  unfolding ck_compute_def Crc32c_software_update_eq by (simp add: Crc32c_def Let_def reference_crc_def)

lemma Crc32c_compute_reference:
  assumes "crc_instructions_documented cpu"
  shows "ck_compute (Crc32c cpu hw) data = reference_crc kCrc32cPolynomial data"
  unfolding ck_compute_def Crc32c_update_eq [OF assms] by (simp add: Crc32c_def Let_def reference_crc_def)

text \<open>Evaluation of the reference on concrete bytes.\<close>

lemma crc_byte_unroll:
  "crc_byte p c b = crc_bit p (crc_bit p (crc_bit p (crc_bit p
     (crc_bit p (crc_bit p (crc_bit p (crc_bit p (c XOR ucast b))))))))"
  by (simp add: crc_byte_def numeral_eq_Suc)

lemmas crc_eval = reference_crc_def crc_byte_unroll crc_bit_def kCrc32Polynomial_def kCrc32cPolynomial_def

text \<open>An x86 CPU whose instructions are the documented bit-serial division, used by witnesses.\<close>

definition serial_cpu :: crc_cpu where
  "serial_cpu = \<lparr>cpu_target = Target_X86, cpu_supports_sse42 = True, cpu_hwcap_crc32 = False,
     mm_crc32_u64 = (\<lambda>wide operand. ucast (crc_serial kCrc32cPolynomial 64 (ucast wide) operand)),
     mm_crc32_u8 = crc_serial kCrc32cPolynomial 8,
     arm_crc32cd = crc_serial kCrc32cPolynomial 64,
     arm_crc32cb = crc_serial kCrc32cPolynomial 8\<rparr>"

lemma serial_cpu_documented: "crc_instructions_documented serial_cpu"
  by (simp add: crc_instructions_documented_def serial_cpu_def)

section \<open>Properties\<close>

text \<open>
  C12: The slice-by-8 table implementations of CRC-32 and CRC-32C compute, on every input, the
  same checksum as the bit-at-a-time reference with the respective polynomial.
\<close>

theorem slice_by_8_matches_reference:
  "ck_compute Crc32 data = reference_crc kCrc32Polynomial data \<and>
   ck_compute (Crc32c cpu False) data = reference_crc kCrc32cPolynomial data"
  by (simp add: Crc32_compute_reference Crc32c_software_compute_reference)

text \<open>
  C27: If the CPU's CRC instructions do what their vendors document, CRC-32C gives the same
  result on every input whether the hardware loop or the software table is used, on every
  target.
\<close>

theorem crc32c_hardware_matches_software:
  assumes "crc_instructions_documented cpu"
  shows "ck_compute (Crc32c cpu True) data = ck_compute (Crc32c cpu False) data"
  by (simp add: Crc32c_compute_reference [OF assms] Crc32c_software_compute_reference)

theorem crc32c_hardware_matches_software_witness:
  "crc_instructions_documented serial_cpu \<and> hardware_available serial_cpu \<and>
   ck_compute (Crc32c serial_cpu True) [0x31, 0x32, 0x33, 0x34, 0x35, 0x36, 0x37, 0x38, 0x39] = 0xE3069283"
proof -
  have "hardware_available serial_cpu"
    by (simp add: hardware_available_def serial_cpu_def)
  moreover have "ck_compute (Crc32c serial_cpu False) [0x31, 0x32, 0x33, 0x34, 0x35, 0x36, 0x37, 0x38, 0x39] = 0xE3069283"
    by (simp add: Crc32c_software_compute_reference crc_eval)
  ultimately show ?thesis
    by (simp add: serial_cpu_documented crc32c_hardware_matches_software [OF serial_cpu_documented])
qed

text \<open>
  Every algorithm of the registry is incremental: hashing a sequence of chunks one after
  the other gives the state of hashing their concatenation in one call, so a packet may be
  hashed header first and payload chunk by chunk.
\<close>

lemma registry_checksums_incremental:
  assumes "crc_instructions_documented cpu" "ChecksumRegistry_find cpu kind = Some c"
  shows "foldl (ck_update c) s chunks = ck_update c s (concat chunks)"
  by (rule checksum_algorithm.update_concat [OF ChecksumRegistry_algorithm [OF assms]])

text \<open>
  Two messages of equal length that differ only inside a window of at most four consecutive
  bytes (in particular by any single flipped bit, or any burst of up to 25 bits) have different
  checksums, for every algorithm of the registry.
\<close>

lemma registry_checksums_detect_bursts:
  assumes "crc_instructions_documented cpu" "ChecksumRegistry_find cpu kind = Some c"
    and "length xs = length ys" "length xs \<le> 4" "xs \<noteq> ys"
  shows "ck_compute c (pre @ xs @ post) \<noteq> ck_compute c (pre @ ys @ post)"
  by (rule checksum_algorithm.compute_burst [OF ChecksumRegistry_algorithm [OF assms(1,2)] assms(3-5)])

end
