(* ===== verification/Packet.thy ===== *)
theory Packet
  imports Checksum
begin

text \<open>
  The packet format: \<^verbatim>\<open>common/src/packet.cpp\<close> and \<^verbatim>\<open>common/include/pc/packet.hpp\<close>.
  A packet is a 32-byte header, copied as a little-endian struct image, followed by the payload.
  The lemmas give the round trips between struct and bytes, show that sealing a packet makes
  its stored checksum the one the consumer recomputes, and that no change of up to four
  consecutive bytes outside the checksum and algorithm fields survives that comparison.
\<close>

section \<open>The header and its byte image\<close>

definition kPacketMagic :: u32 where
  "kPacketMagic = 0x544B4350"

definition kPacketVersion :: u8 where
  "kPacketVersion = 2"

record PacketHeader =
  ph_magic :: u32
  ph_version :: u8
  ph_checksum_kind :: u8
  ph_header_size :: u16
  ph_payload_size :: u32
  ph_checksum :: u32
  ph_sequence :: u64
  ph_timestamp_ns :: i64

definition kHeaderSize :: nat where
  "kHeaderSize = 32"

definition header_bytes :: "PacketHeader \<Rightarrow> bytes" where
  "header_bytes h = store_le 4 (ph_magic h) @ store_le 1 (ph_version h) @ store_le 1 (ph_checksum_kind h) @
     store_le 2 (ph_header_size h) @ store_le 4 (ph_payload_size h) @ store_le 4 (ph_checksum h) @
     store_le 8 (ph_sequence h) @ store_le 8 (ph_timestamp_ns h)"

definition header_of_bytes :: "bytes \<Rightarrow> PacketHeader" where
  "header_of_bytes bs = \<lparr>ph_magic = load_le (take 4 bs), ph_version = load_le (take 1 (drop 4 bs)),
     ph_checksum_kind = load_le (take 1 (drop 5 bs)), ph_header_size = load_le (take 2 (drop 6 bs)),
     ph_payload_size = load_le (take 4 (drop 8 bs)), ph_checksum = load_le (take 4 (drop 12 bs)),
     ph_sequence = load_le (take 8 (drop 16 bs)), ph_timestamp_ns = load_le (take 8 (drop 24 bs))\<rparr>"

section \<open>Operations\<close>

text \<open>
  The operations take the record as the bytes of the span; the precondition
  \<^verbatim>\<open>record.size() >= kHeaderSize\<close> of the source is an assumption of the lemmas.
\<close>

definition write_header :: "bytes \<Rightarrow> u64 \<Rightarrow> i64 \<Rightarrow> ChecksumKind \<Rightarrow> bytes" where
  "write_header rec seq timestamp_ns kind =
     blit 0 (header_bytes \<lparr>ph_magic = kPacketMagic, ph_version = kPacketVersion, ph_checksum_kind = kind,
       ph_header_size = of_nat kHeaderSize, ph_payload_size = of_nat (length rec - kHeaderSize),
       ph_checksum = 0, ph_sequence = seq, ph_timestamp_ns = timestamp_ns\<rparr>) rec"

definition patch_checksum :: "bytes \<Rightarrow> u32 \<Rightarrow> bytes" where
  "patch_checksum rec checksum = blit 12 (store_le 4 checksum) rec"

definition seal_packet :: "bytes \<Rightarrow> u64 \<Rightarrow> i64 \<Rightarrow> IChecksum \<Rightarrow> bytes" where
  "seal_packet rec seq timestamp_ns c =
     (let rec' = write_header rec seq timestamp_ns (ck_kind c)
      in patch_checksum rec' (ck_compute c rec'))"

definition read_header :: "bytes \<Rightarrow> PacketHeader" where
  "read_header rec = header_of_bytes (take kHeaderSize rec)"

definition packet_checksum :: "bytes \<Rightarrow> IChecksum \<Rightarrow> u32" where
  "packet_checksum rec c =
     (let header = (read_header rec)\<lparr>ph_checksum := 0\<rparr>;
          state = ck_update c (ck_begin c) (header_bytes header);
          state = ck_update c state (drop kHeaderSize rec)
      in ck_finish c state)"

section \<open>Streams of packets\<close>

text \<open>Packets sealed with consecutive sequence numbers from buffers and timestamps.\<close>

fun sealed_packets :: "IChecksum \<Rightarrow> u64 \<Rightarrow> (bytes \<times> i64) list \<Rightarrow> bytes list" where
  "sealed_packets c s [] = []"
| "sealed_packets c s ((buf, t) # ps) = seal_packet buf s t c # sealed_packets c (s + 1) ps"

definition buffers_ok :: "(bytes \<times> i64) list \<Rightarrow> bool" where
  "buffers_ok ps \<longleftrightarrow> (\<forall>(buf, t) \<in> set ps. 32 \<le> length buf \<and> length buf < 2 ^ 32 + 32) \<and> sorted (map (sint \<circ> snd) ps)"

lemma length_sealed_packets [simp]: "length (sealed_packets c s ps) = length ps"
  by (induction c s ps rule: sealed_packets.induct) simp_all

lemma sealed_packets_append:
  "sealed_packets c s (ps @ qs) = sealed_packets c s ps @ sealed_packets c (s + of_nat (length ps)) qs"
proof (induction c s ps rule: sealed_packets.induct)
  case (2 c s buf t ps)
  then show ?case by (simp add: algebra_simps)
qed simp

section \<open>Round trips of the header\<close>

lemma length_header_bytes [simp]: "length (header_bytes h) = 32"
  by (simp add: header_bytes_def)

lemma header_of_bytes_header_bytes [simp]: "header_of_bytes (header_bytes h) = h"
  by (simp add: header_bytes_def header_of_bytes_def load_le_store_le_full)

lemma store_le_load_le_slice:
  "k + n \<le> length bs \<Longrightarrow> 8 * n \<le> LENGTH('a) \<Longrightarrow>
     store_le n (load_le (take n (drop k bs)) :: 'a::len word) = take n (drop k bs)"
  using store_le_load_le [where ?'a = 'a, of "take n (drop k bs)"] by simp

lemma take_append_slice: "take m xs @ take n (drop m xs) = take (m + n) xs"
  by (simp add: take_add)

lemma take_append_slice': "take m xs @ take n (drop m xs) @ ys = take (m + n) xs @ ys"
  by (simp add: take_add)

lemma header_bytes_header_of_bytes:
  assumes "length bs = 32"
  shows "header_bytes (header_of_bytes bs) = bs"
proof -
  have "header_bytes (header_of_bytes bs) = take 4 (drop 0 bs) @ take 1 (drop 4 bs) @ take 1 (drop 5 bs) @
      take 2 (drop 6 bs) @ take 4 (drop 8 bs) @ take 4 (drop 12 bs) @ take 8 (drop 16 bs) @ take 8 (drop 24 bs)"
    using assms store_le_load_le_slice [where k = 0 and n = 4 and bs = bs and ?'a = 32]
      store_le_load_le_slice [where k = 24 and n = 8 and bs = bs and ?'a = 64]
    by (simp add: header_bytes_def header_of_bytes_def store_le_load_le_slice del: One_nat_def store_le.simps)
  also have "\<dots> = take 32 bs"
    by (simp add: take_append_slice take_append_slice' del: append_assoc)
  finally show ?thesis using assms by simp
qed


section \<open>What each operation does to the packet\<close>

lemma length_write_header [simp]: "32 \<le> length rec \<Longrightarrow> length (write_header rec s t k) = length rec"
  by (simp add: write_header_def)

lemma length_patch_checksum [simp]: "32 \<le> length rec \<Longrightarrow> length (patch_checksum rec k) = length rec"
  by (simp add: patch_checksum_def)

lemma length_seal_packet [simp]: "32 \<le> length rec \<Longrightarrow> length (seal_packet rec s t c) = length rec"
  by (simp add: seal_packet_def Let_def)

lemma drop_write_header [simp]: "32 \<le> length rec \<Longrightarrow> drop 32 (write_header rec s t k) = drop 32 rec"
  by (simp add: write_header_def blit_def)

lemma drop_patch_checksum [simp]: "32 \<le> length rec \<Longrightarrow> drop 32 (patch_checksum rec k) = drop 32 rec"
  by (simp add: patch_checksum_def blit_def)

lemma take_write_header:
  "32 \<le> length rec \<Longrightarrow> take 32 (write_header rec s t k) =
     header_bytes \<lparr>ph_magic = kPacketMagic, ph_version = kPacketVersion, ph_checksum_kind = k,
       ph_header_size = 32, ph_payload_size = of_nat (length rec - 32),
       ph_checksum = 0, ph_sequence = s, ph_timestamp_ns = t\<rparr>"
  by (simp add: write_header_def blit_def kHeaderSize_def)

lemma read_write_header:
  "32 \<le> length rec \<Longrightarrow> read_header (write_header rec s t k) =
     \<lparr>ph_magic = kPacketMagic, ph_version = kPacketVersion, ph_checksum_kind = k,
       ph_header_size = 32, ph_payload_size = of_nat (length rec - 32),
       ph_checksum = 0, ph_sequence = s, ph_timestamp_ns = t\<rparr>"
  by (simp add: read_header_def take_write_header kHeaderSize_def)

lemma read_header_slices:
  "read_header rec = \<lparr>ph_magic = load_le (take 4 (drop 0 rec)), ph_version = load_le (take 1 (drop 4 rec)),
     ph_checksum_kind = load_le (take 1 (drop 5 rec)), ph_header_size = load_le (take 2 (drop 6 rec)),
     ph_payload_size = load_le (take 4 (drop 8 rec)), ph_checksum = load_le (take 4 (drop 12 rec)),
     ph_sequence = load_le (take 8 (drop 16 rec)), ph_timestamp_ns = load_le (take 8 (drop 24 rec))\<rparr>"
  using slice_take [where k = 0 and n = 4 and m = 32 and xs = rec]
    slice_take [where k = 24 and n = 8 and m = 32 and xs = rec]
  by (simp add: read_header_def kHeaderSize_def header_of_bytes_def slice_take del: One_nat_def load_le.simps)

lemma read_patch_checksum:
  assumes "32 \<le> length rec"
  shows "read_header (patch_checksum rec k) = (read_header rec)\<lparr>ph_checksum := k\<rparr>"
proof -
  have other: "take n (drop i (patch_checksum rec k)) = take n (drop i rec)"
    if "i + n \<le> 12 \<or> 16 \<le> i" for n i
    using that assms by (simp add: patch_checksum_def slice_blit_other)
  have "take 4 (drop 12 (patch_checksum rec k)) = store_le 4 k"
    using assms slice_blit_same [of 12 "store_le 4 k" rec] by (simp add: patch_checksum_def)
  then show ?thesis
    unfolding read_header_slices using other [of 0 4] by (simp add: other load_le_store_le_full del: One_nat_def drop_0)
qed

text \<open>The bytes the checksum runs over: the packet with its checksum field cleared.\<close>

definition packet_image :: "bytes \<Rightarrow> bytes" where
  "packet_image rec = take 12 rec @ [0, 0, 0, 0] @ drop 16 rec"

lemma header_image:
  assumes "32 \<le> length rec"
  shows "header_bytes ((read_header rec)\<lparr>ph_checksum := 0\<rparr>) = take 12 rec @ [0, 0, 0, 0] @ take 16 (drop 16 rec)"
proof -
  have zero: "store_le 4 (0 :: u32) = [0, 0, 0, 0]"
    by (simp add: numeral_eq_Suc)
  have "take 32 (patch_checksum rec 0) = header_bytes (read_header (patch_checksum rec 0))"
    using assms by (simp add: read_header_def kHeaderSize_def header_bytes_header_of_bytes)
  moreover have "take 32 (patch_checksum rec 0) = take 12 rec @ [0, 0, 0, 0] @ take 16 (drop 16 rec)"
    using assms by (simp add: patch_checksum_def blit_def zero)
  ultimately show ?thesis using assms by (simp add: read_patch_checksum)
qed

context checksum_algorithm
begin

lemma packet_checksum_image:
  "32 \<le> length rec \<Longrightarrow> packet_checksum rec c = ck_compute c (packet_image rec)"
  using slice_append_drop [of 16 16 rec]
  by (simp add: packet_checksum_def Let_def header_image packet_image_def kHeaderSize_def ck_compute_def
      flip: update_append)


lemma packet_checksum_fresh:
  assumes "32 \<le> length rec" "ph_checksum (read_header rec) = 0"
  shows "packet_checksum rec c = ck_compute c rec"
proof -
  have "header_bytes ((read_header rec)\<lparr>ph_checksum := 0\<rparr>) = header_bytes (read_header rec)"
    using assms(2) by (cases "read_header rec") simp
  also have "\<dots> = take 32 rec"
    using assms(1) by (simp add: read_header_def kHeaderSize_def header_bytes_header_of_bytes)
  finally show ?thesis
    by (simp add: packet_checksum_def Let_def kHeaderSize_def ck_compute_def flip: update_append)
qed

end

lemma packet_checksum_patch:
  "32 \<le> length rec \<Longrightarrow> packet_checksum (patch_checksum rec k) c = packet_checksum rec c"
  by (simp add: packet_checksum_def kHeaderSize_def read_patch_checksum)

context checksum_algorithm
begin

lemma sealed_checksum:
  assumes "32 \<le> length rec"
  shows "ph_checksum (read_header (seal_packet rec s t c)) = packet_checksum (seal_packet rec s t c) c"
  using assms by (simp add: seal_packet_def Let_def packet_checksum_patch read_patch_checksum
      packet_checksum_fresh read_write_header)

text \<open>
  The checksum of a packet depends on every window of up to four bytes that does not meet the
  checksum field.
\<close>

lemma packet_checksum_burst:
  assumes "length xs = length ys" "length xs \<le> 4" "xs \<noteq> ys"
    and "32 \<le> length (pre @ xs @ post)" "length pre + length xs \<le> 12 \<or> 16 \<le> length pre"
  shows "packet_checksum (pre @ xs @ post) c \<noteq> packet_checksum (pre @ ys @ post) c"
proof -
  have "\<exists>pre' post'. packet_image (pre @ xs @ post) = pre' @ xs @ post' \<and>
      packet_image (pre @ ys @ post) = pre' @ ys @ post'"
  proof (cases "16 \<le> length pre")
    case True
    then have "packet_image (pre @ zs @ post) = (take 12 pre @ [0, 0, 0, 0] @ drop 16 pre) @ zs @ post" for zs
      by (simp add: packet_image_def)
    then show ?thesis by blast
  next
    case False
    with assms(5) have "length pre + length xs \<le> 12" by simp
    then have "packet_image (pre @ zs @ post) = pre @ zs @
        (take (12 - length pre - length xs) post @ [0, 0, 0, 0] @ drop (16 - length pre - length xs) post)"
      if "length zs = length xs" for zs
      using that by (simp add: packet_image_def)
    with assms(1) show ?thesis by metis
  qed
  then obtain pre' post' where "packet_image (pre @ xs @ post) = pre' @ xs @ post'"
    "packet_image (pre @ ys @ post) = pre' @ ys @ post'" by blast
  with compute_burst [OF assms(1-3)] assms(1,4) show ?thesis
    by (simp add: packet_checksum_image)
qed

end

section \<open>Properties\<close>

text \<open>
  Sealing a record of at least 32 bytes (and at most \<open>2^32 + 31\<close>, the range the 32-bit
  length field can describe) with a registered checksum keeps its size and payload, stamps the
  magic, version, algorithm, sizes, sequence number and timestamp, and stores exactly the
  checksum that the receiver recomputes from the sealed bytes.
\<close>

lemma sealed_packet_verifies:
  assumes "crc_instructions_documented cpu" "ChecksumRegistry_find cpu kind = Some c"
    and "32 \<le> length rec" "length rec < 2 ^ 32 + 32"
    and p_def: "p = seal_packet rec seq ts c"
  shows "length p = length rec \<and> drop 32 p = drop 32 rec \<and>
    ph_magic (read_header p) = kPacketMagic \<and> ph_version (read_header p) = kPacketVersion \<and>
    ph_checksum_kind (read_header p) = kind \<and> unat (ph_header_size (read_header p)) = 32 \<and>
    unat (ph_payload_size (read_header p)) = length (drop 32 p) \<and>
    ph_sequence (read_header p) = seq \<and> ph_timestamp_ns (read_header p) = ts \<and>
    ph_checksum (read_header p) = packet_checksum p c"
proof -
  have alg: "checksum_algorithm c"
    by (rule ChecksumRegistry_algorithm [OF assms(1,2)])
  have "ck_kind c = kind"
    by (rule ChecksumRegistry_find_kind [OF assms(2)])
  moreover have "unat (word_of_nat (length rec - 32) :: u32) = length rec - 32"
    using assms(4) by (simp add: unat_of_nat_small)
  moreover have "read_header p = (read_header (write_header rec seq ts (ck_kind c)))
      \<lparr>ph_checksum := ck_compute c (write_header rec seq ts (ck_kind c))\<rparr>"
    using assms(3) by (simp add: p_def seal_packet_def Let_def read_patch_checksum)
  moreover have "length p = length rec" "drop 32 p = drop 32 rec"
    using assms(3) by (simp_all add: p_def seal_packet_def Let_def)
  moreover have "ph_checksum (read_header p) = packet_checksum p c"
    unfolding p_def by (rule checksum_algorithm.sealed_checksum [OF alg assms(3)])
  ultimately show ?thesis
    using assms(3) by (simp add: read_write_header)
qed

lemma nth_store_le: "i < n \<Longrightarrow> store_le n w ! i = ucast (drop_bit (8 * i) w)"
proof (induction n arbitrary: i w)
  case (Suc n)
  then show ?case by (cases i) (simp_all add: add.commute)
qed simp

text \<open>The bytes of a packet in terms of the header read from it.\<close>

lemma nth_header:
  assumes "32 \<le> length p" "take n (drop k (header_bytes (read_header p))) = store_le n w" "k + n \<le> 32" "i < n"
  shows "p ! (k + i) = ucast (drop_bit (8 * i) w)"
proof -
  have "header_bytes (read_header p) = take 32 p"
    using assms(1) by (simp add: read_header_def kHeaderSize_def header_bytes_header_of_bytes)
  then have "take n (drop k (take 32 p)) = store_le n w" using assms(2) by simp
  then have "take n (drop k p) ! i = store_le n w ! i" using assms(3) by (simp only: slice_take)
  then show ?thesis using assms by (simp add: nth_store_le)
qed

lemma header_fields:
  "take 8 (header_bytes h) = store_le 4 (ph_magic h) @ store_le 1 (ph_version h) @ store_le 1 (ph_checksum_kind h) @ store_le 2 (ph_header_size h)"
  "take 4 (drop 8 (header_bytes h)) = store_le 4 (ph_payload_size h)"
  "take 4 (drop 12 (header_bytes h)) = store_le 4 (ph_checksum h)"
  "take 8 (drop 16 (header_bytes h)) = store_le 8 (ph_sequence h)"
  "take 8 (drop 24 (header_bytes h)) = store_le 8 (ph_timestamp_ns h)"
  by (simp_all add: header_bytes_def del: store_le.simps)

lemma store_le_constants:
  "store_le 4 (0x544B4350 :: u32) = [0x50, 0x43, 0x4B, 0x54]" "store_le 1 (v :: u8) = [v]" "store_le 2 (32 :: u16) = [32, 0]"
  by (code_simp, simp, code_simp)

lemma header_nth:
  assumes "32 \<le> length p"
  shows "i < 4 \<Longrightarrow> p ! (8 + i) = ucast (drop_bit (8 * i) (ph_payload_size (read_header p)))"
    and "i < 4 \<Longrightarrow> p ! (12 + i) = ucast (drop_bit (8 * i) (ph_checksum (read_header p)))"
    and "i < 8 \<Longrightarrow> p ! (16 + i) = ucast (drop_bit (8 * i) (ph_sequence (read_header p)))"
    and "i < 8 \<Longrightarrow> p ! (24 + i) = ucast (drop_bit (8 * i) (ph_timestamp_ns (read_header p)))"
  by (auto intro!: nth_header [OF assms] header_fields)

text \<open>
  C34: A sealed packet is the wire format, and the reader gets back what the writer was given: sealing
  a record of at least 32 bytes (and at most \<open>2\<^sup>3\<^sup>2 + 31\<close>, the range of the 32-bit length field) with a
  registered checksum keeps its size and payload; the first 32 bytes are the letters PCKT, the
  version 2, the number of the algorithm, the header size 32 and, each in little-endian order, the
  payload length at 8, the checksum at 12, the sequence number at 16 and the timestamp at 24; the
  checksum is that of the packet with its checksum field cleared; and reading the header gives these
  values, with the checksum that the receiver computes from the sealed bytes.
\<close>

theorem sealed_packet_layout:
  assumes "crc_instructions_documented cpu" "ChecksumRegistry_find cpu kind = Some c"
    and "32 \<le> length rec" "length rec < 2 ^ 32 + 32"
    and p_def: "p = seal_packet rec seq ts c"
  shows "length p = length rec \<and> drop 32 p = drop 32 rec \<and>
    take 8 p = [0x50, 0x43, 0x4B, 0x54, 2, kind, 32, 0] \<and>
    (\<forall>i < 4. p ! (8 + i) = ucast (drop_bit (8 * i) (of_nat (length rec - 32) :: u32))) \<and>
    (\<forall>i < 4. p ! (12 + i) = ucast (drop_bit (8 * i) (ck_compute c (take 12 p @ [0, 0, 0, 0] @ drop 16 p)))) \<and>
    (\<forall>i < 8. p ! (16 + i) = ucast (drop_bit (8 * i) seq)) \<and>
    (\<forall>i < 8. p ! (24 + i) = ucast (drop_bit (8 * i) ts)) \<and>
    read_header p = \<lparr>ph_magic = 0x544B4350, ph_version = 2, ph_checksum_kind = kind, ph_header_size = 32,
      ph_payload_size = of_nat (length rec - 32), ph_checksum = packet_checksum p c,
      ph_sequence = seq, ph_timestamp_ns = ts\<rparr> \<and>
    unat (ph_payload_size (read_header p)) = length (drop 32 p)"
proof -
  note v = sealed_packet_verifies [OF assms]
  have p: "32 \<le> length p" using v assms(3) by simp
  have len: "unat (of_nat (length rec - 32) :: u32) = length rec - 32" using assms(4) by (simp add: unat_of_nat_small)
  have size: "ph_header_size (read_header p) = 32" "ph_payload_size (read_header p) = of_nat (length rec - 32)"
    by (simp_all only: word_unat_eq_iff len) (use v in simp_all)
  have fields: "ph_sequence (read_header p) = seq" "ph_timestamp_ns (read_header p) = ts"
      "ph_checksum (read_header p) = packet_checksum p c" "unat (ph_payload_size (read_header p)) = length (drop 32 p)"
      "length p = length rec" "drop 32 p = drop 32 rec"
    using v by blast+
  have magic: "ph_magic (read_header p) = 0x544B4350" "ph_version (read_header p) = 2" "ph_checksum_kind (read_header p) = kind"
    using v unfolding kPacketMagic_def kPacketVersion_def by blast+
  have h: "read_header p = \<lparr>ph_magic = 0x544B4350, ph_version = 2, ph_checksum_kind = kind, ph_header_size = 32,
      ph_payload_size = of_nat (length rec - 32), ph_checksum = packet_checksum p c, ph_sequence = seq, ph_timestamp_ns = ts\<rparr>"
    using fields magic size by (cases "read_header p") simp
  have ck: "packet_checksum p c = ck_compute c (take 12 p @ [0, 0, 0, 0] @ drop 16 p)"
    using checksum_algorithm.packet_checksum_image [OF ChecksumRegistry_algorithm [OF assms(1,2)] p] by (simp only: packet_image_def)
  have "take 8 (take 32 p) = take 8 (header_bytes (read_header p))"
    using p by (simp add: read_header_def kHeaderSize_def header_bytes_header_of_bytes)
  then have start: "take 8 p = [0x50, 0x43, 0x4B, 0x54, 2, kind, 32, 0]"
    unfolding header_fields(1) magic size store_le_constants by simp
  note nth = header_nth [OF p, unfolded size(2) fields(1-3) ck]
  show ?thesis using nth start h fields(4-6) by blast
qed

theorem sealed_packet_layout_witness:
  "take 8 (seal_packet (replicate 34 3) 0x0102 0x0A0B Crc32) = [0x50, 0x43, 0x4B, 0x54, 2, 1, 32, 0] \<and>
   seal_packet (replicate 34 3) 0x0102 0x0A0B Crc32 ! 16 = 2 \<and>
   seal_packet (replicate 34 3) 0x0102 0x0A0B Crc32 ! 17 = 1"
proof -
  have find: "ChecksumRegistry_find serial_cpu 1 = Some Crc32"
    by (simp add: ChecksumRegistry_find_def ChecksumKind_Crc32_def)
  note layout = sealed_packet_layout [OF serial_cpu_documented find _ _ refl, of "replicate 34 3" "0x0102" "0x0A0B"]
  have "seal_packet (replicate 34 3) 0x0102 0x0A0B Crc32 ! (16 + i) = ucast (drop_bit (8 * i) (0x0102 :: u64))" if "i < 8" for i
    using layout that by simp
  from this [of 0] this [of 1] layout show ?thesis by simp
qed

end
