(* ===== verification/Packet_Validator.thy ===== *)
theory Packet_Validator
  imports Packet
begin

text \<open>
  The consumer's validator: \<^verbatim>\<open>consumer/packet_validator.cpp\<close> and
  \<^verbatim>\<open>consumer/packet_validator.hpp\<close>. Defect bits, the result type, the description of a
  defect set, and the validator with its sequence and timestamp tracking. The lemmas say
  exactly when each defect is reported, that sealed in-order packets are clean, that damaged
  ones are caught without disturbing the tracking, and that the missing counts add up.
\<close>

section \<open>Defects and results\<close>

datatype Defect =
    BadMagic | BadVersion | BadHeaderSize | SizeMismatch | BadChecksum
  | SequenceGap | SequenceRewind | TimestampFuture | TimestampBackward | UnknownChecksum

primrec defect_shift :: "Defect \<Rightarrow> nat" where
  "defect_shift BadMagic = 0"
| "defect_shift BadVersion = 1"
| "defect_shift BadHeaderSize = 2"
| "defect_shift SizeMismatch = 3"
| "defect_shift BadChecksum = 4"
| "defect_shift SequenceGap = 5"
| "defect_shift SequenceRewind = 6"
| "defect_shift TimestampFuture = 7"
| "defect_shift TimestampBackward = 8"
| "defect_shift UnknownChecksum = 9"

text \<open>\<^verbatim>\<open>static_cast<unsigned>(defect)\<close>: \<^verbatim>\<open>1u << shift\<close>.\<close>

definition defect_bit :: "Defect \<Rightarrow> u32" where
  "defect_bit d = push_bit (defect_shift d) 1"

definition kCorruptionDefects :: u32 where
  "kCorruptionDefects = defect_bit BadMagic OR defect_bit BadVersion OR defect_bit BadHeaderSize OR
     defect_bit SizeMismatch OR defect_bit BadChecksum OR defect_bit UnknownChecksum"

record ValidationResult =
  vr_defects :: u32
  vr_sequence :: u64
  vr_missing :: u64
  vr_latency_ns :: i64

definition vr_empty :: ValidationResult where
  "vr_empty = \<lparr>vr_defects = 0, vr_sequence = 0, vr_missing = 0, vr_latency_ns = 0\<rparr>"

definition vr_has :: "ValidationResult \<Rightarrow> Defect \<Rightarrow> bool" where
  "vr_has r d \<longleftrightarrow> vr_defects r AND defect_bit d \<noteq> 0"

definition vr_corrupted :: "ValidationResult \<Rightarrow> bool" where
  "vr_corrupted r \<longleftrightarrow> vr_defects r AND kCorruptionDefects \<noteq> 0"

definition vr_anomalous :: "ValidationResult \<Rightarrow> bool" where
  "vr_anomalous r \<longleftrightarrow> vr_defects r AND NOT kCorruptionDefects \<noteq> 0"

definition vr_clean :: "ValidationResult \<Rightarrow> bool" where
  "vr_clean r \<longleftrightarrow> vr_defects r = 0"

definition kNames :: "(Defect \<times> string) list" where
  "kNames = [(BadMagic, ''bad magic''), (BadVersion, ''bad version''), (BadHeaderSize, ''bad header size''),
     (SizeMismatch, ''size mismatch''), (BadChecksum, ''bad checksum''), (SequenceGap, ''sequence gap''),
     (SequenceRewind, ''sequence rewind''), (TimestampFuture, ''timestamp in the future''),
     (TimestampBackward, ''timestamp went backwards''), (UnknownChecksum, ''unknown checksum algorithm'')]"

definition describe_defects :: "u32 \<Rightarrow> string" where
  "describe_defects defects =
     (let acc = foldl (\<lambda>acc (d, name).
            if defects AND defect_bit d \<noteq> 0 then (if acc \<noteq> [] then acc @ '', '' else acc) @ name else acc) [] kNames
      in if acc = [] then ''ok'' else acc)"

section \<open>The validator\<close>

record PacketValidator =
  pv_future_tolerance_ns :: i64
  pv_has_baseline :: bool
  pv_expected_sequence :: u64
  pv_last_timestamp_ns :: i64

definition PacketValidator_new :: "i64 \<Rightarrow> PacketValidator" where
  "PacketValidator_new future_tolerance =
     \<lparr>pv_future_tolerance_ns = future_tolerance, pv_has_baseline = False, pv_expected_sequence = 0,
      pv_last_timestamp_ns = 0\<rparr>"

definition resync :: "PacketValidator \<Rightarrow> PacketValidator" where
  "resync v = v\<lparr>pv_has_baseline := False\<rparr>"

text \<open>\<^verbatim>\<open>if (condition) result.defects |= static_cast<unsigned>(defect)\<close>.\<close>

definition flag_if :: "bool \<Rightarrow> Defect \<Rightarrow> ValidationResult \<Rightarrow> ValidationResult" where
  "flag_if b d r = (if b then r\<lparr>vr_defects := vr_defects r OR defect_bit d\<rparr> else r)"

type_synonym registry = "ChecksumKind \<Rightarrow> IChecksum option"

definition check_structure :: "registry \<Rightarrow> bytes \<Rightarrow> ValidationResult" where
  "check_structure reg rec =
     (let header = read_header rec;
          r = vr_empty\<lparr>vr_sequence := ph_sequence header\<rparr>;
          r = flag_if (ph_magic header \<noteq> kPacketMagic) BadMagic r;
          r = flag_if (ph_version header \<noteq> kPacketVersion) BadVersion r;
          r = flag_if (unat (ph_header_size header) \<noteq> kHeaderSize) BadHeaderSize r;
          r = flag_if (unat (ph_payload_size header) \<noteq> length rec - kHeaderSize) SizeMismatch r
      in case reg (ph_checksum_kind header) of
           Some c \<Rightarrow> flag_if (packet_checksum rec c \<noteq> ph_checksum header) BadChecksum r
         | None \<Rightarrow> flag_if True UnknownChecksum r)"

definition check_tracking :: "PacketValidator \<Rightarrow> PacketHeader \<Rightarrow> i64 \<Rightarrow> ValidationResult \<Rightarrow> ValidationResult" where
  "check_tracking v header now_ns r =
     (let r = r\<lparr>vr_latency_ns := now_ns - ph_timestamp_ns header\<rparr>;
          r = flag_if (sint (now_ns + pv_future_tolerance_ns v) < sint (ph_timestamp_ns header)) TimestampFuture r
      in if pv_has_baseline v then
           let r = (if pv_expected_sequence v < ph_sequence header then
                      (flag_if True SequenceGap r)\<lparr>vr_missing := ph_sequence header - pv_expected_sequence v\<rparr>
                    else flag_if (ph_sequence header < pv_expected_sequence v) SequenceRewind r)
           in flag_if (sint (ph_timestamp_ns header) < sint (pv_last_timestamp_ns v)) TimestampBackward r
         else r)"

definition validate :: "registry \<Rightarrow> PacketValidator \<Rightarrow> bytes \<Rightarrow> i64 \<Rightarrow> PacketValidator \<times> ValidationResult" where
  "validate reg v rec now_ns =
     (if length rec < kHeaderSize then (v, flag_if True SizeMismatch (flag_if True BadHeaderSize vr_empty))
      else let header = read_header rec;
               r = check_structure reg rec
           in if vr_corrupted r then (v, r)
              else (v\<lparr>pv_has_baseline := True, pv_expected_sequence := ph_sequence header + 1,
                      pv_last_timestamp_ns := ph_timestamp_ns header\<rparr>,
                    check_tracking v header now_ns r))"

section \<open>Reading defect sets\<close>

lemma defect_shift_inj: "defect_shift d = defect_shift e \<longleftrightarrow> d = e"
  by (cases d; cases e) simp_all

lemma defect_shift_less: "defect_shift d < 10"
  by (cases d) simp_all

lemma bit_defect_bit: "bit (defect_bit d) n \<longleftrightarrow> n = defect_shift d"
  using defect_shift_less [of d] by (auto simp: defect_bit_def bit_simps)

lemma vr_has_bit: "vr_has r d \<longleftrightarrow> bit (vr_defects r) (defect_shift d)"
proof -
  have "vr_defects r AND defect_bit d = (if bit (vr_defects r) (defect_shift d) then defect_bit d else 0)"
    by (rule bit_word_eqI) (auto simp: bit_and_iff bit_defect_bit)
  moreover have "defect_bit d \<noteq> 0" using bit_defect_bit [of d "defect_shift d"] by auto
  ultimately show ?thesis by (simp add: vr_has_def)
qed

definition corruption :: "Defect \<Rightarrow> bool" where
  "corruption d \<longleftrightarrow> d \<in> {BadMagic, BadVersion, BadHeaderSize, SizeMismatch, BadChecksum, UnknownChecksum}"

lemma bit_kCorruptionDefects: "bit kCorruptionDefects n \<longleftrightarrow> (\<exists>d. corruption d \<and> n = defect_shift d)"
  unfolding kCorruptionDefects_def bit_or_iff bit_defect_bit corruption_def by blast

lemma vr_corrupted_iff: "vr_corrupted r \<longleftrightarrow> (\<exists>d. corruption d \<and> vr_has r d)"
proof -
  have "vr_corrupted r \<longleftrightarrow> (\<exists>n. bit (vr_defects r AND kCorruptionDefects) n)"
    unfolding vr_corrupted_def word_eq_0_iff_bit [of "vr_defects r AND kCorruptionDefects"] by blast
  also have "\<dots> \<longleftrightarrow> (\<exists>n d. bit (vr_defects r) n \<and> corruption d \<and> n = defect_shift d)"
    unfolding bit_and_iff bit_kCorruptionDefects by blast
  also have "\<dots> \<longleftrightarrow> (\<exists>d. corruption d \<and> vr_has r d)"
    unfolding vr_has_bit by blast
  finally show ?thesis .
qed

lemma vr_has_flag_if [simp]: "vr_has (flag_if b d r) e \<longleftrightarrow> b \<and> d = e \<or> vr_has r e"
  by (auto simp: vr_has_bit flag_if_def bit_or_iff bit_defect_bit defect_shift_inj)

lemma vr_has_update [simp]:
  "vr_has (r\<lparr>vr_sequence := a\<rparr>) d = vr_has r d" "vr_has (r\<lparr>vr_missing := a\<rparr>) d = vr_has r d"
  "vr_has (r\<lparr>vr_latency_ns := l\<rparr>) d = vr_has r d"
  by (simp_all add: vr_has_def)

lemma vr_has_empty [simp]: "\<not> vr_has vr_empty d"
  by (simp add: vr_has_def vr_empty_def)

lemma flag_if_fields [simp]:
  "vr_sequence (flag_if b d r) = vr_sequence r" "vr_missing (flag_if b d r) = vr_missing r"
  "vr_latency_ns (flag_if b d r) = vr_latency_ns r"
  by (simp_all add: flag_if_def)

lemma vr_clean_flag_if [simp]: "vr_clean (flag_if b d r) \<longleftrightarrow> \<not> b \<and> vr_clean r"
proof -
  have "x OR defect_bit d \<noteq> 0" for x
    by (auto simp: word_eq_0_iff_bit bit_or_iff bit_defect_bit)
  then show ?thesis by (simp add: vr_clean_def flag_if_def)
qed

lemma vr_clean_update [simp]:
  "vr_clean (r\<lparr>vr_sequence := a\<rparr>) = vr_clean r" "vr_clean (r\<lparr>vr_missing := a\<rparr>) = vr_clean r"
  "vr_clean (r\<lparr>vr_latency_ns := l\<rparr>) = vr_clean r" "vr_clean vr_empty"
  by (simp_all add: vr_clean_def vr_empty_def)

lemma vr_clean_no_defect: "vr_clean r \<Longrightarrow> \<not> vr_has r d"
  by (simp add: vr_clean_def vr_has_def)

lemma vr_clean_not_corrupted: "vr_clean r \<Longrightarrow> \<not> vr_corrupted r"
  by (simp add: vr_clean_def vr_corrupted_def)


section \<open>What the validator decides\<close>

text \<open>The packet can be trusted: its structure is right and its checksum matches.\<close>

definition intact :: "registry \<Rightarrow> bytes \<Rightarrow> bool" where
  "intact reg rec \<longleftrightarrow> 32 \<le> length rec \<and> ph_magic (read_header rec) = kPacketMagic \<and>
     ph_version (read_header rec) = kPacketVersion \<and> unat (ph_header_size (read_header rec)) = 32 \<and>
     unat (ph_payload_size (read_header rec)) = length rec - 32 \<and>
     (\<exists>c. reg (ph_checksum_kind (read_header rec)) = Some c \<and> packet_checksum rec c = ph_checksum (read_header rec))"

lemma check_structure_has:
  "vr_has (check_structure reg rec) d \<longleftrightarrow>
     (d = BadMagic \<and> ph_magic (read_header rec) \<noteq> kPacketMagic) \<or>
     (d = BadVersion \<and> ph_version (read_header rec) \<noteq> kPacketVersion) \<or>
     (d = BadHeaderSize \<and> unat (ph_header_size (read_header rec)) \<noteq> 32) \<or>
     (d = SizeMismatch \<and> unat (ph_payload_size (read_header rec)) \<noteq> length rec - 32) \<or>
     (d = BadChecksum \<and> (\<exists>c. reg (ph_checksum_kind (read_header rec)) = Some c \<and>
        packet_checksum rec c \<noteq> ph_checksum (read_header rec))) \<or>
     (d = UnknownChecksum \<and> reg (ph_checksum_kind (read_header rec)) = None)"
  by (auto simp: check_structure_def Let_def kHeaderSize_def split: option.splits)

lemma check_structure_corrupted:
  "32 \<le> length rec \<Longrightarrow> vr_corrupted (check_structure reg rec) \<longleftrightarrow> \<not> intact reg rec"
  unfolding vr_corrupted_iff check_structure_has corruption_def intact_def
  by (cases "reg (ph_checksum_kind (read_header rec))") auto

lemma check_structure_clean:
  "32 \<le> length rec \<Longrightarrow> intact reg rec \<Longrightarrow> vr_clean (check_structure reg rec)"
  by (auto simp: check_structure_def Let_def intact_def kHeaderSize_def)

lemma check_structure_fields [simp]:
  "vr_sequence (check_structure reg rec) = ph_sequence (read_header rec)"
  "vr_missing (check_structure reg rec) = 0" "vr_latency_ns (check_structure reg rec) = 0"
  by (auto simp: check_structure_def Let_def vr_empty_def split: option.splits)

lemma check_tracking_has:
  "vr_has (check_tracking v h now r) d \<longleftrightarrow> vr_has r d \<or>
     (d = TimestampFuture \<and> sint (now + pv_future_tolerance_ns v) < sint (ph_timestamp_ns h)) \<or>
     (pv_has_baseline v \<and>
       ((d = SequenceGap \<and> pv_expected_sequence v < ph_sequence h) \<or>
        (d = SequenceRewind \<and> ph_sequence h < pv_expected_sequence v) \<or>
        (d = TimestampBackward \<and> sint (ph_timestamp_ns h) < sint (pv_last_timestamp_ns v))))"
  by (auto simp: check_tracking_def Let_def)

lemma check_tracking_clean:
  "vr_clean (check_tracking v h now r) \<longleftrightarrow> vr_clean r \<and>
     sint (ph_timestamp_ns h) \<le> sint (now + pv_future_tolerance_ns v) \<and>
     (pv_has_baseline v \<longrightarrow> ph_sequence h = pv_expected_sequence v \<and>
        sint (pv_last_timestamp_ns v) \<le> sint (ph_timestamp_ns h))"
  by (auto simp: check_tracking_def Let_def)

lemma check_tracking_fields [simp]:
  "vr_sequence (check_tracking v h now r) = vr_sequence r"
  "vr_latency_ns (check_tracking v h now r) = now - ph_timestamp_ns h"
  "vr_missing (check_tracking v h now r) =
     (if pv_has_baseline v \<and> pv_expected_sequence v < ph_sequence h
      then ph_sequence h - pv_expected_sequence v else vr_missing r)"
  by (simp_all add: check_tracking_def Let_def)

lemma check_tracking_corrupted: "vr_corrupted (check_tracking v h now r) \<longleftrightarrow> vr_corrupted r"
  unfolding vr_corrupted_iff check_tracking_has corruption_def by auto

lemma validate_corrupt:
  assumes "\<not> intact reg rec"
  shows "fst (validate reg v rec now) = v" "vr_corrupted (snd (validate reg v rec now))"
proof -
  show "fst (validate reg v rec now) = v"
    using assms by (auto simp: validate_def Let_def check_structure_corrupted kHeaderSize_def)
  show "vr_corrupted (snd (validate reg v rec now))"
  proof (cases "32 \<le> length rec")
    case True
    then show ?thesis using assms by (simp add: validate_def Let_def check_structure_corrupted kHeaderSize_def)
  next
    case False
    then show ?thesis
      by (auto simp: validate_def vr_corrupted_iff corruption_def kHeaderSize_def)
  qed
qed

lemma validate_intact:
  assumes "intact reg rec"
  shows "validate reg v rec now =
    (v\<lparr>pv_has_baseline := True, pv_expected_sequence := ph_sequence (read_header rec) + 1,
       pv_last_timestamp_ns := ph_timestamp_ns (read_header rec)\<rparr>,
     check_tracking v (read_header rec) now (check_structure reg rec))"
proof -
  have "32 \<le> length rec" using assms by (simp add: intact_def)
  then show ?thesis using assms by (simp add: validate_def Let_def check_structure_corrupted kHeaderSize_def)
qed

lemma validate_corrupted_iff: "vr_corrupted (snd (validate reg v rec now)) \<longleftrightarrow> \<not> intact reg rec"
proof (cases "intact reg rec")
  case True
  then have "32 \<le> length rec" by (simp add: intact_def)
  with True show ?thesis by (simp add: validate_intact check_tracking_corrupted check_structure_corrupted)
next
  case False
  then show ?thesis by (simp add: validate_corrupt)
qed

lemma validate_clean_iff:
  "vr_clean (snd (validate reg v rec now)) \<longleftrightarrow> intact reg rec \<and>
     sint (ph_timestamp_ns (read_header rec)) \<le> sint (now + pv_future_tolerance_ns v) \<and>
     (pv_has_baseline v \<longrightarrow> ph_sequence (read_header rec) = pv_expected_sequence v \<and>
        sint (pv_last_timestamp_ns v) \<le> sint (ph_timestamp_ns (read_header rec)))"
proof (cases "intact reg rec")
  case True
  then have "32 \<le> length rec" by (simp add: intact_def)
  with True show ?thesis by (simp add: validate_intact check_tracking_clean check_structure_clean)
next
  case False
  then show ?thesis using validate_corrupt(2) vr_clean_not_corrupted by blast
qed

section \<open>Registries that satisfy the checksum contract\<close>

lemma read_header_checksum_inj:
  assumes "ph_checksum (read_header rec) = ph_checksum (read_header rec')" "32 \<le> length rec" "32 \<le> length rec'"
  shows "take 4 (drop 12 rec) = take 4 (drop 12 rec')"
  using assms by (intro load_le_inj [where ?'a = 32]) (simp_all add: read_header_slices)

locale checksum_registry =
  fixes reg :: registry
  assumes find_algorithm: "reg k = Some c \<Longrightarrow> checksum_algorithm c"
    and find_kind: "reg k = Some c \<Longrightarrow> ck_kind c = k"
begin

lemma sealed_intact:
  assumes "reg k = Some c" "32 \<le> length rec" "length rec < 2 ^ 32 + 32"
  shows "intact reg (seal_packet rec s t c)"
proof -
  let ?p = "seal_packet rec s t c"
  have "unat (word_of_nat (length rec - 32) :: u32) = length rec - 32"
    using assms(3) by (simp add: unat_of_nat_small)
  moreover have "ph_checksum (read_header ?p) = packet_checksum ?p c"
    by (rule checksum_algorithm.sealed_checksum [OF find_algorithm [OF assms(1)] assms(2)])
  moreover have "read_header ?p = (read_header (write_header rec s t k))\<lparr>ph_checksum := ph_checksum (read_header ?p)\<rparr>"
    using assms(2) find_kind [OF assms(1)] by (simp add: seal_packet_def Let_def read_patch_checksum)
  ultimately show ?thesis
    using assms(1,2) by (auto simp: intact_def read_write_header)
qed

lemma burst_not_intact:
  assumes intact: "intact reg (pre @ xs @ post)"
    and w: "length xs = length ys" "length xs \<le> 4" "xs \<noteq> ys"
    and kind: "5 < length pre \<or> length pre + length xs \<le> 5"
    and sum: "length pre + length xs \<le> 12 \<or> 16 \<le> length pre \<or> 12 \<le> length pre \<and> length pre + length xs \<le> 16"
  shows "\<not> intact reg (pre @ ys @ post)"
proof
  assume intact': "intact reg (pre @ ys @ post)"
  let ?h = "read_header (pre @ xs @ post)" and ?h' = "read_header (pre @ ys @ post)"
  have len: "32 \<le> length (pre @ xs @ post)" "32 \<le> length (pre @ ys @ post)"
    using intact intact' by (simp_all add: intact_def)
  have "take 1 (drop 5 (pre @ xs @ post)) = take 1 (drop 5 (pre @ ys @ post))"
    using kind w(1) by (intro slice_window) auto
  then have "ph_checksum_kind ?h = ph_checksum_kind ?h'" by (simp add: read_header_slices)
  then obtain c where c: "reg (ph_checksum_kind ?h) = Some c" "packet_checksum (pre @ xs @ post) c = ph_checksum ?h"
      "packet_checksum (pre @ ys @ post) c = ph_checksum ?h'"
    using intact intact' by (auto simp: intact_def)
  note alg = find_algorithm [OF c(1)]
  show False
  proof (cases "length pre + length xs \<le> 12 \<or> 16 \<le> length pre")
    case True
    then have "take 4 (drop 12 (pre @ xs @ post)) = take 4 (drop 12 (pre @ ys @ post))"
      using w(1) by (intro slice_window) auto
    then have "ph_checksum ?h = ph_checksum ?h'" by (simp add: read_header_slices)
    then show False using checksum_algorithm.packet_checksum_burst [OF alg w len(1) True] c by simp
  next
    case False
    with sum have in_field: "12 \<le> length pre" "length pre + length xs \<le> 16" by auto
    then have "packet_image (pre @ xs @ post) = packet_image (pre @ ys @ post)"
      using w(1) by (simp add: packet_image_def)
    then have "packet_checksum (pre @ xs @ post) c = packet_checksum (pre @ ys @ post) c"
      using checksum_algorithm.packet_checksum_image [OF alg] len by simp
    then have "ph_checksum ?h = ph_checksum ?h'" using c by simp
    then have "take 4 (drop 12 (pre @ xs @ post)) = take 4 (drop 12 (pre @ ys @ post))"
      using len by (rule read_header_checksum_inj)
    then have "take (length xs) (drop (length pre - 12) (take 4 (drop 12 (pre @ xs @ post)))) =
        take (length xs) (drop (length pre - 12) (take 4 (drop 12 (pre @ ys @ post))))" by (simp only:)
    then show False using w(1,3) in_field len by (simp add: drop_take min_def)
  qed
qed

end

lemma documented_registry:
  "crc_instructions_documented cpu \<Longrightarrow> checksum_registry (ChecksumRegistry_find cpu)"
  by (rule checksum_registry.intro) (auto intro: ChecksumRegistry_algorithm ChecksumRegistry_find_kind)

text \<open>A build without CRC instructions needs no assumption.\<close>

lemma Crc32c_other_target: "Crc32c (cpu\<lparr>cpu_target := Target_Other\<rparr>) True = Crc32c cpu False"
  by (simp add: Crc32c_def hardware_available_def Crc32c_update_def fun_eq_iff)

lemma ck_kind_Crc32c: "ck_kind (Crc32c cpu hw) = ChecksumKind_Crc32c"
  by (simp add: Crc32c_def Let_def)

interpretation portable_registry: checksum_registry "ChecksumRegistry_find (cpu\<lparr>cpu_target := Target_Other\<rparr>)" for cpu
  by (rule checksum_registry.intro)
    (auto simp: ChecksumRegistry_find_def Crc32c_other_target ck_kind_Crc32c crc32.checksum_algorithm_axioms
      crc32c_software.checksum_algorithm_axioms intro: ChecksumRegistry_find_kind split: if_splits)


section \<open>Streams of packets\<close>

text \<open>The validator run over the records of a stream, each with its receive time.\<close>

fun validate_stream :: "registry \<Rightarrow> PacketValidator \<Rightarrow> (bytes \<times> i64) list \<Rightarrow> PacketValidator \<times> ValidationResult list" where
  "validate_stream reg v [] = (v, [])"
| "validate_stream reg v ((rec, now) # rest) =
     (let (v, r) = validate reg v rec now; (v, rs) = validate_stream reg v rest in (v, r # rs))"

text \<open>The packets a builder seals from a list of buffers, timestamps and receive times.\<close>

fun sealed_stream :: "IChecksum \<Rightarrow> u64 \<Rightarrow> (bytes \<times> i64 \<times> i64) list \<Rightarrow> (bytes \<times> i64) list" where
  "sealed_stream c s [] = []"
| "sealed_stream c s ((buf, t, now) # rest) = (seal_packet buf s t c, now) # sealed_stream c (s + 1) rest"

text \<open>Timestamps that never decrease and are never ahead of the receiver by more than the tolerance.\<close>

fun stream_timely :: "i64 \<Rightarrow> (bytes \<times> i64 \<times> i64) list \<Rightarrow> bool" where
  "stream_timely tol [] = True"
| "stream_timely tol [(buf, t, now)] = (sint t \<le> sint (now + tol))"
| "stream_timely tol ((buf, t, now) # (buf', t', now') # rest) =
     (sint t \<le> sint (now + tol) \<and> sint t \<le> sint t' \<and> stream_timely tol ((buf', t', now') # rest))"

text \<open>The sequence numbers of the records that pass the structure and checksum tests.\<close>

definition intact_sequences :: "registry \<Rightarrow> (bytes \<times> i64) list \<Rightarrow> u64 list" where
  "intact_sequences reg stream = map (\<lambda>(rec, now). ph_sequence (read_header rec)) (filter (\<lambda>(rec, now). intact reg rec) stream)"

lemma seal_packet_header:
  assumes "32 \<le> length rec"
  shows "ph_sequence (read_header (seal_packet rec s t c)) = s"
    "ph_timestamp_ns (read_header (seal_packet rec s t c)) = t"
  using assms by (simp_all add: seal_packet_def Let_def read_patch_checksum read_write_header)

context checksum_registry
begin

lemma validate_sealed_stream:
  assumes "reg k = Some c" "\<And>buf t now. (buf, t, now) \<in> set ps \<Longrightarrow> 32 \<le> length buf \<and> length buf < 2 ^ 32 + 32"
    and "stream_timely (pv_future_tolerance_ns v) ps"
    and "pv_has_baseline v \<Longrightarrow> pv_expected_sequence v = s \<and> (ps \<noteq> [] \<longrightarrow> sint (pv_last_timestamp_ns v) \<le> sint (fst (snd (hd ps))))"
  shows "list_all vr_clean (snd (validate_stream reg v (sealed_stream c s ps)))"
  using assms
proof (induction ps arbitrary: v s)
  case Nil
  show ?case by simp
next
  case (Cons p ps)
  obtain buf t now where p: "p = (buf, t, now)" by (cases p) auto
  let ?pkt = "seal_packet buf s t c"
  have len: "32 \<le> length buf" "length buf < 2 ^ 32 + 32" using Cons.prems(2) p by auto
  have ok: "intact reg ?pkt" by (rule sealed_intact [OF Cons.prems(1) len])
  have hdr: "ph_sequence (read_header ?pkt) = s" "ph_timestamp_ns (read_header ?pkt) = t"
    using len(1) by (simp_all add: seal_packet_header)
  have "sint t \<le> sint (now + pv_future_tolerance_ns v)"
    using Cons.prems(3) p by (cases ps) auto
  then have "vr_clean (snd (validate reg v ?pkt now))"
    using Cons.prems(4) ok hdr p by (auto simp: validate_clean_iff)
  moreover have "list_all vr_clean (snd (validate_stream reg (fst (validate reg v ?pkt now)) (sealed_stream c (s + 1) ps)))"
  proof (rule Cons.IH [OF Cons.prems(1)])
    show "32 \<le> length buf \<and> length buf < 2 ^ 32 + 32" if "(buf, t, now) \<in> set ps" for buf t now
      using Cons.prems(2) [of buf t now] that by simp
    show "stream_timely (pv_future_tolerance_ns (fst (validate reg v ?pkt now))) ps"
      using Cons.prems(3) p ok by (cases ps) (auto simp: validate_intact)
    show "pv_expected_sequence (fst (validate reg v ?pkt now)) = s + 1 \<and>
        (ps \<noteq> [] \<longrightarrow> sint (pv_last_timestamp_ns (fst (validate reg v ?pkt now))) \<le> sint (fst (snd (hd ps))))"
      using Cons.prems(3) p ok hdr by (cases ps) (auto simp: validate_intact)
  qed
  ultimately show ?case by (simp add: p split_beta)
qed

end

lemma corrupted_missing_0:
  "vr_missing (snd (validate reg v rec now)) = 0" if "\<not> intact reg rec"
  using that
  by (simp add: validate_def Let_def check_structure_corrupted kHeaderSize_def vr_empty_def)

text \<open>
  Every number between the first expected sequence number and the last one seen is either
  received or counted as missing.
\<close>

lemma missing_adds_up:
  assumes "pv_has_baseline v" "sorted_wrt (<) (map unat (intact_sequences reg ps))"
    and "\<And>q. q \<in> set (intact_sequences reg ps) \<Longrightarrow> unat (pv_expected_sequence v) \<le> unat q"
    and "\<And>q. q \<in> set (intact_sequences reg ps) \<Longrightarrow> unat q + 1 < 2 ^ 64"
  shows "unat (pv_expected_sequence v) + length (intact_sequences reg ps) +
           (\<Sum>r\<leftarrow>snd (validate_stream reg v ps). unat (vr_missing r)) =
         unat (pv_expected_sequence (fst (validate_stream reg v ps)))"
  using assms
proof (induction ps arbitrary: v)
  case Nil
  show ?case by (simp add: intact_sequences_def)
next
  case (Cons p ps)
  obtain rec now where p: "p = (rec, now)" by (cases p) auto
  show ?case
  proof (cases "intact reg rec")
    case False
    then show ?thesis
      using Cons.IH [of v] Cons.prems by (simp add: p intact_sequences_def split_beta validate_corrupt corrupted_missing_0)
  next
    case True
    let ?q = "ph_sequence (read_header rec)" and ?v = "fst (validate reg v rec now)"
    have qs: "intact_sequences reg (p # ps) = ?q # intact_sequences reg ps"
      using True by (simp add: p intact_sequences_def)
    have v: "pv_has_baseline ?v" "pv_expected_sequence ?v = ?q + 1" using True by (simp_all add: validate_intact)
    have e: "unat (pv_expected_sequence ?v) = unat ?q + 1"
      using Cons.prems(4) [of ?q] qs v by (simp add: unat_add_small)
    have le: "unat (pv_expected_sequence v) \<le> unat ?q" using Cons.prems(3) [of ?q] qs by simp
    have m: "unat (vr_missing (snd (validate reg v rec now))) = unat ?q - unat (pv_expected_sequence v)"
      using True le Cons.prems(1) by (auto simp: validate_intact word_less_nat_alt unat_sub_small)
    have "unat (pv_expected_sequence ?v) + length (intact_sequences reg ps) +
        (\<Sum>r\<leftarrow>snd (validate_stream reg ?v ps). unat (vr_missing r)) =
        unat (pv_expected_sequence (fst (validate_stream reg ?v ps)))"
    proof (rule Cons.IH [OF v(1)])
      show "sorted_wrt (<) (map unat (intact_sequences reg ps))" using Cons.prems(2) qs by simp
      show "unat (pv_expected_sequence ?v) \<le> unat q" if "q \<in> set (intact_sequences reg ps)" for q
        using Cons.prems(2) qs that e by auto
      show "unat q + 1 < 2 ^ 64" if "q \<in> set (intact_sequences reg ps)" for q
        using Cons.prems(4) qs that by simp
    qed
    then show ?thesis using e m le by (simp add: p qs [unfolded p] split_beta)
  qed
qed


section \<open>Descriptions identify the defects\<close>

definition join_with :: "string \<Rightarrow> string list \<Rightarrow> string" where
  "join_with sep xs = foldl (\<lambda>acc x. (if acc \<noteq> [] then acc @ sep else acc) @ x) [] xs"

lemma foldl_join:
  "acc \<noteq> [] \<Longrightarrow> foldl (\<lambda>acc x. (if acc \<noteq> [] then acc @ sep else acc) @ x) acc xs = acc @ concat (map (\<lambda>x. sep @ x) xs)"
  by (induction xs arbitrary: acc) simp_all

lemma join_with_Cons: "x \<noteq> [] \<Longrightarrow> join_with sep (x # xs) = x @ concat (map (\<lambda>x. sep @ x) xs)"
  by (simp add: join_with_def foldl_join)

lemma split_at_comma:
  assumes "CHR '','' \<notin> set x" "CHR '','' \<notin> set y" "x @ as = y @ bs"
    "as = [] \<or> hd as = CHR '',''" "bs = [] \<or> hd bs = CHR '',''"
  shows "x = y \<and> as = bs"
  using assms
proof (induction x arbitrary: y)
  case Nil
  then show ?case by (cases y) auto
next
  case (Cons a x)
  then show ?case by (cases y) auto
qed

lemma concat_comma_inj:
  assumes "\<And>x. x \<in> set xs \<union> set ys \<Longrightarrow> CHR '','' \<notin> set x"
    "concat (map (\<lambda>x. '', '' @ x) xs) = concat (map (\<lambda>x. '', '' @ x) ys)"
  shows "xs = ys"
  using assms
proof (induction xs arbitrary: ys)
  case Nil
  then show ?case by (cases ys) auto
next
  case (Cons x xs)
  then obtain y zs where ys: "ys = y # zs" by (cases ys) auto
  have hd: "ws = [] \<or> concat (map (\<lambda>x. '', '' @ x) ws) = [] \<or> hd (concat (map (\<lambda>x. '', '' @ x) ws)) = CHR '',''" for ws :: "string list"
    by (cases ws) auto
  have "x = y \<and> concat (map (\<lambda>x. '', '' @ x) xs) = concat (map (\<lambda>x. '', '' @ x) zs)"
    by (rule split_at_comma) (use Cons.prems hd [of xs] hd [of zs] in \<open>auto simp: ys\<close>)
  then show ?case using Cons.IH [of zs] Cons.prems(1) by (auto simp: ys)
qed

lemma join_with_inj:
  assumes "\<And>x. x \<in> set xs \<union> set ys \<Longrightarrow> CHR '','' \<notin> set x \<and> x \<noteq> []" "join_with '', '' xs = join_with '', '' ys"
  shows "xs = ys"
proof (cases xs; cases ys)
  fix x xs' y ys' assume c: "xs = x # xs'" "ys = y # ys'"
  have "concat (map (\<lambda>x. '', '' @ x) (x # xs')) = concat (map (\<lambda>x. '', '' @ x) (y # ys'))"
    using assms c by (simp add: join_with_Cons)
  then show ?thesis using concat_comma_inj [of "x # xs'" "y # ys'"] assms(1) c by blast
qed (use assms in \<open>auto simp: join_with_Cons join_with_def foldl_join\<close>)

lemma describe_defects_join:
  "describe_defects m = (let acc = join_with '', '' (map snd (filter (\<lambda>(d, name). m AND defect_bit d \<noteq> 0) kNames))
     in if acc = [] then ''ok'' else acc)"
proof -
  have "foldl (\<lambda>acc (d, name). if m AND defect_bit d \<noteq> 0 then (if acc \<noteq> [] then acc @ '', '' else acc) @ name else acc) acc ns =
      foldl (\<lambda>acc x. (if acc \<noteq> [] then acc @ '', '' else acc) @ x) acc (map snd (filter (\<lambda>(d, name). m AND defect_bit d \<noteq> 0) ns))"
    for ns :: "(Defect \<times> string) list" and acc
    by (induction ns arbitrary: acc) (auto split: prod.splits)
  then show ?thesis by (simp add: describe_defects_def join_with_def)
qed

lemma kNames_facts:
  "distinct (map snd kNames)" "distinct (map fst kNames)"
  "\<And>d. d \<in> fst ` set kNames" "\<And>x. x \<in> snd ` set kNames \<Longrightarrow> CHR '','' \<notin> set x \<and> x \<noteq> [] \<and> x \<noteq> ''ok''"
proof -
  show "distinct (map snd kNames)" "distinct (map fst kNames)" by (simp_all add: kNames_def)
  show "d \<in> fst ` set kNames" for d by (cases d) (simp_all add: kNames_def)
  have "list_all (\<lambda>x. CHR '','' \<notin> set x \<and> x \<noteq> [] \<and> x \<noteq> ''ok'') (map snd kNames)" by (simp add: kNames_def)
  then show "CHR '','' \<notin> set x \<and> x \<noteq> [] \<and> x \<noteq> ''ok''" if "x \<in> snd ` set kNames" for x
    using that by (auto simp: list_all_iff)
qed


lemma described_iff:
  "(d, name) \<in> set kNames \<Longrightarrow>
     name \<in> set (map snd (filter (\<lambda>(d, name). m AND defect_bit d \<noteq> 0) kNames)) \<longleftrightarrow> m AND defect_bit d \<noteq> 0"
proof -
  assume d: "(d, name) \<in> set kNames"
  have "e = d" if "(e, name) \<in> set kNames" for e
    using kNames_facts(1) d that inj_onD [of snd "set kNames" "(e, name)" "(d, name)"] by (simp add: distinct_map)
  then show ?thesis using d unfolding set_map set_filter image_iff by (metis (mono_tags, lifting) case_prod_conv mem_Collect_eq prod.collapse snd_conv)
qed

lemma describe_defects_eq_imp:
  assumes "describe_defects m = describe_defects n" "m AND defect_bit d \<noteq> 0"
  shows "n AND defect_bit d \<noteq> 0"
proof -
  define names where "names k = map snd (filter (\<lambda>(d, name). k AND defect_bit d \<noteq> 0) kNames)" for k
  have good: "CHR '','' \<notin> set x \<and> x \<noteq> [] \<and> x \<noteq> ''ok''" if "x \<in> set (names k)" for x k
    using that by (intro kNames_facts(4)) (auto simp: names_def image_iff intro: rev_bexI)
  have shape: "describe_defects k = (if names k = [] then ''ok'' else join_with '', '' (names k))" for k
  proof (cases "names k")
    case Nil
    then show ?thesis by (simp add: describe_defects_join join_with_def flip: names_def)
  next
    case (Cons x xs)
    then show ?thesis using good [of x k] by (simp add: describe_defects_join Let_def join_with_Cons flip: names_def)
  qed
  have not_ok: "join_with '', '' (names k) \<noteq> ''ok''" if ne: "names k \<noteq> []" for k
  proof -
    obtain x xs where "names k = x # xs" using ne by (cases "names k") auto
    then show ?thesis using good [of x k] by (cases xs) (auto simp: join_with_Cons append_eq_Cons_conv)
  qed
  obtain name where name: "(d, name) \<in> set kNames" using kNames_facts(3) [of d] by auto
  have "name \<in> set (names m)" using described_iff [OF name] assms(2) by (simp add: names_def)
  then have m: "names m \<noteq> []" by auto
  then have n: "names n \<noteq> []" using assms(1) shape [of m] shape [of n] not_ok [OF m] by auto
  have "join_with '', '' (names m) = join_with '', '' (names n)"
    using assms(1) shape [of m] shape [of n] m n by simp
  then have "names m = names n" using good by (intro join_with_inj) auto
  then show ?thesis using \<open>name \<in> set (names m)\<close> described_iff [OF name] by (simp add: names_def)
qed

section \<open>Properties\<close>

text \<open>
  C26: the validator reports a packet clean exactly when its magic, version, header size and
  payload size are right, the checksum algorithm it names is known and its checksum matches,
  its timestamp is not ahead of the receive clock by more than the tolerance and, once there
  is a baseline, its sequence number is the expected one and its timestamp not before the
  previous one. It reports corruption exactly when one of the structure or checksum tests
  fails, and then leaves the sequence tracking untouched.
\<close>

theorem validator_decides:
  "(vr_clean (snd (validate reg v rec now)) \<longleftrightarrow> intact reg rec \<and>
     sint (ph_timestamp_ns (read_header rec)) \<le> sint (now + pv_future_tolerance_ns v) \<and>
     (pv_has_baseline v \<longrightarrow> ph_sequence (read_header rec) = pv_expected_sequence v \<and>
        sint (pv_last_timestamp_ns v) \<le> sint (ph_timestamp_ns (read_header rec)))) \<and>
   (vr_corrupted (snd (validate reg v rec now)) \<longleftrightarrow> \<not> intact reg rec) \<and>
   (\<not> intact reg rec \<longrightarrow> fst (validate reg v rec now) = v)"
  by (simp add: validate_clean_iff validate_corrupted_iff validate_corrupt)

theorem validator_decides_witness:
  "\<not> intact (\<lambda>_. None) (replicate 40 0) \<and>
   vr_corrupted (snd (validate (\<lambda>_. None) (PacketValidator_new 0) (replicate 40 0) 0)) \<and>
   fst (validate (\<lambda>_. None) (PacketValidator_new 0) (replicate 40 0) 0) = PacketValidator_new 0"
  using validator_decides [of "\<lambda>_. None" "PacketValidator_new 0" "replicate 40 0" 0]
  by (simp add: intact_def)

text \<open>
  C5: a producer that seals its packets with consecutive sequence numbers and non-decreasing
  timestamps is never accused: the validator reports every packet of such a stream clean, as
  long as no timestamp is ahead of the receive clock by more than the tolerance.
\<close>

theorem sealed_stream_validates_clean:
  assumes "crc_instructions_documented cpu" "ChecksumRegistry_find cpu k = Some c"
    and "\<forall>(buf, t, now) \<in> set ps. 32 \<le> length buf \<and> length buf < 2 ^ 32 + 32"
    and "stream_timely (pv_future_tolerance_ns v) ps" "\<not> pv_has_baseline v"
  shows "list_all vr_clean (snd (validate_stream (ChecksumRegistry_find cpu) v (sealed_stream c s ps)))"
  by (rule checksum_registry.validate_sealed_stream [OF documented_registry [OF assms(1)] assms(2)])
    (use assms(3-5) in auto)

theorem sealed_stream_validates_clean_witness:
  "list_all vr_clean (snd (validate_stream (ChecksumRegistry_find serial_cpu) (PacketValidator_new 1000)
     (sealed_stream Crc32 7 [(replicate 40 1, 5, 9), (replicate 32 0, 6, 8)])))"
proof -
  have "ChecksumRegistry_find serial_cpu 1 = Some Crc32"
    by (simp add: ChecksumRegistry_find_def ChecksumKind_Crc32_def)
  from sealed_stream_validates_clean [OF serial_cpu_documented this,
      of "[(replicate 40 1, 5, 9), (replicate 32 0, 6, 8)]" "PacketValidator_new 1000" 7]
  show ?thesis by (simp add: PacketValidator_new_def)
qed

text \<open>
  C4: damage is caught: take any packet the validator accepts as intact and change up to four
  consecutive bytes of it, anywhere except across the boundary of the checksum field or over
  the byte that names the algorithm; the validator then reports the packet as corrupted and
  its sequence tracking stays as it was.
\<close>

theorem damaged_packet_rejected:
  assumes "crc_instructions_documented cpu" "intact (ChecksumRegistry_find cpu) (pre @ xs @ post)"
    and "length xs = length ys" "length xs \<le> 4" "xs \<noteq> ys"
    and "5 < length pre \<or> length pre + length xs \<le> 5"
    and "length pre + length xs \<le> 12 \<or> 16 \<le> length pre \<or> 12 \<le> length pre \<and> length pre + length xs \<le> 16"
  shows "vr_corrupted (snd (validate (ChecksumRegistry_find cpu) v (pre @ ys @ post) now)) \<and>
         fst (validate (ChecksumRegistry_find cpu) v (pre @ ys @ post) now) = v"
  using checksum_registry.burst_not_intact [OF documented_registry [OF assms(1)] assms(2-7)]
  by (simp add: validate_corrupt)

theorem damaged_packet_rejected_witness:
  "\<exists>p. vr_clean (snd (validate (ChecksumRegistry_find serial_cpu) (PacketValidator_new 0) p 3)) \<and>
     vr_corrupted (snd (validate (ChecksumRegistry_find serial_cpu) (PacketValidator_new 0) (take 35 p @ [0x41] @ drop 36 p) 3))"
proof -
  define p where "p = seal_packet (replicate 40 0x40) 7 2 Crc32"
  have find_crc: "ChecksumRegistry_find serial_cpu 1 = Some Crc32"
    by (simp add: ChecksumRegistry_find_def ChecksumKind_Crc32_def)
  have ok: "intact (ChecksumRegistry_find serial_cpu) p"
    unfolding p_def by (rule checksum_registry.sealed_intact [OF documented_registry [OF serial_cpu_documented] find_crc]) simp_all
  have "drop 32 p = replicate 8 0x40" by (simp add: p_def seal_packet_def Let_def)
  moreover have "p ! 35 = drop 32 p ! 3" by (simp add: p_def)
  ultimately have "p ! 35 = 0x40" by (simp add: eval_nat_numeral)
  moreover have "p = take 35 p @ p ! 35 # drop 36 p" by (rule id_take_nth_drop [of 35 p, simplified]) (simp add: p_def)
  ultimately have p: "p = take 35 p @ [0x40] @ drop 36 p" by simp
  have len: "length p = 40" by (simp add: p_def)
  have "vr_clean (snd (validate (ChecksumRegistry_find serial_cpu) (PacketValidator_new 0) p 3))"
    using ok by (simp add: validate_clean_iff PacketValidator_new_def) (simp add: p_def seal_packet_header)
  moreover have "vr_corrupted (snd (validate (ChecksumRegistry_find serial_cpu) (PacketValidator_new 0) (take 35 p @ [0x41] @ drop 36 p) 3))"
    using damaged_packet_rejected [OF serial_cpu_documented, of "take 35 p" "[0x40]" "drop 36 p" "[0x41]"] ok p len by simp
  ultimately show ?thesis by blast
qed

text \<open>
  C8: no packet is lost silently: once there is a baseline, over any stream whose intact
  packets have increasing sequence numbers, the number of intact packets plus the missing
  counts reported is exactly the distance between the first and the last expected sequence
  number. Corrupted packets in between do not disturb the count.
\<close>

theorem missing_counts_account_for_gaps:
  assumes "pv_has_baseline v" "sorted_wrt (<) (map unat (intact_sequences reg ps))"
    and "\<forall>q \<in> set (intact_sequences reg ps). unat (pv_expected_sequence v) \<le> unat q \<and> unat q + 1 < 2 ^ 64"
  shows "unat (pv_expected_sequence v) + length (intact_sequences reg ps) +
           (\<Sum>r\<leftarrow>snd (validate_stream reg v ps). unat (vr_missing r)) =
         unat (pv_expected_sequence (fst (validate_stream reg v ps)))"
  by (rule missing_adds_up) (use assms in auto)

theorem missing_counts_account_for_gaps_witness:
  "unat (10 :: u64) + 1 + (\<Sum>r\<leftarrow>snd (validate_stream (ChecksumRegistry_find serial_cpu)
       \<lparr>pv_future_tolerance_ns = 0, pv_has_baseline = True, pv_expected_sequence = 10, pv_last_timestamp_ns = 0\<rparr>
       [(seal_packet (replicate 32 0) 14 2 Crc32, 3), ([], 4)]). unat (vr_missing r)) = 15"
proof -
  let ?v = "\<lparr>pv_future_tolerance_ns = 0, pv_has_baseline = True, pv_expected_sequence = 10, pv_last_timestamp_ns = 0\<rparr>"
  let ?reg = "ChecksumRegistry_find serial_cpu" and ?p = "seal_packet (replicate 32 0) 14 2 Crc32"
  have find_crc: "?reg 1 = Some Crc32" by (simp add: ChecksumRegistry_find_def ChecksumKind_Crc32_def)
  have ok: "intact ?reg ?p"
    by (rule checksum_registry.sealed_intact [OF documented_registry [OF serial_cpu_documented] find_crc]) simp_all
  have bad: "\<not> intact ?reg []" by (simp add: intact_def)
  have seqs: "intact_sequences ?reg [(?p, 3), ([], 4)] = [14]"
    using ok bad by (simp add: intact_sequences_def seal_packet_header)
  have "pv_expected_sequence (fst (validate_stream ?reg ?v [(?p, 3), ([], 4)])) = 15"
    using ok bad by (simp add: validate_intact validate_corrupt split_beta seal_packet_header)
  then show ?thesis
    using missing_counts_account_for_gaps [of ?v ?reg "[(?p, 3), ([], 4)]"] by (simp add: seqs)
qed

text \<open>
  The text printed for a set of defects identifies the set: two defect masks have the same
  description exactly when they contain the same of the ten defects.
\<close>

lemma describe_defects_identifies:
  "describe_defects m = describe_defects n \<longleftrightarrow> (\<forall>d. (m AND defect_bit d \<noteq> 0) = (n AND defect_bit d \<noteq> 0))"
proof
  show "describe_defects m = describe_defects n" if "\<forall>d. (m AND defect_bit d \<noteq> 0) = (n AND defect_bit d \<noteq> 0)"
    using that by (simp add: describe_defects_join)
qed (use describe_defects_eq_imp in metis)

end
