(* ===== verification/Stats.thy ===== *)
theory Stats
  imports Pc_Prelude
begin

text \<open>
  Rate windows and periodic timers: \<^verbatim>\<open>common/src/stats.cpp\<close> and
  \<^verbatim>\<open>common/include/pc/stats.hpp\<close>, shared by the two applications. The steady clock is read by
  the operations; here each reading is an argument, in nanoseconds as an integer. The lemmas
  show that a timer is never due twice within its period.
\<close>

section \<open>Rate windows and timers\<close>

type_synonym steady_ns = int

record RateSample =
  rs_packets :: u64
  rs_bytes :: u64
  rs_elapsed :: steady_ns

record RateWindow =
  rw_packets :: u64
  rw_bytes :: u64
  rw_start :: steady_ns

definition RateWindow_new :: "steady_ns \<Rightarrow> RateWindow" where
  "RateWindow_new now = \<lparr>rw_packets = 0, rw_bytes = 0, rw_start = now\<rparr>"

definition RateWindow_add :: "RateWindow \<Rightarrow> u64 \<Rightarrow> RateWindow" where
  "RateWindow_add w bytes = w\<lparr>rw_packets := rw_packets w + 1, rw_bytes := rw_bytes w + bytes\<rparr>"

definition RateWindow_take :: "RateWindow \<Rightarrow> steady_ns \<Rightarrow> RateWindow \<times> RateSample" where
  "RateWindow_take w now =
     (w\<lparr>rw_packets := 0, rw_bytes := 0, rw_start := now\<rparr>,
      \<lparr>rs_packets = rw_packets w, rs_bytes = rw_bytes w, rs_elapsed = now - rw_start w\<rparr>)"

definition RateWindow_reset :: "RateWindow \<Rightarrow> steady_ns \<Rightarrow> RateWindow" where
  "RateWindow_reset w now = w\<lparr>rw_packets := 0, rw_bytes := 0, rw_start := now\<rparr>"

record PeriodicTimer =
  pt_period :: steady_ns
  pt_next :: steady_ns

definition PeriodicTimer_new :: "int \<Rightarrow> steady_ns \<Rightarrow> PeriodicTimer" where
  "PeriodicTimer_new period_ms now = \<lparr>pt_period = 1000000 * period_ms, pt_next = now + 1000000 * period_ms\<rparr>"

definition PeriodicTimer_due :: "PeriodicTimer \<Rightarrow> steady_ns \<Rightarrow> PeriodicTimer \<times> bool" where
  "PeriodicTimer_due t now = (if now < pt_next t then (t, False) else (t\<lparr>pt_next := now + pt_period t\<rparr>, True))"

section \<open>Timers\<close>

text \<open>The clock readings at which a timer, asked at each of the readings given, is due.\<close>

fun timer_fires :: "PeriodicTimer \<Rightarrow> steady_ns list \<Rightarrow> steady_ns list" where
  "timer_fires t [] = []"
| "timer_fires t (now # nows) =
     (let (t, fired) = PeriodicTimer_due t now in if fired then now # timer_fires t nows else timer_fires t nows)"

lemma timer_fires_spaced:
  "successively (\<lambda>a b. a + pt_period t \<le> b) ((pt_next t - pt_period t) # timer_fires t nows)"
proof (induction nows arbitrary: t)
  case (Cons now nows)
  show ?case
  proof (cases "now < pt_next t")
    case True
    then show ?thesis using Cons.IH [of t] by (simp add: PeriodicTimer_due_def)
  next
    case False
    then show ?thesis
      using Cons.IH [of "t\<lparr>pt_next := now + pt_period t\<rparr>"] by (simp add: PeriodicTimer_due_def)
  qed
qed simp

text \<open>
  A periodic timer is never due twice within its period: the first time it is due is at
  least one period after its creation, and each later time at least one period after the
  previous one, at whatever moments it is asked.
\<close>

lemma periodic_timer_spacing:
  "successively (\<lambda>a b. a + 1000000 * ms \<le> b) (start # timer_fires (PeriodicTimer_new ms start) nows)"
  using timer_fires_spaced [of "PeriodicTimer_new ms start" nows] by (simp add: PeriodicTimer_new_def)

end
