(* ===== verification/Consumer_Stats.thy ===== *)
theory Consumer_Stats
  imports Packet_Validator Stats
begin

text \<open>
  The consumer's counters: \<^verbatim>\<open>consumer/consumer_stats.cpp\<close> and
  \<^verbatim>\<open>consumer/consumer_stats.hpp\<close>. The lemmas give the counters as functions of the history of
  recorded results and show that the interval reports partition it.
\<close>

section \<open>Consumer counters\<close>

record ConsumerTotals =
  ct_received :: u64
  ct_bytes :: u64
  ct_valid :: u64
  ct_corrupted :: u64
  ct_sequence_gaps :: u64
  ct_missing :: u64
  ct_sequence_rewinds :: u64
  ct_timestamp_anomalies :: u64
  ct_dropped :: u64
  ct_dropped_bytes :: u64

definition ConsumerTotals_zero :: ConsumerTotals where
  "ConsumerTotals_zero = \<lparr>ct_received = 0, ct_bytes = 0, ct_valid = 0, ct_corrupted = 0, ct_sequence_gaps = 0,
     ct_missing = 0, ct_sequence_rewinds = 0, ct_timestamp_anomalies = 0, ct_dropped = 0, ct_dropped_bytes = 0\<rparr>"

record LatencySample =
  ls_min_ns :: i64
  ls_max_ns :: i64
  ls_sum_ns :: i64
  ls_count :: u64

text \<open>\<^verbatim>\<open>numeric_limits<int64_t>::max()\<close> and \<^verbatim>\<open>min()\<close> as the initial bounds.\<close>

definition LatencySample_empty :: LatencySample where
  "LatencySample_empty = \<lparr>ls_min_ns = 0x7FFFFFFFFFFFFFFF, ls_max_ns = 0x8000000000000000, ls_sum_ns = 0, ls_count = 0\<rparr>"

definition LatencySample_add :: "LatencySample \<Rightarrow> i64 \<Rightarrow> LatencySample" where
  "LatencySample_add s latency_ns =
     (let s = (if sint latency_ns < sint (ls_min_ns s) then s\<lparr>ls_min_ns := latency_ns\<rparr> else s);
          s = (if sint (ls_max_ns s) < sint latency_ns then s\<lparr>ls_max_ns := latency_ns\<rparr> else s)
      in s\<lparr>ls_sum_ns := ls_sum_ns s + latency_ns, ls_count := ls_count s + 1\<rparr>)"

record ConsumerSnapshot =
  sn_totals :: ConsumerTotals
  sn_interval :: RateSample
  sn_latency :: LatencySample

record ConsumerStats =
  cs_totals :: ConsumerTotals
  cs_window :: RateWindow
  cs_latency :: LatencySample
  cs_started :: steady_ns

definition ConsumerStats_new :: "steady_ns \<Rightarrow> ConsumerStats" where
  "ConsumerStats_new now = \<lparr>cs_totals = ConsumerTotals_zero, cs_window = RateWindow_new now,
     cs_latency = LatencySample_empty, cs_started = now\<rparr>"

definition ConsumerStats_record :: "ConsumerStats \<Rightarrow> ValidationResult \<Rightarrow> u64 \<Rightarrow> ConsumerStats" where
  "ConsumerStats_record s result bytes =
     (let t = cs_totals s;
          t = t\<lparr>ct_received := ct_received t + 1\<rparr>;
          t = t\<lparr>ct_bytes := ct_bytes t + bytes\<rparr>;
          s = s\<lparr>cs_window := RateWindow_add (cs_window s) bytes\<rparr>;
          t = (if vr_clean result then t\<lparr>ct_valid := ct_valid t + 1\<rparr> else t)
      in if vr_corrupted result then s\<lparr>cs_totals := t\<lparr>ct_corrupted := ct_corrupted t + 1\<rparr>\<rparr>
         else
           let s = s\<lparr>cs_latency := LatencySample_add (cs_latency s) (vr_latency_ns result)\<rparr>;
               t = (if vr_has result SequenceGap
                    then t\<lparr>ct_sequence_gaps := ct_sequence_gaps t + 1, ct_missing := ct_missing t + vr_missing result\<rparr> else t);
               t = (if vr_has result SequenceRewind then t\<lparr>ct_sequence_rewinds := ct_sequence_rewinds t + 1\<rparr> else t);
               t = (if vr_has result TimestampFuture \<or> vr_has result TimestampBackward
                    then t\<lparr>ct_timestamp_anomalies := ct_timestamp_anomalies t + 1\<rparr> else t)
           in s\<lparr>cs_totals := t\<rparr>)"

definition ConsumerStats_record_dropped :: "ConsumerStats \<Rightarrow> u64 \<Rightarrow> ConsumerStats" where
  "ConsumerStats_record_dropped s bytes =
     (let t = cs_totals s in s\<lparr>cs_totals := t\<lparr>ct_dropped := ct_dropped t + 1, ct_dropped_bytes := ct_dropped_bytes t + bytes\<rparr>\<rparr>)"

definition ConsumerStats_take_interval :: "ConsumerStats \<Rightarrow> steady_ns \<Rightarrow> ConsumerStats \<times> ConsumerSnapshot" where
  "ConsumerStats_take_interval s now =
     (let (w, sample) = RateWindow_take (cs_window s) now
      in (s\<lparr>cs_window := w, cs_latency := LatencySample_empty\<rparr>,
          \<lparr>sn_totals = cs_totals s, sn_interval = sample, sn_latency = cs_latency s\<rparr>))"

definition ConsumerStats_elapsed :: "ConsumerStats \<Rightarrow> steady_ns \<Rightarrow> steady_ns" where
  "ConsumerStats_elapsed s now = now - cs_started s"

definition ConsumerStats_reset :: "ConsumerStats \<Rightarrow> steady_ns \<Rightarrow> ConsumerStats" where
  "ConsumerStats_reset s now = s\<lparr>cs_totals := ConsumerTotals_zero, cs_window := RateWindow_reset (cs_window s) now,
     cs_latency := LatencySample_empty, cs_started := now\<rparr>"

section \<open>Histories\<close>

text \<open>What happens to the statistics during a session, and a run of it with the snapshots taken.\<close>

datatype stats_event = StRecord ValidationResult u64 | StDropped u64 | StTake steady_ns

fun stats_run :: "ConsumerStats \<Rightarrow> stats_event list \<Rightarrow> ConsumerStats \<times> ConsumerSnapshot list" where
  "stats_run s [] = (s, [])"
| "stats_run s (StRecord r b # es) = stats_run (ConsumerStats_record s r b) es"
| "stats_run s (StDropped b # es) = stats_run (ConsumerStats_record_dropped s b) es"
| "stats_run s (StTake now # es) =
     (let (s, snap) = ConsumerStats_take_interval s now; (s, snaps) = stats_run s es in (s, snap # snaps))"

fun recorded :: "stats_event list \<Rightarrow> (ValidationResult \<times> u64) list" where
  "recorded [] = []"
| "recorded (StRecord r b # es) = (r, b) # recorded es"
| "recorded (StDropped b # es) = recorded es"
| "recorded (StTake now # es) = recorded es"

fun dropped :: "stats_event list \<Rightarrow> u64 list" where
  "dropped [] = []"
| "dropped (StRecord r b # es) = dropped es"
| "dropped (StDropped b # es) = b # dropped es"
| "dropped (StTake now # es) = dropped es"

definition count_of :: "(ValidationResult \<Rightarrow> bool) \<Rightarrow> (ValidationResult \<times> u64) list \<Rightarrow> u64" where
  "count_of P rs = of_nat (length (filter (\<lambda>(r, b). P r) rs))"

definition totals_of :: "(ValidationResult \<times> u64) list \<Rightarrow> u64 list \<Rightarrow> ConsumerTotals" where
  "totals_of rs ds = \<lparr>ct_received = of_nat (length rs), ct_bytes = sum_list (map snd rs),
     ct_valid = count_of vr_clean rs, ct_corrupted = count_of vr_corrupted rs,
     ct_sequence_gaps = count_of (\<lambda>r. \<not> vr_corrupted r \<and> vr_has r SequenceGap) rs,
     ct_missing = (\<Sum>(r, b)\<leftarrow>rs. if \<not> vr_corrupted r \<and> vr_has r SequenceGap then vr_missing r else 0),
     ct_sequence_rewinds = count_of (\<lambda>r. \<not> vr_corrupted r \<and> vr_has r SequenceRewind) rs,
     ct_timestamp_anomalies = count_of (\<lambda>r. \<not> vr_corrupted r \<and> (vr_has r TimestampFuture \<or> vr_has r TimestampBackward)) rs,
     ct_dropped = of_nat (length ds), ct_dropped_bytes = sum_list ds\<rparr>"

definition totals_add :: "ConsumerTotals \<Rightarrow> ConsumerTotals \<Rightarrow> ConsumerTotals" where
  "totals_add a b = \<lparr>ct_received = ct_received a + ct_received b, ct_bytes = ct_bytes a + ct_bytes b,
     ct_valid = ct_valid a + ct_valid b, ct_corrupted = ct_corrupted a + ct_corrupted b,
     ct_sequence_gaps = ct_sequence_gaps a + ct_sequence_gaps b, ct_missing = ct_missing a + ct_missing b,
     ct_sequence_rewinds = ct_sequence_rewinds a + ct_sequence_rewinds b,
     ct_timestamp_anomalies = ct_timestamp_anomalies a + ct_timestamp_anomalies b,
     ct_dropped = ct_dropped a + ct_dropped b, ct_dropped_bytes = ct_dropped_bytes a + ct_dropped_bytes b\<rparr>"

lemma count_of_Nil [simp]: "count_of P [] = 0"
  by (simp add: count_of_def)

lemma count_of_Cons [simp]: "count_of P ((r, b) # rs) = (if P r then 1 else 0) + count_of P rs"
  by (simp add: count_of_def)

lemma record_totals:
  "cs_totals (ConsumerStats_record s r b) = totals_add (cs_totals s) (totals_of [(r, b)] [])"
  by (auto simp: ConsumerStats_record_def totals_add_def totals_of_def Let_def vr_clean_not_corrupted
      intro!: ConsumerTotals.equality)

lemma dropped_totals:
  "cs_totals (ConsumerStats_record_dropped s b) = totals_add (cs_totals s) (totals_of [] [b])"
  by (simp add: ConsumerStats_record_dropped_def totals_add_def totals_of_def Let_def)

lemma totals_add_assoc: "totals_add (totals_add a b) c = totals_add a (totals_add b c)"
  by (simp add: totals_add_def add.assoc)

lemma totals_of_Cons:
  "totals_add (totals_of [(r, b)] []) (totals_of rs ds) = totals_of ((r, b) # rs) ds"
  "totals_add (totals_of [] [b]) (totals_of rs ds) = totals_of rs (b # ds)"
  by (simp_all add: totals_add_def totals_of_def)

lemma take_interval_simps:
  "cs_totals (fst (ConsumerStats_take_interval s now)) = cs_totals s"
  "rw_packets (cs_window (fst (ConsumerStats_take_interval s now))) = 0"
  "rw_bytes (cs_window (fst (ConsumerStats_take_interval s now))) = 0"
  "sn_totals (snd (ConsumerStats_take_interval s now)) = cs_totals s"
  "rs_packets (sn_interval (snd (ConsumerStats_take_interval s now))) = rw_packets (cs_window s)"
  "rs_bytes (sn_interval (snd (ConsumerStats_take_interval s now))) = rw_bytes (cs_window s)"
  by (simp_all add: ConsumerStats_take_interval_def RateWindow_take_def)

lemma stats_run_totals:
  "cs_totals (fst (stats_run s es)) = totals_add (cs_totals s) (totals_of (recorded es) (dropped es))"
proof (induction es arbitrary: s)
  case Nil
  show ?case by (simp add: totals_add_def totals_of_def)
next
  case (Cons e es)
  then show ?case
    by (cases e) (simp_all add: record_totals dropped_totals totals_add_assoc totals_of_Cons split_beta Let_def take_interval_simps)
qed

lemma totals_add_zero: "totals_add ConsumerTotals_zero t = t"
  by (simp add: totals_add_def ConsumerTotals_zero_def)

lemma record_window:
  "cs_window (ConsumerStats_record s r b) = RateWindow_add (cs_window s) b"
  "cs_window (ConsumerStats_record_dropped s b) = cs_window s"
  by (simp_all add: ConsumerStats_record_def ConsumerStats_record_dropped_def Let_def)

lemma stats_run_window:
  "rw_packets (cs_window s) + of_nat (length (recorded es)) =
     (\<Sum>sn\<leftarrow>snd (stats_run s es). rs_packets (sn_interval sn)) + rw_packets (cs_window (fst (stats_run s es)))"
  "rw_bytes (cs_window s) + sum_list (map snd (recorded es)) =
     (\<Sum>sn\<leftarrow>snd (stats_run s es). rs_bytes (sn_interval sn)) + rw_bytes (cs_window (fst (stats_run s es)))"
proof -
  show "rw_packets (cs_window s) + of_nat (length (recorded es)) =
     (\<Sum>sn\<leftarrow>snd (stats_run s es). rs_packets (sn_interval sn)) + rw_packets (cs_window (fst (stats_run s es)))"
  proof (induction es arbitrary: s)
    case (Cons e es)
    have "\<And>s. (\<Sum>sn\<leftarrow>snd (stats_run s es). rs_packets (sn_interval sn)) + rw_packets (cs_window (fst (stats_run s es))) =
        rw_packets (cs_window s) + of_nat (length (recorded es))" by (simp only: Cons.IH)
    then show ?case
      by (cases e) (simp_all add: record_window RateWindow_add_def split_beta Let_def take_interval_simps add.assoc)
  qed simp
  show "rw_bytes (cs_window s) + sum_list (map snd (recorded es)) =
     (\<Sum>sn\<leftarrow>snd (stats_run s es). rs_bytes (sn_interval sn)) + rw_bytes (cs_window (fst (stats_run s es)))"
  proof (induction es arbitrary: s)
    case (Cons e es)
    have "\<And>s. (\<Sum>sn\<leftarrow>snd (stats_run s es). rs_bytes (sn_interval sn)) + rw_bytes (cs_window (fst (stats_run s es))) =
        rw_bytes (cs_window s) + sum_list (map snd (recorded es))" by (simp only: Cons.IH)
    then show ?case
      by (cases e) (simp_all add: record_window RateWindow_add_def split_beta Let_def take_interval_simps add.assoc)
  qed simp
qed

section \<open>Latency bounds\<close>

lemma sint_i64_range: "sint (x :: i64) \<le> 0x7FFFFFFFFFFFFFFF" "- 0x8000000000000000 \<le> sint (x :: i64)"
proof -
  have "sint x < 2 ^ (LENGTH(64) - 1)" "- (2 ^ (LENGTH(64) - 1)) \<le> sint x"
    by (rule sint_lt, rule sint_ge)
  then show "sint x \<le> 0x7FFFFFFFFFFFFFFF" "- 0x8000000000000000 \<le> sint x" by simp_all
qed

lemma LatencySample_add_simps:
  "sint (ls_min_ns (LatencySample_add s l)) = min (sint l) (sint (ls_min_ns s))"
  "sint (ls_max_ns (LatencySample_add s l)) = max (sint l) (sint (ls_max_ns s))"
  "ls_sum_ns (LatencySample_add s l) = ls_sum_ns s + l" "ls_count (LatencySample_add s l) = ls_count s + 1"
  by (simp_all add: LatencySample_add_def Let_def)

lemma LatencySample_empty_simps:
  "sint (ls_min_ns LatencySample_empty) = 0x7FFFFFFFFFFFFFFF" "sint (ls_max_ns LatencySample_empty) = - 0x8000000000000000"
  "ls_sum_ns LatencySample_empty = 0" "ls_count LatencySample_empty = 0"
  by (simp_all add: LatencySample_empty_def)

lemma foldl_latency:
  "sint (ls_min_ns (foldl LatencySample_add s ls)) = Min (insert (sint (ls_min_ns s)) (sint ` set ls))"
  "sint (ls_max_ns (foldl LatencySample_add s ls)) = Max (insert (sint (ls_max_ns s)) (sint ` set ls))"
  "ls_sum_ns (foldl LatencySample_add s ls) = ls_sum_ns s + sum_list ls"
  "ls_count (foldl LatencySample_add s ls) = ls_count s + of_nat (length ls)"
proof -
  show "sint (ls_min_ns (foldl LatencySample_add s ls)) = Min (insert (sint (ls_min_ns s)) (sint ` set ls))"
    by (induction ls rule: rev_induct) (simp_all add: LatencySample_add_simps insert_commute)
  show "sint (ls_max_ns (foldl LatencySample_add s ls)) = Max (insert (sint (ls_max_ns s)) (sint ` set ls))"
    by (induction ls rule: rev_induct) (simp_all add: LatencySample_add_simps insert_commute)
  show "ls_sum_ns (foldl LatencySample_add s ls) = ls_sum_ns s + sum_list ls"
    by (induction ls arbitrary: s) (simp_all add: LatencySample_add_simps add.assoc)
  show "ls_count (foldl LatencySample_add s ls) = ls_count s + of_nat (length ls)"
    by (induction ls arbitrary: s) (simp_all add: LatencySample_add_simps add.assoc)
qed

lemma latency_of_session:
  assumes "ls \<noteq> []"
  shows "sint (ls_min_ns (foldl LatencySample_add LatencySample_empty ls)) = Min (sint ` set ls)"
    "sint (ls_max_ns (foldl LatencySample_add LatencySample_empty ls)) = Max (sint ` set ls)"
proof -
  have "Min (sint ` set ls) \<le> 0x7FFFFFFFFFFFFFFF"
    using assms sint_i64_range(1) by (intro order_trans [OF Min_le, of _ "sint (hd ls)"]) auto
  then show "sint (ls_min_ns (foldl LatencySample_add LatencySample_empty ls)) = Min (sint ` set ls)"
    using assms by (simp add: foldl_latency LatencySample_empty_simps)
  have "- 0x8000000000000000 \<le> Max (sint ` set ls)"
    using assms sint_i64_range(2) by (intro order_trans [OF _ Max_ge, of _ "sint (hd ls)"]) auto
  then show "sint (ls_max_ns (foldl LatencySample_add LatencySample_empty ls)) = Max (sint ` set ls)"
    using assms by (simp add: foldl_latency LatencySample_empty_simps)
qed

text \<open>The latencies that enter the sample: those of the results that are not corrupted.\<close>

definition latencies :: "(ValidationResult \<times> u64) list \<Rightarrow> i64 list" where
  "latencies rs = map (vr_latency_ns \<circ> fst) (filter (\<lambda>(r, b). \<not> vr_corrupted r) rs)"

lemma record_latency:
  "cs_latency (ConsumerStats_record s r b) =
     (if vr_corrupted r then cs_latency s else LatencySample_add (cs_latency s) (vr_latency_ns r))"
  "cs_latency (ConsumerStats_record_dropped s b) = cs_latency s"
  by (simp_all add: ConsumerStats_record_def ConsumerStats_record_dropped_def Let_def)

lemma stats_run_latency:
  "list_all (\<lambda>e. \<not> (\<exists>now. e = StTake now)) es \<Longrightarrow>
     cs_latency (fst (stats_run s es)) = foldl LatencySample_add (cs_latency s) (latencies (recorded es))"
proof (induction es arbitrary: s)
  case (Cons e es)
  then show ?case by (cases e) (simp_all add: record_latency latencies_def)
qed (simp add: latencies_def)

lemma not_clean_cases: "\<not> vr_clean r \<Longrightarrow> \<not> vr_corrupted r \<Longrightarrow> vr_anomalous r"
proof -
  assume "\<not> vr_clean r" "\<not> vr_corrupted r"
  moreover have "vr_defects r = (vr_defects r AND kCorruptionDefects) OR (vr_defects r AND NOT kCorruptionDefects)"
    by (rule bit_word_eqI) (auto simp: bit_simps)
  ultimately show "vr_anomalous r"
    unfolding vr_clean_def vr_corrupted_def vr_anomalous_def by (metis or.left_neutral)
qed

lemma count_partition:
  "count_of vr_clean rs + count_of vr_corrupted rs + count_of (\<lambda>r. vr_anomalous r \<and> \<not> vr_corrupted r) rs = of_nat (length rs)"
proof (induction rs)
  case (Cons x rs)
  obtain r b where x: "x = (r, b)" by (cases x)
  have "\<not> (vr_clean r \<and> vr_anomalous r)" by (simp add: vr_clean_def vr_anomalous_def)
  then have "(if vr_clean r then 1 else 0) + (if vr_corrupted r then 1 else 0) +
      (if vr_anomalous r \<and> \<not> vr_corrupted r then 1 else 0) = (1 :: u64)"
    using vr_clean_not_corrupted [of r] not_clean_cases [of r] by auto
  then show ?case using Cons.IH by (simp add: x algebra_simps)
qed simp

lemma reset_simps:
  "cs_totals (ConsumerStats_reset s now) = ConsumerTotals_zero"
  "rw_packets (cs_window (ConsumerStats_reset s now)) = 0" "rw_bytes (cs_window (ConsumerStats_reset s now)) = 0"
  "cs_latency (ConsumerStats_reset s now) = LatencySample_empty"
  by (simp_all add: ConsumerStats_reset_def RateWindow_reset_def)

section \<open>Properties\<close>

text \<open>
  The totals are exactly the history: after a reset and any sequence of recorded packets,
  drops and interval reports, each counter is the number (or the byte or missing-packet sum)
  of the packets of its class, and every received packet is counted in exactly one of: valid,
  corrupted, or anomalous but not corrupted.
\<close>

lemma totals_are_the_history:
  "let t = cs_totals (fst (stats_run (ConsumerStats_reset s now) es)) in
     t = totals_of (recorded es) (dropped es) \<and>
     ct_received t = ct_valid t + ct_corrupted t + count_of (\<lambda>r. vr_anomalous r \<and> \<not> vr_corrupted r) (recorded es)"
  using count_partition [of "recorded es"]
  by (simp add: stats_run_totals reset_simps totals_add_zero Let_def) (simp add: totals_of_def)

text \<open>
  Interval reports lose and repeat nothing: over a session the packets and bytes of all
  interval reports plus those of the window still open are the session's totals.
\<close>

lemma interval_reports_partition_totals:
  "let (s', snaps) = stats_run (ConsumerStats_reset s now) es in
     (\<Sum>sn\<leftarrow>snaps. rs_packets (sn_interval sn)) + rw_packets (cs_window s') = ct_received (cs_totals s') \<and>
     (\<Sum>sn\<leftarrow>snaps. rs_bytes (sn_interval sn)) + rw_bytes (cs_window s') = ct_bytes (cs_totals s')"
  using stats_run_window [of "ConsumerStats_reset s now" es] stats_run_totals [of "ConsumerStats_reset s now" es]
  by (simp add: reset_simps totals_add_zero split_beta) (simp add: totals_of_def)

text \<open>
  Between two interval reports the latency sample holds the minimum and maximum latency,
  as signed numbers, the (64-bit) sum and the number of the uncorrupted packets recorded since
  the last report; corrupted packets do not enter it.
\<close>

lemma latency_sample_of_interval:
  assumes "list_all (\<lambda>e. \<not> (\<exists>now. e = StTake now)) es" "latencies (recorded es) \<noteq> []"
  shows "let l = cs_latency (fst (stats_run (fst (ConsumerStats_take_interval s now)) es)); ls = latencies (recorded es) in
     sint (ls_min_ns l) = Min (sint ` set ls) \<and> sint (ls_max_ns l) = Max (sint ` set ls) \<and>
     ls_sum_ns l = sum_list ls \<and> ls_count l = of_nat (length ls)"
  using assms latency_of_session [OF assms(2)]
  by (simp add: stats_run_latency Let_def ConsumerStats_take_interval_def split_beta foldl_latency(3,4) LatencySample_empty_simps)

end
