(* ===== verification/Run_Control.thy ===== *)
theory Run_Control
  imports Pc_Prelude
begin

text \<open>
  The run state of an application and the sources that drive it:
  \<^verbatim>\<open>common/include/pc/control.hpp\<close>, \<^verbatim>\<open>common/src/signal_source.cpp\<close> and
  \<^verbatim>\<open>common/src/keyboard_source.cpp\<close>. What the operating system returns to the two threads
  (signals, poll and read results) is the input of their loops. The lemmas give the pause flag
  and the stop request as functions of the events, in whatever order they arrive.
\<close>

section \<open>RunControl\<close>

record RunControl =
  ctl_stop :: bool
  ctl_paused :: u32

definition RunControl_new :: RunControl where
  "RunControl_new = \<lparr>ctl_stop = False, ctl_paused = 0\<rparr>"

definition request_stop :: "RunControl \<Rightarrow> RunControl" where
  "request_stop c = c\<lparr>ctl_stop := True\<rparr>"

definition stop_requested :: "RunControl \<Rightarrow> bool" where
  "stop_requested c = ctl_stop c"

definition pause :: "RunControl \<Rightarrow> RunControl" where
  "pause c = c\<lparr>ctl_paused := 1\<rparr>"

definition resume :: "RunControl \<Rightarrow> RunControl" where
  "resume c = c\<lparr>ctl_paused := 0\<rparr>"

definition toggle_pause :: "RunControl \<Rightarrow> RunControl" where
  "toggle_pause c = c\<lparr>ctl_paused := ctl_paused c XOR 1\<rparr>"

definition paused :: "RunControl \<Rightarrow> bool" where
  "paused c \<longleftrightarrow> ctl_paused c \<noteq> 0"

section \<open>Signals\<close>

datatype posix_signal = SIGINT | SIGTERM | SIGHUP | SIGUSR1 | SIGUSR2 | OtherSignal nat

text \<open>The set the constructor blocks and waits for.\<close>

definition signal_set :: "posix_signal list" where
  "signal_set = [SIGINT, SIGTERM, SIGHUP, SIGUSR1, SIGUSR2]"

fun signal_action :: "posix_signal \<Rightarrow> RunControl \<Rightarrow> RunControl" where
  "signal_action SIGINT c = request_stop c"
| "signal_action SIGTERM c = request_stop c"
| "signal_action SIGHUP c = request_stop c"
| "signal_action SIGUSR1 c = pause c"
| "signal_action SIGUSR2 c = resume c"
| "signal_action (OtherSignal n) c = c"

text \<open>
  One turn of \<^verbatim>\<open>SignalControlSource::run\<close>: what \<^verbatim>\<open>sigwait\<close> returned (None for a failure) and
  the value of \<^verbatim>\<open>stopping_\<close> read after it. The loop returns the control state and whether the
  thread has ended; it goes on while there are turns.
\<close>

fun SignalControlSource_run :: "(posix_signal option \<times> bool) list \<Rightarrow> RunControl \<Rightarrow> RunControl \<times> bool" where
  "SignalControlSource_run [] c = (c, False)"
| "SignalControlSource_run ((None, stopping) # turns) c = SignalControlSource_run turns c"
| "SignalControlSource_run ((Some sig, stopping) # turns) c =
     (if stopping then (c, True) else SignalControlSource_run turns (signal_action sig c))"

section \<open>Keyboard\<close>

text \<open>
  One turn of \<^verbatim>\<open>KeyboardControlSource::run\<close>: the stop token of the thread, the result of
  \<^verbatim>\<open>poll\<close>, whether \<^verbatim>\<open>revents\<close> has one of \<^verbatim>\<open>POLLHUP | POLLERR | POLLNVAL\<close>, the result of
  \<^verbatim>\<open>read\<close> and the key.
\<close>

record key_turn =
  kt_stop :: bool
  kt_poll :: int
  kt_revents_bad :: bool
  kt_read :: int
  kt_key :: char

definition key_action :: "char \<Rightarrow> RunControl \<Rightarrow> RunControl" where
  "key_action key c = (if key = CHR ''q'' \<or> key = CHR ''Q'' then request_stop c else toggle_pause c)"

fun KeyboardControlSource_run :: "key_turn list \<Rightarrow> RunControl \<Rightarrow> RunControl \<times> bool" where
  "KeyboardControlSource_run [] c = (c, False)"
| "KeyboardControlSource_run (t # turns) c =
     (if \<not> (\<not> kt_stop t \<and> \<not> stop_requested c) then (c, True)
      else if kt_poll t \<le> 0 then KeyboardControlSource_run turns c
      else if kt_revents_bad t then (c, True)
      else if kt_read t = 0 then (c, True)
      else if kt_read t < 0 then KeyboardControlSource_run turns c
      else KeyboardControlSource_run turns (key_action (kt_key t) c))"

text \<open>\<^verbatim>\<open>KeyboardControlSource::available\<close> over what the terminal calls return.\<close>

definition KeyboardControlSource_available :: "int \<Rightarrow> int \<Rightarrow> int \<Rightarrow> bool" where
  "KeyboardControlSource_available isatty_rc tcgetpgrp_rc getpgrp_rc \<longleftrightarrow> isatty_rc = 1 \<and> tcgetpgrp_rc = getpgrp_rc"

section \<open>Control events in any order\<close>

text \<open>
  The operations are single atomic accesses, so the two threads and any other caller interleave
  them: a history is a sequence of operations.
\<close>

datatype control_op = OpStop | OpPause | OpResume | OpToggle

fun control_do :: "control_op \<Rightarrow> RunControl \<Rightarrow> RunControl" where
  "control_do OpStop c = request_stop c"
| "control_do OpPause c = pause c"
| "control_do OpResume c = resume c"
| "control_do OpToggle c = toggle_pause c"

definition control_after :: "control_op list \<Rightarrow> RunControl \<Rightarrow> RunControl" where
  "control_after ops c = foldl (\<lambda>c oper. control_do oper c) c ops"

definition control_ok :: "RunControl \<Rightarrow> bool" where
  "control_ok c \<longleftrightarrow> ctl_paused c = 0 \<or> ctl_paused c = 1"

lemma control_do_ok: "control_ok c \<Longrightarrow> control_ok (control_do oper c)"
  by (cases oper) (auto simp: control_ok_def request_stop_def pause_def resume_def toggle_pause_def)

lemma control_after_ok: "control_ok c \<Longrightarrow> control_ok (control_after ops c)"
  unfolding control_after_def by (induction ops arbitrary: c) (simp_all add: control_do_ok)

lemma control_after_append: "control_after (as @ bs) c = control_after bs (control_after as c)"
  by (simp add: control_after_def)

lemma control_after_Cons: "control_after (a # bs) c = control_after bs (control_do a c)"
  by (simp add: control_after_def)

lemma paused_control_do:
  "control_ok c \<Longrightarrow> paused (control_do oper c) =
     (case oper of OpStop \<Rightarrow> paused c | OpPause \<Rightarrow> True | OpResume \<Rightarrow> False | OpToggle \<Rightarrow> \<not> paused c)"
  by (cases oper) (auto simp: control_ok_def paused_def request_stop_def pause_def resume_def toggle_pause_def)

lemma paused_after_toggles:
  assumes "control_ok c" "OpPause \<notin> set ops" "OpResume \<notin> set ops"
  shows "paused (control_after ops c) \<longleftrightarrow> paused c \<noteq> odd (count_list ops OpToggle)"
  using assms
proof (induction ops arbitrary: c)
  case (Cons oper ops)
  have "paused (control_after ops (control_do oper c)) \<longleftrightarrow> paused (control_do oper c) \<noteq> odd (count_list ops OpToggle)"
    using Cons.prems by (intro Cons.IH control_do_ok) auto
  then show ?case
    using Cons.prems paused_control_do [of c oper] by (cases oper) (auto simp: control_after_Cons)
qed (simp add: control_after_def)

lemma stop_after: "stop_requested (control_after ops c) \<longleftrightarrow> stop_requested c \<or> OpStop \<in> set ops"
proof (induction ops arbitrary: c)
  case (Cons oper ops)
  then show ?case
    by (cases oper) (auto simp: control_after_Cons stop_requested_def request_stop_def pause_def resume_def toggle_pause_def)
qed (simp add: control_after_def)

text \<open>Each turn of a control source performs at most one of the operations.\<close>

lemma signal_run_ops: "\<exists>ops. fst (SignalControlSource_run turns c) = control_after ops c"
proof (induction turns c rule: SignalControlSource_run.induct)
  case (3 sig stopping turns c)
  have one: "\<exists>ops. signal_action sig c = control_after ops c"
  proof (cases sig)
    case (OtherSignal n)
    then show ?thesis by (intro exI [of _ "[]"]) (simp add: control_after_def)
  next
    case SIGINT
    then show ?thesis by (intro exI [of _ "[OpStop]"]) (simp add: control_after_def)
  next
    case SIGTERM
    then show ?thesis by (intro exI [of _ "[OpStop]"]) (simp add: control_after_def)
  next
    case SIGHUP
    then show ?thesis by (intro exI [of _ "[OpStop]"]) (simp add: control_after_def)
  next
    case SIGUSR1
    then show ?thesis by (intro exI [of _ "[OpPause]"]) (simp add: control_after_def)
  next
    case SIGUSR2
    then show ?thesis by (intro exI [of _ "[OpResume]"]) (simp add: control_after_def)
  qed
  show ?case
  proof (cases stopping)
    case True
    then show ?thesis by (intro exI [of _ "[]"]) (simp add: control_after_def)
  next
    case False
    then show ?thesis using one 3 by (auto simp flip: control_after_append)
  qed
qed (auto intro: exI [of _ "[]"] simp: control_after_def)

section \<open>Properties\<close>

text \<open>
  The pause flag after any interleaving of control operations: once a pause or resume
  command is the last of its kind, the application is paused exactly when that command was a
  pause, flipped by the parity of the key presses after it; and a stop request, once made, stays.
\<close>

lemma control_follows_events:
  assumes "last_cmd = OpPause \<or> last_cmd = OpResume" "OpPause \<notin> set later" "OpResume \<notin> set later"
  shows "(paused (control_after (earlier @ last_cmd # later) RunControl_new) \<longleftrightarrow>
           (last_cmd = OpPause) \<noteq> odd (count_list later OpToggle)) \<and>
         (stop_requested (control_after (earlier @ last_cmd # later) RunControl_new) \<longleftrightarrow>
           OpStop \<in> set earlier \<or> OpStop \<in> set later)"
proof -
  let ?c = "control_after earlier RunControl_new"
  have ok: "control_ok ?c" by (rule control_after_ok) (simp add: control_ok_def RunControl_new_def)
  have "paused (control_do last_cmd ?c) = (last_cmd = OpPause)"
    using paused_control_do [OF ok, of last_cmd] assms(1) by auto
  then have "paused (control_after (earlier @ last_cmd # later) RunControl_new) \<longleftrightarrow>
      (last_cmd = OpPause) \<noteq> odd (count_list later OpToggle)"
    using paused_after_toggles [OF control_do_ok [OF ok, of last_cmd] assms(2,3)]
    by (simp add: control_after_append control_after_Cons)
  moreover have "\<not> stop_requested RunControl_new" by (simp add: stop_requested_def RunControl_new_def)
  ultimately show ?thesis using assms(1) stop_after [of "earlier @ last_cmd # later" RunControl_new] by auto
qed

text \<open>
  The keyboard thread stops the application on q or Q and on nothing else: from a running
  state, after any turns, the stop request is set exactly if one of the keys read before the
  thread ended was q or Q, and the thread handles nothing after that key.
\<close>

lemma keyboard_stops_on_q:
  "stop_requested (fst (KeyboardControlSource_run turns c)) \<longleftrightarrow> stop_requested c \<or>
     (\<exists>before t after. turns = before @ t # after \<and>
        (\<forall>b \<in> set (before @ [t]). \<not> kt_stop b \<and> (kt_poll b \<le> 0 \<or> \<not> kt_revents_bad b \<and> kt_read b \<noteq> 0)) \<and>
        0 < kt_poll t \<and> 0 < kt_read t \<and> kt_key t \<in> {CHR ''q'', CHR ''Q''})"
  (is "_ \<longleftrightarrow> _ \<or> ?Q turns")
proof (induction turns arbitrary: c)
  case Nil
  show ?case by simp
next
  case (Cons t turns)
  have toggle: "stop_requested (toggle_pause c) = stop_requested c" "stop_requested (request_stop c)" for c
    by (simp_all add: stop_requested_def toggle_pause_def request_stop_def)
  show ?case
    unfolding first_such_Cons using Cons.IH [of c] Cons.IH [of "key_action (kt_key t) c"]
    by (auto simp: key_action_def toggle)
qed


end
