(* ===== verification/Consumer_App.thy ===== *)
theory Consumer_App
  imports Consumer_Stats Shm_Transport Run_Control
begin

text \<open>
  The consumer application: \<^verbatim>\<open>consumer/consumer_app.cpp\<close> and the pause policies of
  \<^verbatim>\<open>consumer/pause_policy.cpp\<close>. The application calls the transport, the clocks and the run
  control through interfaces; what they return in each turn of the loop is the input of the
  model, and the calls it makes on the transport and the reporter are its output, in order. The
  lemmas reduce a session to the packets it processes and drops, and show the accounting and the
  two pause policies' promises.
\<close>

section \<open>Pause policies\<close>

datatype IPausePolicy = BlockingPausePolicy | DiscardingPausePolicy

primrec policy_name :: "IPausePolicy \<Rightarrow> string" where
  "policy_name BlockingPausePolicy = ''block''"
| "policy_name DiscardingPausePolicy = ''discard''"

primrec policy_description :: "IPausePolicy \<Rightarrow> string" where
  "policy_description BlockingPausePolicy = ''packets queue up in the ring; the producer blocks when it is full; nothing is lost''"
| "policy_description DiscardingPausePolicy = ''packets are read and discarded; the producer keeps running; drops are counted''"

definition make_pause_policy :: "string \<Rightarrow> IPausePolicy result" where
  "make_pause_policy name =
     (if name = ''block'' then Inr BlockingPausePolicy
      else if name = ''discard'' then Inr DiscardingPausePolicy
      else Inl (InvalidArgument (''unknown pause policy '' @ quoted name @ '' (expected: block, discard)'')))"

definition kPausedTick :: int where
  "kPausedTick = 10"

section \<open>The application\<close>

text \<open>Calls on the packet source and on the reporter.\<close>

datatype source_call = CallConnect | CallDisconnect | CallReceive int | CallRelease | CallPeerStatus | CallQueueStatus

datatype consumer_report =
    RepInfo string
  | RepStateChanged bool
  | RepReport ConsumerSnapshot QueueStatus bool
  | RepDefect ValidationResult nat
  | RepSummary ConsumerTotals steady_ns

record ConsumerConfig =
  cc_report_interval :: int
  cc_receive_timeout :: int
  cc_max_defect_logs :: u32
  cc_once :: bool

record ConsumerApp =
  ca_config :: ConsumerConfig
  ca_validator :: PacketValidator
  ca_policy :: IPausePolicy
  ca_stats :: ConsumerStats
  ca_defect_logs :: u32
  ca_calls :: "source_call list"
  ca_reports :: "consumer_report list"

definition call :: "source_call \<Rightarrow> ConsumerApp \<Rightarrow> ConsumerApp" where
  "call c app = app\<lparr>ca_calls := ca_calls app @ [c]\<rparr>"

definition report :: "consumer_report \<Rightarrow> ConsumerApp \<Rightarrow> ConsumerApp" where
  "report r app = app\<lparr>ca_reports := ca_reports app @ [r]\<rparr>"

text \<open>What one turn of the session loop meets; each field is used at most once.\<close>

record session_turn =
  tn_stop :: bool
  tn_paused :: bool
  tn_receive :: "bytes option"
  tn_wall_clock :: i64
  tn_peer :: PeerStatus
  tn_last :: "bytes option"
  tn_due_clock :: steady_ns
  tn_take_clock :: steady_ns
  tn_queue :: QueueStatus

definition while_paused :: "session_turn \<Rightarrow> ConsumerApp \<Rightarrow> ConsumerApp" where
  "while_paused t app =
     (case ca_policy app of
        BlockingPausePolicy \<Rightarrow> call CallRelease app
      | DiscardingPausePolicy \<Rightarrow>
          (let app = call (CallReceive kPausedTick) app
           in case tn_receive t of
                Some packet \<Rightarrow> app\<lparr>ca_stats := ConsumerStats_record_dropped (ca_stats app) (of_nat (length packet))\<rparr>
              | None \<Rightarrow> app))"

definition on_resume :: "ConsumerApp \<Rightarrow> ConsumerApp" where
  "on_resume app =
     (case ca_policy app of
        BlockingPausePolicy \<Rightarrow> app
      | DiscardingPausePolicy \<Rightarrow> app\<lparr>ca_validator := resync (ca_validator app)\<rparr>)"

definition process :: "registry \<Rightarrow> i64 \<Rightarrow> bytes \<Rightarrow> ConsumerApp \<Rightarrow> ConsumerApp" where
  "process reg wall_clock_ns rec app =
     (let (v, res) = validate reg (ca_validator app) rec wall_clock_ns;
          app = app\<lparr>ca_validator := v, ca_stats := ConsumerStats_record (ca_stats app) res (of_nat (length rec))\<rparr>
      in if \<not> vr_clean res \<and> ca_defect_logs app < cc_max_defect_logs (ca_config app)
         then report (RepDefect res (length rec)) (app\<lparr>ca_defect_logs := ca_defect_logs app + 1\<rparr>)
         else app)"

definition report_if_due :: "session_turn \<Rightarrow> bool \<Rightarrow> ConsumerApp \<times> PeriodicTimer \<Rightarrow> ConsumerApp \<times> PeriodicTimer" where
  "report_if_due t was_paused x =
     (let (app, timer) = x; (timer, due) = PeriodicTimer_due timer (tn_due_clock t)
      in if due then
           (let (stats, snapshot) = ConsumerStats_take_interval (ca_stats app) (tn_take_clock t);
                app = call CallQueueStatus (app\<lparr>ca_stats := stats\<rparr>)
            in (report (RepReport snapshot (tn_queue t) was_paused) app, timer))
         else (app, timer))"

text \<open>
  The loop of \<^verbatim>\<open>run_session\<close>, with the release after it; None when the turns run out before the
  loop ends.
\<close>

definition enter_turn :: "session_turn \<Rightarrow> bool \<Rightarrow> ConsumerApp \<Rightarrow> ConsumerApp" where
  "enter_turn t was_paused app =
     (if tn_paused t \<noteq> was_paused
      then let app = report (RepStateChanged (tn_paused t)) app in if \<not> tn_paused t then on_resume app else app
      else app)"

fun session_loop :: "registry \<Rightarrow> session_turn list \<Rightarrow> bool \<Rightarrow> ConsumerApp \<times> PeriodicTimer \<Rightarrow> ConsumerApp option" where
  "session_loop reg [] was_paused (app, timer) = None"
| "session_loop reg (t # ts) was_paused (app, timer) =
     (if tn_stop t then Some (call CallRelease app)
      else
        let app = enter_turn t was_paused app; was_paused = tn_paused t
        in if tn_paused t then session_loop reg ts was_paused (report_if_due t was_paused (while_paused t app, timer))
           else
             let app = call (CallReceive (cc_receive_timeout (ca_config app))) app
             in case tn_receive t of
                  Some rec \<Rightarrow> session_loop reg ts was_paused (report_if_due t was_paused (process reg (tn_wall_clock t) rec app, timer))
                | None \<Rightarrow>
                    let app = call CallPeerStatus app
                    in if ps_finished (tn_peer t) \<or> \<not> ps_alive (tn_peer t) then
                         let app = call (CallReceive 0) app
                         in case tn_last t of
                              Some rec \<Rightarrow> session_loop reg ts was_paused (process reg (tn_wall_clock t) rec app, timer)
                            | None \<Rightarrow> Some (call CallRelease (report
                                (RepInfo (if ps_finished (tn_peer t) then ''Producer finished the stream'' else ''Producer is gone'')) app))
                       else session_loop reg ts was_paused (report_if_due t was_paused (app, timer)))"

text \<open>\<open>reset_clock\<close> and \<open>timer_clock\<close> are the readings of the reset and of the timer's constructor.\<close>

definition run_session :: "registry \<Rightarrow> steady_ns \<Rightarrow> steady_ns \<Rightarrow> session_turn list \<Rightarrow> ConsumerApp \<Rightarrow> ConsumerApp option" where
  "run_session reg reset_clock timer_clock turns app =
     (let app = app\<lparr>ca_stats := ConsumerStats_reset (ca_stats app) reset_clock,
                    ca_validator := resync (ca_validator app), ca_defect_logs := 0\<rparr>
      in session_loop reg turns False (app, PeriodicTimer_new (cc_report_interval (ca_config app)) timer_clock))"

text \<open>One turn of \<^verbatim>\<open>ConsumerApp::run\<close>: the stop token, the descriptions of the source, the outcome of
  \<^verbatim>\<open>connect\<close>, and the session's inputs.\<close>

record run_turn =
  rt_stop :: bool
  rt_describe :: string
  rt_connect :: "bool result"
  rt_describe_connected :: string
  rt_reset_clock :: steady_ns
  rt_timer_clock :: steady_ns
  rt_session :: "session_turn list"
  rt_elapsed_clock :: steady_ns

fun run_loop :: "registry \<Rightarrow> run_turn list \<Rightarrow> ConsumerApp \<Rightarrow> (int result \<times> ConsumerApp) option" where
  "run_loop reg [] app = None"
| "run_loop reg (t # ts) app =
     (if rt_stop t then Some (Inr 0, app)
      else
        let app = call CallConnect (report (RepInfo (''Waiting for a producer on '' @ rt_describe t @ '' ...'')) app)
        in case rt_connect t of
             Inl e \<Rightarrow> Some (Inl e, app)
           | Inr False \<Rightarrow> Some (Inr 0, app)
           | Inr True \<Rightarrow>
               let app = report (RepInfo (''Connected to '' @ rt_describe_connected t)) app
               in case run_session reg (rt_reset_clock t) (rt_timer_clock t) (rt_session t) app of
                    None \<Rightarrow> None
                  | Some app \<Rightarrow>
                      let app = call CallDisconnect app;
                          app = report (RepSummary (cs_totals (ca_stats app)) (ConsumerStats_elapsed (ca_stats app) (rt_elapsed_clock t))) app
                      in if cc_once (ca_config app) then Some (Inr 0, app) else run_loop reg ts app)"

definition ConsumerApp_run :: "registry \<Rightarrow> run_turn list \<Rightarrow> ConsumerApp \<Rightarrow> (int result \<times> ConsumerApp) option" where
  "ConsumerApp_run reg turns app =
     run_loop reg turns (report (RepInfo (''Pause policy '' @ quoted (policy_name (ca_policy app)) @ '': '' @
       policy_description (ca_policy app))) app)"


section \<open>A session as a sequence of packets\<close>

text \<open>
  What a session does with packets, in order: a packet received while running is processed, one
  received while paused is dropped, and resuming may re-establish the baseline.
\<close>

datatype session_event = EvProcess bytes i64 | EvDrop bytes | EvResync

definition resume_events :: "IPausePolicy \<Rightarrow> session_turn \<Rightarrow> bool \<Rightarrow> session_event list" where
  "resume_events pol t was_paused =
     (if was_paused \<and> \<not> tn_paused t \<and> pol = DiscardingPausePolicy then [EvResync] else [])"

definition paused_events :: "IPausePolicy \<Rightarrow> session_turn \<Rightarrow> session_event list" where
  "paused_events pol t =
     (case tn_receive t of None \<Rightarrow> [] | Some packet \<Rightarrow> if pol = DiscardingPausePolicy then [EvDrop packet] else [])"

fun session_events :: "IPausePolicy \<Rightarrow> session_turn list \<Rightarrow> bool \<Rightarrow> session_event list" where
  "session_events pol [] was_paused = []"
| "session_events pol (t # ts) was_paused =
     (if tn_stop t then []
      else resume_events pol t was_paused @
        (if tn_paused t then paused_events pol t @ session_events pol ts True
         else case tn_receive t of
             Some rec \<Rightarrow> EvProcess rec (tn_wall_clock t) # session_events pol ts False
           | None \<Rightarrow>
               if ps_finished (tn_peer t) \<or> \<not> ps_alive (tn_peer t)
               then (case tn_last t of
                       Some rec \<Rightarrow> EvProcess rec (tn_wall_clock t) # session_events pol ts False
                     | None \<Rightarrow> [])
               else session_events pol ts False))"

fun event_results :: "registry \<Rightarrow> PacketValidator \<Rightarrow> session_event list \<Rightarrow> PacketValidator \<times> (ValidationResult \<times> u64) list" where
  "event_results reg v [] = (v, [])"
| "event_results reg v (EvProcess rec now # es) =
     (let (v, r) = validate reg v rec now; (v, rs) = event_results reg v es in (v, (r, of_nat (length rec)) # rs))"
| "event_results reg v (EvDrop rec # es) = event_results reg v es"
| "event_results reg v (EvResync # es) = event_results reg (resync v) es"

fun event_drops :: "session_event list \<Rightarrow> u64 list" where
  "event_drops [] = []"
| "event_drops (EvDrop rec # es) = of_nat (length rec) # event_drops es"
| "event_drops (e # es) = event_drops es"

fun event_packets :: "session_event list \<Rightarrow> bytes list" where
  "event_packets [] = []"
| "event_packets (EvProcess rec now # es) = rec # event_packets es"
| "event_packets (EvDrop rec # es) = rec # event_packets es"
| "event_packets (EvResync # es) = event_packets es"

text \<open>The part of the application the packets determine.\<close>

definition app_view :: "ConsumerApp \<Rightarrow> PacketValidator \<times> ConsumerTotals" where
  "app_view app = (ca_validator app, cs_totals (ca_stats app))"

definition view_after :: "registry \<Rightarrow> session_event list \<Rightarrow> PacketValidator \<times> ConsumerTotals \<Rightarrow> PacketValidator \<times> ConsumerTotals" where
  "view_after reg es x =
     (let (v, rs) = event_results reg (fst x) es in (v, totals_add (snd x) (totals_of rs (event_drops es))))"

lemma call_simps [simp]:
  "ca_config (call c app) = ca_config app" "ca_policy (call c app) = ca_policy app" "app_view (call c app) = app_view app"
  "ca_validator (call c app) = ca_validator app" "ca_stats (call c app) = ca_stats app"
  "ca_defect_logs (call c app) = ca_defect_logs app" "ca_reports (call c app) = ca_reports app"
  by (simp_all add: call_def app_view_def)

lemma report_simps [simp]:
  "ca_config (report r app) = ca_config app" "ca_policy (report r app) = ca_policy app" "app_view (report r app) = app_view app"
  "ca_validator (report r app) = ca_validator app" "ca_stats (report r app) = ca_stats app"
  "ca_defect_logs (report r app) = ca_defect_logs app" "ca_reports (report r app) = ca_reports app @ [r]"
  by (simp_all add: report_def app_view_def)

lemma report_if_due_simps [simp]:
  "ca_config (fst (report_if_due t wp (app, timer))) = ca_config app"
  "ca_policy (fst (report_if_due t wp (app, timer))) = ca_policy app"
  "app_view (fst (report_if_due t wp (app, timer))) = app_view app"
  "ca_defect_logs (fst (report_if_due t wp (app, timer))) = ca_defect_logs app"
  by (simp_all add: report_if_due_def split_beta Let_def app_view_def take_interval_simps)

lemma process_simps [simp]:
  "ca_config (process reg now rec app) = ca_config app" "ca_policy (process reg now rec app) = ca_policy app"
  by (simp_all add: process_def split_beta Let_def)

lemma enter_turn_simps [simp]:
  "ca_config (enter_turn t wp app) = ca_config app" "ca_policy (enter_turn t wp app) = ca_policy app"
  "ca_defect_logs (enter_turn t wp app) = ca_defect_logs app"
  by (simp_all add: enter_turn_def on_resume_def Let_def split: IPausePolicy.splits)

lemma while_paused_simps [simp]:
  "ca_config (while_paused t app) = ca_config app" "ca_policy (while_paused t app) = ca_policy app"
  "ca_defect_logs (while_paused t app) = ca_defect_logs app"
  by (simp_all add: while_paused_def Let_def split: IPausePolicy.splits option.splits)

lemma view_after_append: "view_after reg (as @ bs) x = view_after reg bs (view_after reg as x)"
proof -
  have split: "event_results reg v (as @ bs) =
      (let (v, rs) = event_results reg v as; (v, qs) = event_results reg v bs in (v, rs @ qs))" for v
  proof (induction as arbitrary: v)
    case (Cons e as)
    then show ?case by (cases e) (simp_all add: split_beta Let_def)
  qed simp
  have drops: "event_drops (as @ bs) = event_drops as @ event_drops bs"
    by (induction as rule: event_drops.induct) simp_all
  have "totals_of (rs @ qs) (ds @ es) = totals_add (totals_of rs ds) (totals_of qs es)" for rs qs ds es
    by (simp add: totals_of_def totals_add_def count_of_def)
  then show ?thesis by (simp add: view_after_def split drops split_beta Let_def totals_add_assoc)
qed

lemma totals_add_none: "totals_add t (totals_of [] []) = t"
  by (cases t) (simp add: totals_add_def totals_of_def)

lemma view_after_single:
  "view_after reg [] x = x" "view_after reg [EvResync] x = (resync (fst x), snd x)"
  "view_after reg [EvDrop rec] x = (fst x, totals_add (snd x) (totals_of [] [of_nat (length rec)]))"
  "view_after reg [EvProcess rec now] x = (fst (validate reg (fst x) rec now),
     totals_add (snd x) (totals_of [(snd (validate reg (fst x) rec now), of_nat (length rec))] []))"
  by (simp_all add: view_after_def split_beta Let_def totals_add_none)

lemma process_view: "app_view (process reg now rec app) = view_after reg [EvProcess rec now] (app_view app)"
  by (simp add: process_def split_beta Let_def app_view_def view_after_single record_totals)

lemma enter_turn_view: "app_view (enter_turn t wp app) = view_after reg (resume_events (ca_policy app) t wp) (app_view app)"
  by (auto simp: enter_turn_def on_resume_def Let_def resume_events_def view_after_single app_view_def split: IPausePolicy.splits)

lemma while_paused_view: "app_view (while_paused t app) = view_after reg (paused_events (ca_policy app) t) (app_view app)"
  by (auto simp: while_paused_def paused_events_def Let_def view_after_single app_view_def dropped_totals
      split: IPausePolicy.splits option.splits)

lemma view_after_process:
  "view_after reg (EvProcess rec now # es) x = view_after reg es (fst (validate reg (fst x) rec now),
     totals_add (snd x) (totals_of [(snd (validate reg (fst x) rec now), of_nat (length rec))] []))"
  using view_after_append [of reg "[EvProcess rec now]" es x] by (simp add: view_after_single)

lemma session_loop_view:
  assumes "session_loop reg ts wp x = Some app'"
  shows "app_view app' = view_after reg (session_events (ca_policy (fst x)) ts wp) (app_view (fst x))"
  using assms
proof (induction ts arbitrary: wp x)
  case Nil
  then show ?case by (cases x) simp
next
  case (Cons t ts)
  obtain app timer where x: "x = (app, timer)" by (cases x)
  note views = view_after_append view_after_single view_after_process process_view
    enter_turn_view [where reg = reg] while_paused_view [where reg = reg]
  show ?case
    using Cons.prems unfolding x
    by (auto simp: Let_def views split: if_splits option.splits dest!: Cons.IH)
qed


section \<open>Dropped packets are followed by a new baseline\<close>

fun drops_resynced :: "bool \<Rightarrow> session_event list \<Rightarrow> bool" where
  "drops_resynced dirty [] = True"
| "drops_resynced dirty (EvProcess rec now # es) = (\<not> dirty \<and> drops_resynced False es)"
| "drops_resynced dirty (EvDrop rec # es) = drops_resynced True es"
| "drops_resynced dirty (EvResync # es) = drops_resynced False es"

lemma drops_resynced_mono: "drops_resynced True es \<Longrightarrow> drops_resynced False es"
proof (induction es)
  case (Cons e es)
  then show ?case by (cases e) auto
qed simp

lemma session_drops_resynced:
  "drops_resynced (wp \<and> pol = DiscardingPausePolicy) (session_events pol ts wp)"
proof (induction ts arbitrary: wp)
  case (Cons t ts)
  have IH: "drops_resynced False (session_events pol ts False)"
    "drops_resynced (pol = DiscardingPausePolicy) (session_events pol ts True)"
    using Cons [of False] Cons [of True] by simp_all
  have weak: "drops_resynced d (session_events pol ts True)" if "pol = DiscardingPausePolicy \<or> \<not> d" for d
    using that IH(2) drops_resynced_mono by (cases d; cases "pol = DiscardingPausePolicy") auto
  show ?case
  proof (cases "tn_paused t")
    case True
    then show ?thesis
      using weak [of "wp \<and> pol = DiscardingPausePolicy"] weak [of True]
      by (auto simp: resume_events_def paused_events_def split: option.splits)
  next
    case False
    then show ?thesis using IH(1) by (auto simp: resume_events_def split: option.splits)
  qed
qed simp

lemma blocking_no_drops:
  "event_drops (session_events BlockingPausePolicy ts wp) = []"
proof (induction ts arbitrary: wp)
  case (Cons t ts)
  then show ?case by (auto simp: resume_events_def paused_events_def split: option.splits)
qed simp

lemma length_event_results:
  "length (snd (event_results reg v es)) + length (event_drops es) = length (event_packets es)"
proof (induction es arbitrary: v)
  case (Cons e es)
  then show ?case by (cases e) (simp_all add: split_beta Let_def)
qed simp

section \<open>A well-behaved producer is never accused\<close>

definition timely_events :: "i64 \<Rightarrow> session_event list \<Rightarrow> bool" where
  "timely_events tol es \<longleftrightarrow>
     (\<forall>e \<in> set es. \<forall>rec now. e = EvProcess rec now \<longrightarrow> sint (ph_timestamp_ns (read_header rec)) \<le> sint (now + tol))"

definition expects :: "PacketValidator \<Rightarrow> u64 \<Rightarrow> (bytes \<times> i64) list \<Rightarrow> bool" where
  "expects v s ps \<longleftrightarrow>
     (pv_has_baseline v \<longrightarrow> pv_expected_sequence v = s \<and> (\<forall>(buf, t) \<in> set ps. sint (pv_last_timestamp_ns v) \<le> sint t))"

context checksum_registry
begin

lemma validate_sealed:
  assumes "reg k = Some c" "buffers_ok ((buf, t) # ps)" "expects v s ((buf, t) # ps)"
    and "sint t \<le> sint (now + pv_future_tolerance_ns v)"
  shows "vr_clean (snd (validate reg v (seal_packet buf s t c) now))"
    "expects (fst (validate reg v (seal_packet buf s t c) now)) (s + 1) ps"
    "pv_future_tolerance_ns (fst (validate reg v (seal_packet buf s t c) now)) = pv_future_tolerance_ns v"
proof -
  have len: "32 \<le> length buf" "length buf < 2 ^ 32 + 32" using assms(2) by (simp_all add: buffers_ok_def)
  have ok: "intact reg (seal_packet buf s t c)" by (rule sealed_intact [OF assms(1) len])
  note hdr = seal_packet_header [OF len(1), of s t c]
  show "vr_clean (snd (validate reg v (seal_packet buf s t c) now))"
    using ok hdr assms(3,4) by (auto simp: validate_clean_iff expects_def)
  show "expects (fst (validate reg v (seal_packet buf s t c) now)) (s + 1) ps"
    using ok hdr assms(2) by (auto simp: validate_intact expects_def buffers_ok_def)
  show "pv_future_tolerance_ns (fst (validate reg v (seal_packet buf s t c) now)) = pv_future_tolerance_ns v"
    using ok by (simp add: validate_intact)
qed

lemma events_clean:
  assumes "reg k = Some c" "event_packets es = sealed_packets c s ps" "buffers_ok ps"
    and "timely_events (pv_future_tolerance_ns v) es" "drops_resynced dirty es" "dirty \<or> expects v s ps"
  shows "list_all (vr_clean \<circ> fst) (snd (event_results reg v es))"
  using assms
proof (induction es arbitrary: v s ps dirty)
  case (Cons e es)
  show ?case
  proof (cases e)
    case (EvProcess rec now)
    obtain buf t ps' where ps: "ps = (buf, t) # ps'" "rec = seal_packet buf s t c" "event_packets es = sealed_packets c (s + 1) ps'"
      using Cons.prems(2) EvProcess by (cases ps) auto
    have len: "32 \<le> length buf" using Cons.prems(3) ps by (simp add: buffers_ok_def)
    have time: "sint t \<le> sint (now + pv_future_tolerance_ns v)"
      using Cons.prems(4) EvProcess ps seal_packet_header(2) [OF len, of s t c] by (auto simp: timely_events_def)
    have exp: "expects v s ((buf, t) # ps')" using Cons.prems(5,6) EvProcess ps by simp
    note val = validate_sealed [OF Cons.prems(1) Cons.prems(3) [unfolded ps] exp time]
    have "list_all (vr_clean \<circ> fst) (snd (event_results reg (fst (validate reg v rec now)) es))"
    proof (rule Cons.IH [OF Cons.prems(1) ps(3)])
      show "buffers_ok ps'" using Cons.prems(3) ps by (simp add: buffers_ok_def)
      show "timely_events (pv_future_tolerance_ns (fst (validate reg v rec now))) es"
        using Cons.prems(4) val(3) ps by (simp add: timely_events_def)
      show "drops_resynced False es" using Cons.prems(5) EvProcess by simp
      show "False \<or> expects (fst (validate reg v rec now)) (s + 1) ps'" using val(2) ps by simp
    qed
    then show ?thesis using val(1) ps EvProcess by (simp add: split_beta Let_def comp_def)
  next
    case (EvDrop rec)
    obtain buf t ps' where ps: "ps = (buf, t) # ps'" "event_packets es = sealed_packets c (s + 1) ps'"
      using Cons.prems(2) EvDrop by (cases ps) auto
    have "list_all (vr_clean \<circ> fst) (snd (event_results reg v es))"
      by (rule Cons.IH [OF Cons.prems(1) ps(2), where dirty = True])
        (use Cons.prems EvDrop ps in \<open>simp_all add: buffers_ok_def timely_events_def\<close>)
    then show ?thesis using EvDrop by (simp add: comp_def)
  next
    case EvResync
    have "list_all (vr_clean \<circ> fst) (snd (event_results reg (resync v) es))"
      by (rule Cons.IH [OF Cons.prems(1), where dirty = False and s = s and ps = ps])
        (use Cons.prems EvResync in \<open>simp_all add: timely_events_def resync_def expects_def\<close>)
    then show ?thesis using EvResync by (simp add: comp_def)
  qed
qed simp

end

lemma count_of_all: "list_all (P \<circ> fst) rs \<Longrightarrow> count_of P rs = of_nat (length rs)"
  by (induction rs) (auto simp: count_of_def)

lemma count_of_none: "list_all (\<lambda>x. \<not> P (fst x)) rs \<Longrightarrow> count_of P rs = 0"
  by (induction rs) (auto simp: count_of_def)

section \<open>How a session ends\<close>

definition ends_session :: "session_turn \<Rightarrow> bool" where
  "ends_session t \<longleftrightarrow> tn_stop t \<or> (\<not> tn_paused t \<and> tn_receive t = None \<and>
     (ps_finished (tn_peer t) \<or> \<not> ps_alive (tn_peer t)) \<and> tn_last t = None)"

lemma session_loop_returns_iff:
  "session_loop reg ts wp x \<noteq> None \<longleftrightarrow> (\<exists>t \<in> set ts. ends_session t)"
proof (induction ts arbitrary: wp x)
  case Nil
  show ?case by (cases x) simp
next
  case (Cons t ts)
  then show ?case by (cases x) (auto simp: Let_def ends_session_def split: option.splits)
qed

lemma session_loop_releases:
  "session_loop reg ts wp x = Some app \<Longrightarrow> \<exists>calls. ca_calls app = calls @ [CallRelease]"
proof (induction ts arbitrary: wp x)
  case Nil
  then show ?case by (cases x) simp
next
  case (Cons t ts)
  have rel: "\<exists>calls. ca_calls (call CallRelease a) = calls @ [CallRelease]" for a by (simp add: call_def)
  show ?case
    using Cons.prems rel by (cases x) (auto simp: Let_def split: if_splits option.splits dest: Cons.IH)
qed

section \<open>Defect lines\<close>

definition defect_reports :: "consumer_report list \<Rightarrow> nat" where
  "defect_reports rs = length (filter (\<lambda>r. \<exists>res n. r = RepDefect res n) rs)"

definition logs_bounded :: "nat \<Rightarrow> ConsumerApp \<Rightarrow> bool" where
  "logs_bounded base app \<longleftrightarrow> defect_reports (ca_reports app) = base + unat (ca_defect_logs app) \<and>
     ca_defect_logs app \<le> cc_max_defect_logs (ca_config app)"

lemma defect_reports_append [simp]: "defect_reports (as @ bs) = defect_reports as + defect_reports bs"
  by (simp add: defect_reports_def)

lemma defect_reports_other [simp]:
  "defect_reports [RepInfo s] = 0" "defect_reports [RepStateChanged b] = 0" "defect_reports [RepReport a q b] = 0"
  "defect_reports [RepDefect res n] = 1"
  by (simp_all add: defect_reports_def)

lemma report_if_due_reports: "defect_reports (ca_reports (fst (report_if_due t wp (app, timer)))) = defect_reports (ca_reports app)"
  by (simp add: report_if_due_def split_beta Let_def)

lemma logs_bounded_process:
  assumes "logs_bounded base app"
  shows "logs_bounded base (process reg now rec app)"
proof -
  have "unat (ca_defect_logs app + 1) = unat (ca_defect_logs app) + 1" "ca_defect_logs app + 1 \<le> cc_max_defect_logs (ca_config app)"
    if "ca_defect_logs app < cc_max_defect_logs (ca_config app)"
  proof -
    have "unat (cc_max_defect_logs (ca_config app)) < 2 ^ LENGTH(32)" by (rule unsigned_less)
    then show u: "unat (ca_defect_logs app + 1) = unat (ca_defect_logs app) + 1"
      using that by (simp add: unat_add_small word_less_nat_alt)
    show "ca_defect_logs app + 1 \<le> cc_max_defect_logs (ca_config app)"
      using that u by (simp add: word_less_nat_alt word_le_nat_alt)
  qed
  then show ?thesis using assms by (auto simp: logs_bounded_def process_def split_beta Let_def)
qed

lemma logs_bounded_keep:
  "logs_bounded base app \<Longrightarrow> logs_bounded base (call c app)"
  "logs_bounded base app \<Longrightarrow> logs_bounded base (report (RepInfo msg) app)"
  "logs_bounded base app \<Longrightarrow> logs_bounded base (enter_turn t wp app)"
  "logs_bounded base app \<Longrightarrow> logs_bounded base (while_paused t app)"
  "logs_bounded base app \<Longrightarrow> logs_bounded base (fst (report_if_due t wp (app, timer)))"
proof -
  assume a: "logs_bounded base app"
  show "logs_bounded base (call c app)" "logs_bounded base (report (RepInfo msg) app)"
    "logs_bounded base (fst (report_if_due t wp (app, timer)))"
    using a by (simp_all add: logs_bounded_def report_if_due_reports)
  show "logs_bounded base (enter_turn t wp app)"
    using a by (auto simp: logs_bounded_def enter_turn_def on_resume_def Let_def split: IPausePolicy.splits)
  show "logs_bounded base (while_paused t app)"
    using a by (auto simp: logs_bounded_def while_paused_def Let_def split: IPausePolicy.splits option.splits)
qed

lemma session_loop_logs:
  assumes "session_loop reg ts wp x = Some app'" "logs_bounded base (fst x)"
  shows "logs_bounded base app'"
  using assms
proof (induction ts arbitrary: wp x)
  case Nil
  then show ?case by (cases x) simp
next
  case (Cons t ts)
  obtain app timer where x: "x = (app, timer)" by (cases x)
  note keep = logs_bounded_keep logs_bounded_process
  have "logs_bounded base app" using Cons.prems(2) x by simp
  then show ?case
    using Cons.prems(1) unfolding x
    by (auto simp: Let_def keep split: if_splits option.splits dest!: Cons.IH)
qed


section \<open>Properties\<close>

lemma run_session_view:
  assumes "run_session reg reset_clock timer_clock turns app = Some app'"
  shows "app_view app' = view_after reg (session_events (ca_policy app) turns False) (resync (ca_validator app), ConsumerTotals_zero)"
proof -
  note loop = session_loop_view [OF assms [unfolded run_session_def Let_def]]
  show ?thesis using loop by (simp add: app_view_def reset_simps)
qed

lemma run_session_totals:
  assumes "run_session reg reset_clock timer_clock turns app = Some app'"
  shows "cs_totals (ca_stats app') = totals_of (snd (event_results reg (resync (ca_validator app)) (session_events (ca_policy app) turns False)))
    (event_drops (session_events (ca_policy app) turns False))"
  using run_session_view [OF assms] by (simp add: app_view_def view_after_def split_beta Let_def totals_add_zero)

text \<open>A turn in which nothing happens, and a session of one packet followed by a stop request.\<close>

definition idle_turn :: session_turn where
  "idle_turn = \<lparr>tn_stop = False, tn_paused = False, tn_receive = None, tn_wall_clock = 0,
     tn_peer = \<lparr>ps_present = True, ps_alive = True, ps_finished = False\<rparr>, tn_last = None,
     tn_due_clock = 0, tn_take_clock = 0, tn_queue = \<lparr>qs_used_bytes = 0, qs_capacity_bytes = 0\<rparr>\<rparr>"

definition demo_app :: "IPausePolicy \<Rightarrow> ConsumerApp" where
  "demo_app pol = \<lparr>ca_config = \<lparr>cc_report_interval = 1000, cc_receive_timeout = 50, cc_max_defect_logs = 1, cc_once = True\<rparr>,
     ca_validator = PacketValidator_new 1000, ca_policy = pol, ca_stats = ConsumerStats_new 0, ca_defect_logs = 0,
     ca_calls = [], ca_reports = []\<rparr>"

definition packet_turn :: "bool \<Rightarrow> bytes \<Rightarrow> session_turn" where
  "packet_turn pause_flag rec = idle_turn\<lparr>tn_paused := pause_flag, tn_receive := Some rec, tn_wall_clock := 9\<rparr>"

definition stop_turn :: session_turn where
  "stop_turn = idle_turn\<lparr>tn_stop := True\<rparr>"

lemma session_received_and_dropped:
  assumes "run_session reg reset_clock timer_clock turns app = Some app'"
  shows "ct_received (cs_totals (ca_stats app')) + ct_dropped (cs_totals (ca_stats app')) =
    of_nat (length (event_packets (session_events (ca_policy app) turns False)))"
proof -
  let ?es = "session_events (ca_policy app) turns False"
  let ?rs = "snd (event_results reg (resync (ca_validator app)) ?es)"
  have "(of_nat (length ?rs) + of_nat (length (event_drops ?es)) :: u64) = of_nat (length (event_packets ?es))"
    using length_event_results [of reg "resync (ca_validator app)" ?es] by (metis of_nat_add)
  then show ?thesis unfolding run_session_totals [OF assms] by (simp add: totals_of_def)
qed

text \<open>
  C10: a session accounts for every packet it takes from the transport: the totals are those of
  validating the processed packets in order (starting without a baseline, and again without one
  after a pause under the discard policy), every packet received is either processed or counted
  as dropped, and the block policy drops nothing.
\<close>

theorem session_accounts_for_packets:
  assumes "run_session reg reset_clock timer_clock turns app = Some app'"
  shows "let es = session_events (ca_policy app) turns False;
             rs = snd (event_results reg (resync (ca_validator app)) es);
             t = cs_totals (ca_stats app')
    in t = totals_of rs (event_drops es) \<and>
       ct_received t + ct_dropped t = of_nat (length (event_packets es)) \<and>
       (ca_policy app = BlockingPausePolicy \<longrightarrow> ct_dropped t = 0)"
proof -
  let ?es = "session_events (ca_policy app) turns False"
  let ?rs = "snd (event_results reg (resync (ca_validator app)) ?es)"
  have t: "cs_totals (ca_stats app') = totals_of ?rs (event_drops ?es)" by (rule run_session_totals [OF assms])
  have "ca_policy app = BlockingPausePolicy \<longrightarrow> length (event_drops ?es) = 0" by (simp add: blocking_no_drops)
  then show ?thesis using session_received_and_dropped [OF assms] t by (simp add: Let_def totals_of_def)
qed

theorem session_accounts_for_packets_witness:
  "\<exists>app'. run_session (\<lambda>_. None) 0 0 [packet_turn True [1, 2, 3], packet_turn False [4], stop_turn] (demo_app DiscardingPausePolicy) = Some app' \<and>
     ct_received (cs_totals (ca_stats app')) + ct_dropped (cs_totals (ca_stats app')) = 2"
proof -
  let ?turns = "[packet_turn True [1, 2, 3], packet_turn False [4], stop_turn]" and ?app = "demo_app DiscardingPausePolicy"
  have pol: "ca_policy ?app = DiscardingPausePolicy" by (simp add: demo_app_def)
  have "ends_session stop_turn" by (simp add: ends_session_def stop_turn_def)
  then have "run_session (\<lambda>_. None) 0 0 ?turns ?app \<noteq> None"
    by (simp only: run_session_def Let_def session_loop_returns_iff) simp
  then obtain app' where r: "run_session (\<lambda>_. None) 0 0 ?turns ?app = Some app'" by blast
  have "length (event_packets (session_events DiscardingPausePolicy ?turns False)) = 2"
    by (simp add: packet_turn_def stop_turn_def idle_turn_def resume_events_def paused_events_def)
  moreover have "ct_received (cs_totals (ca_stats app')) + ct_dropped (cs_totals (ca_stats app')) =
      of_nat (length (event_packets (session_events DiscardingPausePolicy ?turns False)))"
    using session_accounts_for_packets [OF r] unfolding Let_def pol by blast
  ultimately have "ct_received (cs_totals (ca_stats app')) + ct_dropped (cs_totals (ca_stats app')) = 2"
    by (simp only: of_nat_numeral)
  with r show ?thesis by blast
qed

lemma session_clean:
  assumes "crc_instructions_documented cpu" "ChecksumRegistry_find cpu k = Some c"
    and "run_session (ChecksumRegistry_find cpu) reset_clock timer_clock turns app = Some app'"
    and "event_packets (session_events (ca_policy app) turns False) = sealed_packets c s ps" "buffers_ok ps"
    and "timely_events (pv_future_tolerance_ns (ca_validator app)) (session_events (ca_policy app) turns False)"
  shows "let t = cs_totals (ca_stats app') in ct_valid t = ct_received t \<and> ct_corrupted t = 0 \<and>
    ct_sequence_gaps t = 0 \<and> ct_sequence_rewinds t = 0 \<and> ct_timestamp_anomalies t = 0"
proof -
  let ?es = "session_events (ca_policy app) turns False"
  let ?rs = "snd (event_results (ChecksumRegistry_find cpu) (resync (ca_validator app)) ?es)"
  have "list_all (vr_clean \<circ> fst) ?rs"
    by (rule checksum_registry.events_clean [OF documented_registry [OF assms(1)] assms(2,4,5), where dirty = False])
      (use assms(6) session_drops_resynced [of False "ca_policy app" turns] in \<open>simp_all add: resync_def expects_def\<close>)
  then have all: "vr_clean r" if "(r, b) \<in> set ?rs" for r b using that by (auto simp: list_all_iff)
  have "count_of vr_clean ?rs = of_nat (length ?rs)" by (rule count_of_all) (use all in \<open>auto simp: list_all_iff\<close>)
  moreover have "count_of P ?rs = 0" if "\<And>r. vr_clean r \<Longrightarrow> \<not> P r" for P
    by (rule count_of_none) (use all that in \<open>auto simp: list_all_iff\<close>)
  ultimately show ?thesis
    unfolding run_session_totals [OF assms(3)]
    by (simp add: totals_of_def Let_def vr_clean_not_corrupted vr_clean_no_defect)
qed

text \<open>
  The consumer never accuses a well-behaved producer: if the packets a session takes from the
  transport are sealed with consecutive sequence numbers and non-decreasing timestamps that are
  not ahead of the receive clock by more than the tolerance, then every packet it processes is
  counted as valid and none as corrupted, gap, rewind or timestamp anomaly, whenever and however
  often the user pauses, also when the discard policy throws packets away in between.
\<close>

lemma session_never_accuses:
  assumes "crc_instructions_documented cpu" "ChecksumRegistry_find cpu k = Some c"
    and "run_session (ChecksumRegistry_find cpu) reset_clock timer_clock turns app = Some app'"
    and "event_packets (session_events (ca_policy app) turns False) = sealed_packets c s ps" "buffers_ok ps"
    and "timely_events (pv_future_tolerance_ns (ca_validator app)) (session_events (ca_policy app) turns False)"
  shows "let t = cs_totals (ca_stats app') in ct_valid t = ct_received t \<and> ct_corrupted t = 0 \<and>
    ct_sequence_gaps t = 0 \<and> ct_sequence_rewinds t = 0 \<and> ct_timestamp_anomalies t = 0"
  by (rule session_clean [OF assms])

text \<open>
  C36: a session ends when it should: the loop returns exactly when, in some turn, a stop was
  requested, or the consumer is running, nothing arrived, the producer has finished or is gone,
  and one more read found the ring empty. It always releases the last packet on the way out.
\<close>

theorem session_ends_iff:
  "(run_session reg reset_clock timer_clock turns app \<noteq> None \<longleftrightarrow>
     (\<exists>t \<in> set turns. tn_stop t \<or> (\<not> tn_paused t \<and> tn_receive t = None \<and>
        (ps_finished (tn_peer t) \<or> \<not> ps_alive (tn_peer t)) \<and> tn_last t = None))) \<and>
   (\<forall>app'. run_session reg reset_clock timer_clock turns app = Some app' \<longrightarrow> (\<exists>calls. ca_calls app' = calls @ [CallRelease]))"
  using session_loop_returns_iff session_loop_releases unfolding run_session_def Let_def ends_session_def by blast

theorem session_ends_iff_witness:
  "run_session (\<lambda>_. None) 0 0 [idle_turn\<lparr>tn_peer := \<lparr>ps_present = True, ps_alive = False, ps_finished = False\<rparr>\<rparr>] (demo_app BlockingPausePolicy) \<noteq> None \<and>
   run_session (\<lambda>_. None) 0 0 [idle_turn] (demo_app BlockingPausePolicy) = None"
  using session_ends_iff [of "\<lambda>_. None" 0 0 "[idle_turn\<lparr>tn_peer := \<lparr>ps_present = True, ps_alive = False, ps_finished = False\<rparr>\<rparr>]" "demo_app BlockingPausePolicy"]
    session_ends_iff [of "\<lambda>_. None" 0 0 "[idle_turn]" "demo_app BlockingPausePolicy"]
  by (simp add: idle_turn_def)

text \<open>
  A session prints at most the configured number of defect lines, whatever the packets.
\<close>

lemma defect_lines_bounded:
  assumes "run_session reg reset_clock timer_clock turns app = Some app'"
  shows "defect_reports (ca_reports app') \<le> defect_reports (ca_reports app) + unat (cc_max_defect_logs (ca_config app')) \<and>
    defect_reports (ca_reports app') = defect_reports (ca_reports app) + unat (ca_defect_logs app')"
proof -
  have "logs_bounded (defect_reports (ca_reports app)) app'"
    by (rule session_loop_logs [OF assms [unfolded run_session_def Let_def]]) (simp add: logs_bounded_def)
  then show ?thesis by (simp add: logs_bounded_def word_le_nat_alt)
qed

end
