(* ===== verification/Session_On_Ring.thy ===== *)
theory Session_On_Ring
  imports Consumer_App
begin

text \<open>
  A consumer session on a ring. The application of \<^verbatim>\<open>Consumer_App\<close> gets what the packet source returns
  as inputs; here these inputs are the answers of \<^verbatim>\<open>ShmPacketSource\<close> on a ring that a producer
  writes at the same time. The locale \<^verbatim>\<open>packet_source\<close> states what a session relies on, as the comments of
  \<^verbatim>\<open>IPacketSource\<close> in \<^verbatim>\<open>common/include/pc/transport.hpp\<close> promise it; the lemmas in it say which packets a
  session takes, and that a session that announces the end of the stream has taken all of them.
\<close>

section \<open>The calls of a session and their answers\<close>

datatype served = Received int "bytes option" | AskedPeer PeerStatus | Released

fun served_call :: "served \<Rightarrow> source_call" where
  "served_call (Received timeout r) = CallReceive timeout"
| "served_call (AskedPeer p) = CallPeerStatus"
| "served_call Released = CallRelease"

definition stream_over :: "PeerStatus \<Rightarrow> bool" where
  "stream_over p \<longleftrightarrow> ps_finished p \<or> \<not> ps_alive p"

fun session_served :: "IPausePolicy \<Rightarrow> int \<Rightarrow> session_turn list \<Rightarrow> served list" where
  "session_served pol timeout [] = []"
| "session_served pol timeout (t # ts) =
     (if tn_stop t then [Released]
      else if tn_paused t
      then (if pol = BlockingPausePolicy then Released else Received kPausedTick (tn_receive t)) # session_served pol timeout ts
      else Received timeout (tn_receive t) #
        (if tn_receive t \<noteq> None then session_served pol timeout ts
         else AskedPeer (tn_peer t) #
           (if \<not> stream_over (tn_peer t) then session_served pol timeout ts
            else Received 0 (tn_last t) # (if tn_last t \<noteq> None then session_served pol timeout ts else [Released]))))"

text \<open>The turns end with the announcement that the stream is over, and not with a stop request.\<close>

fun stream_ends :: "session_turn list \<Rightarrow> bool" where
  "stream_ends [] = False"
| "stream_ends (t # ts) =
     (if tn_stop t then False
      else if \<not> tn_paused t \<and> tn_receive t = None \<and> stream_over (tn_peer t) \<and> tn_last t = None then True
      else stream_ends ts)"

text \<open>These are the calls the loop makes, apart from the queries of the queue's fill level.\<close>

abbreviation packet_calls :: "source_call list \<Rightarrow> source_call list" where
  "packet_calls \<equiv> filter (\<lambda>c. c \<noteq> CallQueueStatus)"

lemma app_calls [simp]:
  "ca_calls (call c app) = ca_calls app @ [c]" "ca_calls (report r app) = ca_calls app"
  "ca_calls (process reg now rec app) = ca_calls app" "ca_calls (enter_turn t wp app) = ca_calls app"
  by (simp_all add: call_def report_def process_def enter_turn_def on_resume_def split_beta Let_def split: IPausePolicy.split)

lemma report_if_due_calls [simp]:
  "packet_calls (ca_calls (fst (report_if_due t wp x))) = packet_calls (ca_calls (fst x))"
  by (simp add: report_if_due_def split_beta Let_def)

lemma while_paused_calls [simp]:
  "ca_calls (while_paused t app) =
     ca_calls app @ [if ca_policy app = BlockingPausePolicy then CallRelease else CallReceive kPausedTick]"
  by (simp add: while_paused_def Let_def split: IPausePolicy.split option.split)

lemma turn_keeps [simp]:
  "ca_config (fst (report_if_due t wp x)) = ca_config (fst x)" "ca_policy (fst (report_if_due t wp x)) = ca_policy (fst x)"
  "ca_config (enter_turn t wp app) = ca_config app" "ca_policy (enter_turn t wp app) = ca_policy app"
  "ca_config (while_paused t app) = ca_config app" "ca_policy (while_paused t app) = ca_policy app"
  by (auto simp: report_if_due_def enter_turn_def while_paused_def on_resume_def split_beta Let_def split: IPausePolicy.split option.split)

lemma session_calls_served:
  "session_loop reg ts wp x = Some app \<Longrightarrow>
     packet_calls (ca_calls app) = packet_calls (ca_calls (fst x)) @
       map served_call (session_served (ca_policy (fst x)) (cc_receive_timeout (ca_config (fst x))) ts)"
proof (induction ts arbitrary: wp x)
  case Nil
  then show ?case by (cases x) simp
next
  case (Cons t ts)
  obtain a timer where x: "x = (a, timer)" by (cases x)
  have IH: "packet_calls (ca_calls app) = packet_calls (ca_calls (fst y)) @ map served_call (session_served pol tmo ts)"
    if "session_loop reg ts wq y = Some app" "ca_policy (fst y) = pol" "cc_receive_timeout (ca_config (fst y)) = tmo" for wq y pol tmo
    using Cons.IH [OF that(1)] that(2,3) by simp
  show ?case
    using Cons.prems
    by (auto simp: x Let_def stream_over_def split: if_splits option.splits dest!: IH)
qed

text \<open>The packets handed out, and that they are those of the session's events.\<close>

fun served_packet :: "served \<Rightarrow> bytes list" where
  "served_packet (Received timeout (Some p)) = [p]"
| "served_packet c = []"

lemma session_served_packets:
  "concat (map served_packet (session_served pol timeout ts)) = event_packets (session_events pol ts wp)"
proof (induction ts arbitrary: wp)
  case (Cons t ts)
  have "event_packets (resume_events pol t wp @ es) = event_packets es" for es by (simp add: resume_events_def)
  then show ?case
    using Cons by (cases pol) (auto simp: paused_events_def stream_over_def split: option.split)
qed simp

section \<open>What a session relies on\<close>

text \<open>The answers to a sequence of calls, one after the other.\<close>

fun serve_all :: "('c \<Rightarrow> 's \<Rightarrow> 's \<Rightarrow> bool) \<Rightarrow> 'c list \<Rightarrow> 's \<Rightarrow> 's \<Rightarrow> bool" where
  "serve_all serve [] s t \<longleftrightarrow> s = t"
| "serve_all serve (c # cs) s t \<longleftrightarrow> (\<exists>u. serve c s u \<and> serve_all serve cs u t)"

locale packet_source =
  fixes serve :: "served \<Rightarrow> 's \<Rightarrow> 's \<Rightarrow> bool"
    and good :: "'s \<Rightarrow> bool"
    and taken published :: "'s \<Rightarrow> bytes list"
    and over :: "'s \<Rightarrow> bool"
  assumes serve_good: "good s \<Longrightarrow> serve c s t \<Longrightarrow> good t"
    and serve_taken: "good s \<Longrightarrow> serve c s t \<Longrightarrow> taken t = taken s @ served_packet c"
    and taken_published: "good s \<Longrightarrow> prefix (taken s) (published s)"
    and serve_over: "good s \<Longrightarrow> over s \<Longrightarrow> serve c s t \<Longrightarrow> over t \<and> published t = published s"
    and peer_over: "good s \<Longrightarrow> serve (AskedPeer p) s t \<Longrightarrow> stream_over p \<Longrightarrow> over t"
    and over_drained: "good s \<Longrightarrow> over s \<Longrightarrow> serve (Received 0 None) s t \<Longrightarrow> taken t = published t"
begin

lemma serve_all_taken:
  "serve_all serve cs s t \<Longrightarrow> good s \<Longrightarrow> good t \<and> taken t = taken s @ concat (map served_packet cs)"
proof (induction cs arbitrary: s)
  case (Cons c cs)
  then obtain u where u: "serve c s u" "serve_all serve cs u t" by auto
  from Cons.IH [OF u(2) serve_good [OF Cons.prems(2) u(1)]] serve_taken [OF Cons.prems(2) u(1)] show ?case by simp
qed simp

lemma session_takes:
  assumes "serve_all serve (session_served pol timeout ts) s t" "good s"
  shows "taken t = taken s @ event_packets (session_events pol ts wp)" "prefix (taken t) (published t)" "good t"
  using serve_all_taken [OF assms] taken_published [of t] by (simp_all add: session_served_packets)

text \<open>A session that announces the end of the stream has taken every packet.\<close>

lemma session_takes_all:
  "serve_all serve (session_served pol timeout ts) s t \<Longrightarrow> good s \<Longrightarrow> stream_ends ts \<Longrightarrow> taken t = published t \<and> over t"
proof (induction ts arbitrary: s)
  case (Cons x ts)
  show ?case
  proof (cases "\<not> tn_paused x \<and> tn_receive x = None \<and> stream_over (tn_peer x) \<and> tn_last x = None")
    case True
    then obtain u v w where steps: "serve (Received timeout None) s u" "serve (AskedPeer (tn_peer x)) u v"
      "serve (Received 0 None) v w" "serve Released w t"
      using Cons.prems by (auto split: if_splits)
    then have good: "good u" "good v" "good w" using Cons.prems(2) serve_good by blast+
    have "over v" using peer_over [OF good(1) steps(2)] True by simp
    then have "taken w = published w" "over w" using over_drained [OF good(2)] serve_over [OF good(2)] steps(3) by blast+
    then show ?thesis using serve_over [OF good(3) _ steps(4)] serve_taken [OF good(3) steps(4)] by simp
  next
    case False
    then have "stream_ends ts" "\<not> tn_stop x" using Cons.prems(3) by (auto split: if_splits)
    then show ?thesis
      using Cons.prems(1,2) Cons.IH False serve_good by (auto split: if_splits) blast+
  qed
qed simp

end

section \<open>The source of a ring\<close>

text \<open>
  The ring, whether the producer has made its last step (it was destroyed or has died), and whether
  the consumer has seen that.
\<close>

record stream =
  st_ring :: ring_sys
  st_ended :: bool
  st_seen :: bool

text \<open>Steps of the ring that leave the consumer's end alone.\<close>

definition producer_step :: "ring_sys \<Rightarrow> ring_sys \<Rightarrow> bool" where
  "producer_step s t \<longleftrightarrow> ring_step s t \<and> rs_received t = rs_received s \<and> rs_view t = rs_view s"

text \<open>What the producer does between two calls of the consumer: nothing after its end.\<close>

definition producer_moves :: "stream \<Rightarrow> stream \<Rightarrow> bool" where
  "producer_moves s t \<longleftrightarrow> st_seen t = st_seen s \<and>
     (if st_ended s then st_ended t \<and> st_ring t = st_ring s else producer_step\<^sup>*\<^sup>* (st_ring s) (st_ring t))"

definition world_ok :: "bool \<Rightarrow> ring_sys wait_turn \<Rightarrow> bool" where
  "world_ok ended w \<longleftrightarrow> (\<forall>u. ring_inv u \<longrightarrow> (if ended then wt_world w u = u else producer_step\<^sup>*\<^sup>* u (wt_world w u)))"

text \<open>
  The answers of \<^verbatim>\<open>ShmPacketSource\<close> while it is connected. The state \<^verbatim>\<open>ProducerFinished\<close> is loaded, and the
  system reports that there is no such process, only after the producer's last step: the destructor
  stores the state after the last commit, and a process that does not exist takes no steps. The
  store is a release and its load an acquire, so from then on the loads of the head see every commit.
\<close>

inductive ring_serve :: "served \<Rightarrow> stream \<Rightarrow> stream \<Rightarrow> bool" where
  serve_receive: "producer_moves s u \<Longrightarrow> head_load_ok load \<Longrightarrow> (st_seen u \<Longrightarrow> load = latest_head) \<Longrightarrow>
    \<forall>w \<in> set turns. world_ok (st_ended u) w \<Longrightarrow>
    ShmPacketSource_receive load timeout now turns (st_ring u) = Some (r, view) \<Longrightarrow>
    ring_serve (Received timeout (map_option (span_bytes (rs_data r)) view)) s (u\<lparr>st_ring := r\<rparr>)"
| serve_peer: "producer_moves s u \<Longrightarrow> (state = RingState_ProducerFinished \<Longrightarrow> st_ended u) \<Longrightarrow>
    (\<not> process_alive kill (rc_producer_pid (rs_control (st_ring u))) \<Longrightarrow> st_ended u) \<Longrightarrow>
    ss_ring source = Some (rs_cons (st_ring u)) \<Longrightarrow>
    p = ShmPacketSource_peer_status kill source ((rs_control (st_ring u))\<lparr>rc_state := state\<rparr>) \<Longrightarrow>
    ring_serve (AskedPeer p) s (u\<lparr>st_seen := st_seen u \<or> stream_over p\<rparr>)"
| serve_release: "producer_moves s u \<Longrightarrow> ring_serve Released s (u\<lparr>st_ring := ShmPacketSource_release (st_ring u)\<rparr>)"

inductive_cases ring_serveE:
  "ring_serve (Received timeout r) s t" "ring_serve (AskedPeer p) s t" "ring_serve Released s t"

definition stream_ok :: "stream \<Rightarrow> bool" where
  "stream_ok s \<longleftrightarrow> ring_inv (st_ring s) \<and> (st_seen s \<longrightarrow> st_ended s)"

abbreviation stream_taken :: "stream \<Rightarrow> bytes list" where
  "stream_taken s \<equiv> rs_received (st_ring s) @ held_record (st_ring s)"

lemma held_record_eq: "ring_inv s \<Longrightarrow> held_record s = (if rs_view s = None then [] else [rs_sent s ! length (rs_received s)])"
  using view_holds_next by (auto simp: held_record_def holds_next_def split: option.split)

lemma producer_steps_keep:
  assumes "producer_step\<^sup>*\<^sup>* s t" "ring_inv s"
  shows "ring_inv t \<and> rs_received t = rs_received s \<and> rs_view t = rs_view s \<and> prefix (rs_sent s) (rs_sent t)"
  using assms
proof (induction rule: rtranclp_induct)
  case (step t u)
  then have "ring_inv t" "ring_step t u" by (simp_all add: producer_step_def)
  then have "ring_inv u" "prefix (rs_sent t) (rs_sent u)"
    using ring.step_inv ring.histories_grow [OF r_into_rtranclp] by (auto simp: ring_abs_def)
  with step show ?case by (auto simp: producer_step_def intro: prefix_order.trans)
qed simp

lemma producer_steps_taken:
  assumes "producer_step\<^sup>*\<^sup>* s t" "ring_inv s"
  shows "held_record t = held_record s"
proof -
  note keep = producer_steps_keep [OF assms]
  show ?thesis
  proof (cases "rs_view s")
    case (Some sp)
    then have "length (rs_received s) < length (rs_sent s)" using view_holds_next [OF assms(2)] by (simp add: holds_next_def)
    moreover obtain zs where "rs_sent t = rs_sent s @ zs" using keep by (auto simp: prefix_def)
    ultimately show ?thesis using keep assms(2) by (simp add: held_record_eq nth_append)
  qed (use keep in \<open>simp add: held_record_def\<close>)
qed

lemma moves_ok:
  assumes "producer_moves s u" "stream_ok s"
  shows "stream_ok u" "stream_taken u = stream_taken s" "st_seen u = st_seen s"
    "st_ended s \<Longrightarrow> st_ended u \<and> st_ring u = st_ring s"
  using assms producer_steps_keep [of "st_ring s" "st_ring u"] producer_steps_taken [of "st_ring s" "st_ring u"]
  by (auto simp: producer_moves_def stream_ok_def split: if_splits)

text \<open>The ring of a running system is not flagged as corrupted, so a stream that is over has ended.\<close>

lemma peer_over_ended:
  assumes "stream_ok u" "ss_ring source = Some (rs_cons (st_ring u))"
    and "stream_over (ShmPacketSource_peer_status kill source ((rs_control (st_ring u))\<lparr>rc_state := state\<rparr>))"
  shows "state = RingState_ProducerFinished \<or> \<not> process_alive kill (rc_producer_pid (rs_control (st_ring u)))"
proof -
  have "\<not> rn_corrupted (rs_cons (st_ring u))" using assms(1) by (auto simp: stream_ok_def ring_inv_def inv_view_def)
  then show ?thesis using assms(2,3) by (auto simp: stream_over_def ShmPacketSource_peer_status_def Let_def)
qed

lemma ring_release_effect:
  assumes "ring_inv s"
  shows "ring_inv (sys_release s)" "rs_received (sys_release s) = rs_received s @ held_record s" "rs_view (sys_release s) = None"
    "rs_sent (sys_release s) = rs_sent s"
  using release_step [OF assms] by (auto simp: sys_release_def held_record_def split_beta)

lemma receive_effect:
  assumes "ring_inv s" "head_load_ok load" "\<forall>w \<in> set turns. world_ok ended w"
    and "ShmPacketSource_receive load timeout now turns s = Some (s', view)"
  shows "ring_inv s'" "rs_received s' = rs_received s @ held_record s" "rs_view s' = view"
    "ended \<Longrightarrow> rs_sent s' = rs_sent s"
    "ended \<Longrightarrow> load = latest_head \<Longrightarrow> view = None \<Longrightarrow> rs_received s' = rs_sent s'"
proof -
  let ?inv = "\<lambda>u. ring_inv u \<and> rs_received u = rs_received s @ held_record s \<and> (ended \<longrightarrow> rs_sent u = rs_sent s)"
  have load: "rs_seen_head u \<le> load u" "load u \<le> length (rs_sent u)" if "ring_inv u" for u
    using assms(2) that by (simp_all add: head_load_ok_def)
  have sent: "rs_sent (sys_peek j u) = rs_sent u" for j u by (simp add: sys_peek_def split_beta)
  have peek: "?inv (fst (peek_attempt load u))" if "?inv u" for u
    using peek_step(1) [OF _ load] that by (auto simp: peek_attempt_def sys_peek_received sent)
  have world: "?inv (wt_world w u)" if "w \<in> set turns" "?inv u" for w u
  proof (cases ended)
    case True
    then have "wt_world w u = u" using that assms(3) by (simp add: world_ok_def)
    then show ?thesis using that by simp
  next
    case False
    then have "producer_step\<^sup>*\<^sup>* u (wt_world w u)" using that assms(3) by (simp add: world_ok_def)
    then show ?thesis using producer_steps_keep that False by auto
  qed
  obtain u where u: "?inv u" "peek_attempt load u = (s', view)"
    using wait_until_attempt [OF assms(4) [unfolded ShmPacketSource_receive_def], of ?inv] ring_release_effect [OF assms(1)] peek world
    by auto
  from peek [OF u(1)] u(2) show "ring_inv s'" "rs_received s' = rs_received s @ held_record s" "ended \<Longrightarrow> rs_sent s' = rs_sent s"
    by simp_all
  show "rs_view s' = view" using u(2) by (auto simp: peek_attempt_def)
  show "rs_received s' = rs_sent s'" if "ended" "load = latest_head" "view = None"
    using u that peek_none_drained [of u] by (auto simp: peek_attempt_def latest_head_def sys_peek_received sent)
qed

lemma receive_taken:
  assumes "ring_inv s" "head_load_ok load" "\<forall>w \<in> set turns. world_ok ended w"
    and "ShmPacketSource_receive load timeout now turns s = Some (s', view)"
  shows "rs_received s' @ held_record s' =
    rs_received s @ held_record s @ served_packet (Received timeout (map_option (span_bytes (rs_data s')) view))"
  using receive_effect [OF assms] by (cases view) (simp_all add: held_record_def)

interpretation ring_source: packet_source ring_serve stream_ok stream_taken "\<lambda>s. rs_sent (st_ring s)" st_seen
proof
  fix c p s t
  assume ok: "stream_ok s"
  show "prefix (stream_taken s) (rs_sent (st_ring s))" using ok taken_prefix by (simp add: stream_ok_def)
  show "stream_ok t" if "ring_serve c s t"
    using that
  proof cases
    case (serve_peer u state kill source p)
    note u = moves_ok(1) [OF serve_peer(3) ok]
    from peer_over_ended [OF u serve_peer(6)] serve_peer u show ?thesis by (auto simp: stream_ok_def)
  qed (use moves_ok [OF _ ok] in \<open>auto simp: stream_ok_def ShmPacketSource_release_def ring_release_effect dest: receive_effect(1)\<close>)
  show "stream_taken t = stream_taken s @ served_packet c" if "ring_serve c s t"
    using that
  proof cases
    case (serve_receive u load turns timeout now r view)
    then have "ring_inv (st_ring u)" using moves_ok(1) [OF _ ok] by (simp add: stream_ok_def)
    from receive_taken [OF this serve_receive(4,6,7)] moves_ok(2) [OF serve_receive(3) ok] serve_receive(1,2) show ?thesis by simp
  next
    case (serve_release u)
    then have "ring_inv (st_ring u)" using moves_ok(1) [OF _ ok] by (simp add: stream_ok_def)
    then show ?thesis
      using serve_release moves_ok(2) [OF serve_release(3) ok]
      by (simp add: ShmPacketSource_release_def ring_release_effect held_record_def)
  qed (use moves_ok(2) [OF _ ok] in auto)
  show "st_seen t \<and> rs_sent (st_ring t) = rs_sent (st_ring s)" if "st_seen s" "ring_serve c s t"
  proof -
    have ended: "st_ended s" using ok that(1) by (simp add: stream_ok_def)
    show ?thesis
      using that(2)
      by cases (use moves_ok [OF _ ok] ended that(1) in
        \<open>auto simp: stream_ok_def ShmPacketSource_release_def ring_release_effect dest: receive_effect(4)\<close>)
  qed
  show "st_seen t" if "ring_serve (AskedPeer p) s t" "stream_over p" using that by (auto elim: ring_serveE)
  show "stream_taken t = rs_sent (st_ring t)" if "st_seen s" "ring_serve (Received 0 None) s t"
    using that(2)
  proof cases
    case (serve_receive u load turns now r view)
    then have u: "ring_inv (st_ring u)" "st_ended u" "st_seen u"
      using moves_ok [OF _ ok] ok that(1) by (auto simp: stream_ok_def)
    note eff = receive_effect [OF u(1) serve_receive(4,6,7)]
    show ?thesis using eff(3,5) u serve_receive by (simp add: held_record_def)
  qed
qed

section \<open>A session\<close>

lemma serve_all_append: "serve_all serve (as @ bs) s t \<longleftrightarrow> (\<exists>u. serve_all serve as s u \<and> serve_all serve bs u t)"
  by (induction as arbitrary: s) auto

lemma session_served_last:
  "\<exists>t \<in> set ts. ends_session t \<Longrightarrow> \<exists>cs. session_served pol timeout ts = cs @ [Released]"
proof (induction ts)
  case (Cons t ts)
  show ?case
  proof (cases "ends_session t")
    case True
    then show ?thesis by (auto simp: ends_session_def stream_over_def)
  next
    case False
    then obtain cs where "session_served pol timeout ts = cs @ [Released]" using Cons by auto
    then show ?thesis using False by (auto simp: ends_session_def stream_over_def)
  qed
qed simp

lemma stream_end_reported:
  "session_loop reg ts wp x = Some app \<Longrightarrow> stream_ends ts \<Longrightarrow>
     \<exists>rs. ca_reports app = rs @ [RepInfo ''Producer finished the stream''] \<or> ca_reports app = rs @ [RepInfo ''Producer is gone'']"
proof (induction ts arbitrary: wp x)
  case (Cons t ts)
  obtain a timer where x: "x = (a, timer)" by (cases x)
  show ?case
    using Cons.prems Cons.IH by (auto simp: x Let_def stream_over_def split: if_splits option.splits)
qed simp

text \<open>
  C9: the consumer takes the stream as it was published. For a session whose calls are answered by a ring
  that the producer writes at the same time: the calls are those of the application, in order; the
  packets the session processes or drops are, in order and unaltered, the next ones published after
  those taken before; when it returns it holds no packet; and if it announces that the producer has
  finished or is gone, every published packet has been taken.
\<close>

theorem session_takes_the_stream:
  assumes "run_session reg reset_clock timer_clock turns app = Some app'"
    and "ring_init s0" "ring_step\<^sup>*\<^sup>* s0 (st_ring s)" "\<not> st_seen s"
    and "serve_all ring_serve (session_served (ca_policy app) (cc_receive_timeout (ca_config app)) turns) s t"
  shows "packet_calls (ca_calls app') = packet_calls (ca_calls app) @
      map served_call (session_served (ca_policy app) (cc_receive_timeout (ca_config app)) turns) \<and>
    rs_received (st_ring t) = rs_received (st_ring s) @ held_record (st_ring s) @ event_packets (session_events (ca_policy app) turns False) \<and>
    prefix (rs_received (st_ring t)) (rs_sent (st_ring t)) \<and> rs_view (st_ring t) = None \<and>
    (stream_ends turns \<longrightarrow> rs_received (st_ring t) = rs_sent (st_ring t) \<and>
       last (ca_reports app') \<in> {RepInfo ''Producer finished the stream'', RepInfo ''Producer is gone''})"
proof -
  let ?served = "session_served (ca_policy app) (cc_receive_timeout (ca_config app)) turns"
  note loop = assms(1) [unfolded run_session_def Let_def]
  have ok: "stream_ok s" using reachable_ring_inv [OF assms(2,3)] assms(4) by (simp add: stream_ok_def)
  note takes = ring_source.session_takes(1) [OF assms(5) ok, of False] ring_source.session_takes(2) [OF assms(5) ok]
  have "\<exists>t \<in> set turns. ends_session t" using loop session_loop_returns_iff by (metis option.distinct(1))
  then obtain cs where cs: "?served = cs @ [Released]" using session_served_last by blast
  then obtain u where u: "serve_all ring_serve cs s u" "ring_serve Released u t"
    using assms(5) by (auto simp: serve_all_append)
  have "stream_ok u" using ring_source.serve_all_taken [OF u(1) ok] by blast
  then have view: "rs_view (st_ring t) = None"
    using u(2) moves_ok(1) by (auto elim!: ring_serveE simp: ShmPacketSource_release_def ring_release_effect stream_ok_def)
  have "packet_calls (ca_calls app') = packet_calls (ca_calls app) @ map served_call ?served"
    using session_calls_served [OF loop] by simp
  moreover have "last (ca_reports app') \<in> {RepInfo ''Producer finished the stream'', RepInfo ''Producer is gone''}" if "stream_ends turns"
    using stream_end_reported [OF loop that] by auto
  moreover have "stream_taken t = rs_sent (st_ring t)" if "stream_ends turns"
    using ring_source.session_takes_all [OF assms(5) ok that] by blast
  ultimately show ?thesis using takes view by (auto simp: held_record_def)
qed

section \<open>The source answers\<close>

text \<open>
  A published packet that is not taken yet is received at once, an ended stream that is drained gives
  nothing once the deadline has passed, and so there is a session that takes all that is left of a
  stream and sees its end.
\<close>

lemma serve_next:
  assumes "stream_ok s" "rs_sent (st_ring s) = stream_taken s @ p # ps"
  obtains t where "ring_serve (Received timeout (Some p)) s t" "stream_ok t" "rs_sent (st_ring t) = rs_sent (st_ring s)"
    "st_ended t = st_ended s" "stream_taken t = stream_taken s @ [p]"
proof -
  let ?r = "sys_release (st_ring s)"
  define s1 where "s1 = sys_peek (latest_head ?r) ?r"
  have inv: "ring_inv (st_ring s)" using assms(1) by (simp add: stream_ok_def)
  note rel = ring_release_effect [OF inv]
  have seen: "rs_seen_head ?r \<le> length (rs_sent ?r)" using rel(1) by (auto simp: ring_inv_def inv_counters_def)
  have "length (rs_received ?r) < length (rs_sent ?r)" using rel assms(2) by simp
  then obtain sp where sp: "rs_view s1 = Some sp"
    using peek_step(2) [OF rel(1) seen order_refl] by (auto simp: s1_def latest_head_def)
  have "ShmPacketSource_receive latest_head timeout 0 [] (st_ring s) = Some (s1, Some sp)"
    using sp by (simp add: ShmPacketSource_receive_def wait_until_def peek_attempt_def s1_def)
  from serve_receive [OF _ latest_head_ok _ _ this, of s]
  have serve: "ring_serve (Received timeout (Some (span_bytes (rs_data s1) sp))) s (s\<lparr>st_ring := s1\<rparr>)" (is "ring_serve _ _ ?t")
    by (simp add: producer_moves_def)
  have sent: "rs_sent s1 = rs_sent (st_ring s)" using rel(4) by (simp add: s1_def sys_peek_def split_beta)
  note ok = ring_source.serve_good [OF assms(1) serve] ring_source.serve_taken [OF assms(1) serve]
  have "prefix (stream_taken ?t) (rs_sent s1)" using ring_source.taken_published [OF ok(1)] by simp
  then have "span_bytes (rs_data s1) sp = p" using ok(2) sent assms(2) by simp
  then show thesis using that [of ?t] serve ok sent by simp
qed

lemma receive_returns:
  "\<exists>r view. ShmPacketSource_receive load timeout 0 (replicate 81 \<lparr>wt_stop = False, wt_world = id, wt_clock = 1000000 * timeout\<rparr>) s = Some (r, view)"
    (is "\<exists>r view. ShmPacketSource_receive load timeout 0 ?ws s = _")
proof -
  have "\<exists>r view. wait_loop (peek_attempt load) (1000000 * timeout) Backoff_new ?ws u = Some (r, view)" for u
    using wait_loop_returns [of 80 ?ws "1000000 * timeout" 0 "peek_attempt load" u] by auto
  then show ?thesis by (auto simp: ShmPacketSource_receive_def wait_until_def split_beta split: option.split)
qed

lemma serve_drained:
  assumes "stream_ok s" "st_ended s" "stream_taken s = rs_sent (st_ring s)"
  obtains t where "ring_serve (Received timeout None) s t" "stream_ok t" "rs_sent (st_ring t) = rs_sent (st_ring s)"
    "st_ended t" "stream_taken t = stream_taken s"
proof -
  define w where "w = \<lparr>wt_stop = False, wt_world = id :: ring_sys \<Rightarrow> ring_sys, wt_clock = 1000000 * timeout\<rparr>"
  obtain r view where recv: "ShmPacketSource_receive latest_head timeout 0 (replicate 81 w) (st_ring s) = Some (r, view)"
    using receive_returns unfolding w_def by blast
  have world: "\<forall>x \<in> set (replicate 81 w). world_ok True x" by (simp add: w_def world_ok_def)
  from serve_receive [OF _ latest_head_ok _ _ recv, of s] world
  have serve: "ring_serve (Received timeout (map_option (span_bytes (rs_data r)) view)) s (s\<lparr>st_ring := r\<rparr>)" (is "ring_serve _ _ ?t")
    using assms(2) by (simp add: producer_moves_def)
  have sent: "rs_sent r = rs_sent (st_ring s)"
    using receive_effect(4) [OF _ latest_head_ok world recv] assms(1) by (simp add: stream_ok_def)
  note ok = ring_source.serve_good [OF assms(1) serve] ring_source.serve_taken [OF assms(1) serve]
  have "prefix (stream_taken ?t) (rs_sent r)" using ring_source.taken_published [OF ok(1)] by simp
  then have "view = None" using ok(2) sent assms(3) by (cases view) auto
  then show thesis using that [of ?t] serve ok sent assms by simp
qed

text \<open>A turn in which the producer has finished and exited and nothing is left.\<close>

definition end_turn :: "bool \<Rightarrow> session_turn" where
  "end_turn present = idle_turn\<lparr>tn_peer := \<lparr>ps_present = present, ps_alive = False, ps_finished = True\<rparr>\<rparr>"

lemma end_turn_simps [simp]:
  "\<not> tn_stop (end_turn b)" "\<not> tn_paused (end_turn b)" "tn_receive (end_turn b) = None" "tn_last (end_turn b) = None"
  "stream_over (tn_peer (end_turn b))"
  by (simp_all add: end_turn_def idle_turn_def stream_over_def)

lemma packet_turn_simps [simp]:
  "\<not> tn_stop (packet_turn b p)" "tn_paused (packet_turn b p) = b" "tn_receive (packet_turn b p) = Some p"
  by (simp_all add: packet_turn_def idle_turn_def)

lemma serve_end:
  assumes "stream_ok s" "st_ended s" "stream_taken s = rs_sent (st_ring s)"
  obtains t b where "serve_all ring_serve (session_served pol timeout [end_turn b]) s t" "rs_sent (st_ring t) = rs_sent (st_ring s)"
proof -
  obtain a where a: "ring_serve (Received timeout None) s a" "stream_ok a" "rs_sent (st_ring a) = rs_sent (st_ring s)" "st_ended a"
      "stream_taken a = stream_taken s" using serve_drained [OF assms] .
  define pres where "pres \<longleftrightarrow> rc_producer_pid (rs_control (st_ring a)) \<noteq> 0"
  let ?b = "a\<lparr>st_seen := st_seen a \<or> stream_over (tn_peer (end_turn pres))\<rparr>"
  have b: "ring_serve (AskedPeer (tn_peer (end_turn pres))) a ?b"
    by (rule serve_peer [where state = RingState_ProducerFinished and kill = "\<lambda>pid. KillError"
          and source = "(ShmPacketSource_new [] 0)\<lparr>ss_ring := Some (rs_cons (st_ring a))\<rparr>"])
      (use a(4) in \<open>simp_all add: producer_moves_def ShmPacketSource_peer_status_def process_alive_def end_turn_def idle_turn_def pres_def Let_def\<close>)
  have "stream_ok ?b" using a by (simp add: stream_ok_def)
  then obtain c where c: "ring_serve (Received 0 None) ?b c" "stream_ok c" "rs_sent (st_ring c) = rs_sent (st_ring s)"
    using serve_drained [of ?b 0] a assms(3) by auto
  let ?d = "c\<lparr>st_ring := ShmPacketSource_release (st_ring c)\<rparr>"
  have d: "ring_serve Released c ?d" by (intro serve_release) (simp add: producer_moves_def)
  have "rs_sent (st_ring ?d) = rs_sent (st_ring s)"
    using c by (simp add: ShmPacketSource_release_def sys_release_def split_beta)
  moreover have "serve_all ring_serve (session_served pol timeout [end_turn pres]) s ?d" using a(1) b c(1) d by auto
  ultimately show thesis using that by blast
qed

lemma drain_session:
  assumes "stream_ok s" "st_ended s" "rs_sent (st_ring s) = stream_taken s @ ps"
  obtains t b where "serve_all ring_serve (session_served pol timeout (map (packet_turn False) ps @ [end_turn b])) s t"
    "rs_sent (st_ring t) = rs_sent (st_ring s)"
  using assms
proof (induction ps arbitrary: s thesis)
  case Nil
  have "stream_taken s = rs_sent (st_ring s)" using Nil.prems(4) by simp
  from serve_end [OF Nil.prems(2,3) this] Nil.prems(1) show ?case by (metis append_Nil list.map(1))
next
  case (Cons p ps)
  obtain u where u: "ring_serve (Received timeout (Some p)) s u" "stream_ok u" "rs_sent (st_ring u) = rs_sent (st_ring s)"
    "st_ended u = st_ended s" "stream_taken u = stream_taken s @ [p]" using serve_next [OF Cons.prems(2,4)] .
  have "st_ended u" "rs_sent (st_ring u) = stream_taken u @ ps" using u Cons.prems(3,4) by simp_all
  with Cons.IH u(2) obtain t b where t: "serve_all ring_serve (session_served pol timeout (map (packet_turn False) ps @ [end_turn b])) u t"
    "rs_sent (st_ring t) = rs_sent (st_ring u)" by blast
  have "serve_all ring_serve (session_served pol timeout (map (packet_turn False) (p # ps) @ [end_turn b])) s t"
    using u(1) t(1) by (simp only: list.map append.simps session_served.simps packet_turn_simps serve_all.simps) auto
  then show ?case using Cons.prems(1) t(2) u(3) by simp
qed

lemma drain_events: "session_events pol (map (packet_turn False) ps @ [end_turn b]) False = map (\<lambda>p. EvProcess p 9) ps"
  by (induction ps) (simp_all add: resume_events_def packet_turn_def end_turn_def idle_turn_def)

text \<open>The rest of the small ring's records, read by a session that sees the end of the stream.\<close>

theorem session_takes_the_stream_witness:
  "\<exists>app' t b. run_session (\<lambda>k. None) 0 0 [packet_turn False [0, 0, 7, 9], end_turn b] (demo_app BlockingPausePolicy) = Some app' \<and>
     serve_all ring_serve (session_served BlockingPausePolicy 50 [packet_turn False [0, 0, 7, 9], end_turn b])
       \<lparr>st_ring = demo_end, st_ended = True, st_seen = False\<rparr> t \<and>
     packet_calls (ca_calls app') = [CallReceive 50, CallReceive 50, CallPeerStatus, CallReceive 0, CallRelease] \<and>
     rs_received (st_ring t) = [[7, 8], [0, 0, 7, 9]] \<and> rs_received (st_ring t) = rs_sent (st_ring t)"
proof -
  let ?turns = "\<lambda>b. [packet_turn False [0, 0, 7, 9], end_turn b]" and ?app = "demo_app BlockingPausePolicy"
  define s where "s = \<lparr>st_ring = demo_end, st_ended = True, st_seen = False\<rparr>"
  have "stream_ok s" using reachable_ring_inv [OF demo_start_init demo_steps] by (simp add: s_def stream_ok_def)
  then obtain t b where t: "serve_all ring_serve (session_served BlockingPausePolicy 50 (?turns b)) s t"
    by (rule drain_session [of s "[[0, 0, 7, 9]]" BlockingPausePolicy 50])
      (simp_all only: list.map append.simps, simp_all add: s_def demo_end_facts held_record_def)
  have "run_session (\<lambda>k. None) 0 0 (?turns b) ?app \<noteq> None"
    by (simp only: run_session_def Let_def session_loop_returns_iff) (simp add: ends_session_def end_turn_def idle_turn_def)
  then obtain app' where run: "run_session (\<lambda>k. None) 0 0 (?turns b) ?app = Some app'" by blast
  have app: "ca_policy ?app = BlockingPausePolicy" "cc_receive_timeout (ca_config ?app) = 50" "ca_calls ?app = []" by (simp_all add: demo_app_def)
  have es: "session_events BlockingPausePolicy (?turns b) False = [EvProcess [0, 0, 7, 9] 9]"
    using drain_events [of _ "[[0, 0, 7, 9]]"] by simp
  note takes = session_takes_the_stream [OF run demo_start_init, of s t, unfolded app es, OF _ _ t]
  have "packet_calls (ca_calls app') = [CallReceive 50, CallReceive 50, CallPeerStatus, CallReceive 0, CallRelease]"
    "rs_received (st_ring t) = [[7, 8], [0, 0, 7, 9]]" "rs_received (st_ring t) = rs_sent (st_ring t)"
    using takes demo_steps by (auto simp: s_def demo_end_facts held_record_def)
  then show ?thesis using run t unfolding s_def by blast
qed

end
