(* ===== verification/Payload_Generator.thy ===== *)
theory Payload_Generator
  imports Pc_Prelude
begin

text \<open>
  The payload generators: \<^verbatim>\<open>producer/payload_generator.cpp\<close> and
  \<^verbatim>\<open>producer/payload_generator.hpp\<close>. The random generator keeps eight xoshiro256+
  generators lane-wise and steps them with two four-lane vectors; the sequential one is a byte
  counter. The lemmas compare the vector code with eight scalar generators, show that no lane is
  ever in the all-zero fixed point, and that filling in 64-byte multiples gives the same bytes
  as one fill, the law the packet builder's chunking relies on.
\<close>

section \<open>The random generator\<close>

definition kLanes :: nat where
  "kLanes = 8"

definition kBlockBytes :: nat where
  "kBlockBytes = kLanes * 8"

definition kVectors :: nat where
  "kVectors = kLanes div 4"

text \<open>\<^verbatim>\<open>splitmix64(state)\<close>: the new state and the output.\<close>

definition splitmix64 :: "u64 \<Rightarrow> u64 \<times> u64" where
  "splitmix64 state =
     (let state = state + 0x9E3779B97F4A7C15;
          z = state;
          z = (z XOR drop_bit 30 z) * 0xBF58476D1CE4E5B9;
          z = (z XOR drop_bit 27 z) * 0x94D049BB133111EB
      in (state, z XOR drop_bit 31 z))"

text \<open>\<^verbatim>\<open>State::s[4][kLanes]\<close> and the vectors \<^verbatim>\<open>v4u64\<close> of four lanes.\<close>

type_synonym rng_state = "u64 list list"
type_synonym v4u64 = "u64 list"

record Lanes =
  ln_s0 :: "v4u64 list"
  ln_s1 :: "v4u64 list"
  ln_s2 :: "v4u64 list"
  ln_s3 :: "v4u64 list"

text \<open>\<^verbatim>\<open>memcpy\<close> between an array of eight words and an array of two vectors.\<close>

definition to_vectors :: "u64 list \<Rightarrow> v4u64 list" where
  "to_vectors ws = map (\<lambda>j. take 4 (drop (4 * j) ws)) [0..<kVectors]"

definition load_lanes :: "rng_state \<Rightarrow> Lanes" where
  "load_lanes st = \<lparr>ln_s0 = to_vectors (st ! 0), ln_s1 = to_vectors (st ! 1),
     ln_s2 = to_vectors (st ! 2), ln_s3 = to_vectors (st ! 3)\<rparr>"

definition store_lanes :: "Lanes \<Rightarrow> rng_state" where
  "store_lanes v = [concat (ln_s0 v), concat (ln_s1 v), concat (ln_s2 v), concat (ln_s3 v)]"

text \<open>Element-wise operators of the vector extension.\<close>

definition v_add :: "v4u64 \<Rightarrow> v4u64 \<Rightarrow> v4u64" where
  "v_add = map2 (+)"

definition v_xor :: "v4u64 \<Rightarrow> v4u64 \<Rightarrow> v4u64" where
  "v_xor = map2 (XOR)"

definition v_or :: "v4u64 \<Rightarrow> v4u64 \<Rightarrow> v4u64" where
  "v_or = map2 (OR)"

definition v_shl :: "v4u64 \<Rightarrow> nat \<Rightarrow> v4u64" where
  "v_shl v n = map (push_bit n) v"

definition v_shr :: "v4u64 \<Rightarrow> nat \<Rightarrow> v4u64" where
  "v_shr v n = map (drop_bit n) v"

text \<open>The body of the loop of \<^verbatim>\<open>xoshiro_step\<close> for one vector index.\<close>

definition xoshiro_vector :: "Lanes \<times> bytes \<Rightarrow> nat \<Rightarrow> Lanes \<times> bytes" where
  "xoshiro_vector vo j =
     (let (v, out) = vo;
          result = v_add (ln_s0 v ! j) (ln_s3 v ! j);
          t = v_shl (ln_s1 v ! j) 17;
          v = v\<lparr>ln_s2 := (ln_s2 v)[j := v_xor (ln_s2 v ! j) (ln_s0 v ! j)]\<rparr>;
          v = v\<lparr>ln_s3 := (ln_s3 v)[j := v_xor (ln_s3 v ! j) (ln_s1 v ! j)]\<rparr>;
          v = v\<lparr>ln_s1 := (ln_s1 v)[j := v_xor (ln_s1 v ! j) (ln_s2 v ! j)]\<rparr>;
          v = v\<lparr>ln_s0 := (ln_s0 v)[j := v_xor (ln_s0 v ! j) (ln_s3 v ! j)]\<rparr>;
          v = v\<lparr>ln_s2 := (ln_s2 v)[j := v_xor (ln_s2 v ! j) t]\<rparr>;
          v = v\<lparr>ln_s3 := (ln_s3 v)[j := v_or (v_shl (ln_s3 v ! j) 45) (v_shr (ln_s3 v ! j) 19)]\<rparr>
      in (v, out @ concat (map (store_le 8) result)))"

text \<open>One step of all lanes: the new lanes and the 64 bytes written.\<close>

definition xoshiro_step :: "Lanes \<Rightarrow> Lanes \<times> bytes" where
  "xoshiro_step v = foldl xoshiro_vector (v, []) [0..<kVectors]"

text \<open>The loop of \<^verbatim>\<open>fill_impl\<close>: the final lanes and the bytes written to the payload.\<close>

function fill_loop :: "Lanes \<Rightarrow> nat \<Rightarrow> Lanes \<times> bytes" where
  "fill_loop v remaining =
     (if kBlockBytes \<le> remaining then
        let (v, block) = xoshiro_step v; (v, rest) = fill_loop v (remaining - kBlockBytes) in (v, block @ rest)
      else if remaining \<noteq> 0 then let (v, block) = xoshiro_step v in (v, take remaining block)
      else (v, []))"
  by auto
termination
  by (relation "measure snd") (auto simp: kBlockBytes_def kLanes_def)

declare fill_loop.simps [simp del]

definition fill_impl :: "rng_state \<Rightarrow> nat \<Rightarrow> rng_state \<times> bytes" where
  "fill_impl st n = (let (v, out) = fill_loop (load_lanes st) n in (store_lanes v, out))"

record RandomPayloadGenerator =
  rg_state :: rng_state
  rg_avx2 :: bool

definition seed_word :: "nat \<Rightarrow> u64 \<times> rng_state \<Rightarrow> nat \<Rightarrow> u64 \<times> rng_state" where
  "seed_word l x i = (let (sm, st) = x; (sm, w) = splitmix64 sm in (sm, st[i := (st ! i)[l := w]]))"

definition seed_lane :: "u64 \<times> rng_state \<Rightarrow> nat \<Rightarrow> u64 \<times> rng_state" where
  "seed_lane x l = foldl (seed_word l) x [0..<4]"

definition RandomPayloadGenerator_new :: "bool \<Rightarrow> u64 \<Rightarrow> RandomPayloadGenerator" where
  "RandomPayloadGenerator_new avx2_available seed =
     \<lparr>rg_state = snd (foldl seed_lane (seed, replicate 4 (replicate kLanes 0)) [0..<kLanes]), rg_avx2 = avx2_available\<rparr>"

definition RandomPayloadGenerator_name :: "RandomPayloadGenerator \<Rightarrow> string" where
  "RandomPayloadGenerator_name g = (if rg_avx2 g then ''random (xoshiro256+ x8, AVX2)'' else ''random (xoshiro256+ x8)'')"

text \<open>\<^verbatim>\<open>fill_portable\<close> and \<^verbatim>\<open>fill_avx2\<close> are the same code compiled for two targets.\<close>

definition fill_portable :: "rng_state \<Rightarrow> nat \<Rightarrow> rng_state \<times> bytes" where
  "fill_portable st n = fill_impl st n"

definition fill_avx2 :: "rng_state \<Rightarrow> nat \<Rightarrow> rng_state \<times> bytes" where
  "fill_avx2 st n = fill_impl st n"

definition RandomPayloadGenerator_fill :: "RandomPayloadGenerator \<Rightarrow> nat \<Rightarrow> RandomPayloadGenerator \<times> bytes" where
  "RandomPayloadGenerator_fill g n =
     (let (st, out) = (if rg_avx2 g then fill_avx2 (rg_state g) n else fill_portable (rg_state g) n)
      in (g\<lparr>rg_state := st\<rparr>, out))"

section \<open>The sequential generator\<close>

primrec sequential_loop :: "u8 \<Rightarrow> nat \<Rightarrow> u8 \<times> bytes" where
  "sequential_loop val 0 = (val, [])"
| "sequential_loop val (Suc n) = (let (val', out) = sequential_loop (val + 1) n in (val', val # out))"

definition SequentialPayloadGenerator_fill :: "u8 \<Rightarrow> nat \<Rightarrow> u8 \<times> bytes" where
  "SequentialPayloadGenerator_fill next_byte n = sequential_loop next_byte n"

section \<open>The interface and the factory\<close>

datatype IPayloadGenerator = Random RandomPayloadGenerator | Sequential u8

primrec fill :: "IPayloadGenerator \<Rightarrow> nat \<Rightarrow> IPayloadGenerator \<times> bytes" where
  "fill (Random g) n = (let (g, out) = RandomPayloadGenerator_fill g n in (Random g, out))"
| "fill (Sequential next_byte) n =
     (let (next_byte, out) = SequentialPayloadGenerator_fill next_byte n in (Sequential next_byte, out))"

primrec generator_name :: "IPayloadGenerator \<Rightarrow> string" where
  "generator_name (Random g) = RandomPayloadGenerator_name g"
| "generator_name (Sequential next_byte) = ''sequential''"

definition make_payload_generator :: "bool \<Rightarrow> string \<Rightarrow> u64 \<Rightarrow> IPayloadGenerator result" where
  "make_payload_generator avx2_available kind seed =
     (if kind = ''random'' then Inr (Random (RandomPayloadGenerator_new avx2_available seed))
      else if kind = ''sequential'' then Inr (Sequential 0)
      else Inl (InvalidArgument (''unknown payload generator '' @ [CHR 0x27] @ kind @ [CHR 0x27] @ '' (expected: random, sequential)'')))"

section \<open>Eight scalar generators\<close>

text \<open>The published scalar xoshiro256+ step, and its state as a tuple.\<close>

type_synonym xoshiro = "u64 \<times> u64 \<times> u64 \<times> u64"

definition rotl64 :: "nat \<Rightarrow> u64 \<Rightarrow> u64" where
  "rotl64 k x = push_bit k x OR drop_bit (64 - k) x"

definition xoshiro_out :: "xoshiro \<Rightarrow> u64" where
  "xoshiro_out x = (case x of (s0, s1, s2, s3) \<Rightarrow> s0 + s3)"

definition xoshiro_next :: "xoshiro \<Rightarrow> xoshiro" where
  "xoshiro_next x = (case x of (s0, s1, s2, s3) \<Rightarrow>
     let t = push_bit 17 s1; s2 = s2 XOR s0; s3 = s3 XOR s1; s1 = s1 XOR s2; s0 = s0 XOR s3; s2 = s2 XOR t;
         s3 = rotl64 45 s3
     in (s0, s1, s2, s3))"

text \<open>The lane-wise layout of a list of scalar generators, and the lanes of a layout.\<close>

definition soa :: "xoshiro list \<Rightarrow> rng_state" where
  "soa ls = [map fst ls, map (fst \<circ> snd) ls, map (fst \<circ> snd \<circ> snd) ls, map (snd \<circ> snd \<circ> snd) ls]"

definition rng_lane :: "rng_state \<Rightarrow> nat \<Rightarrow> xoshiro" where
  "rng_lane st l = (st ! 0 ! l, st ! 1 ! l, st ! 2 ! l, st ! 3 ! l)"

definition rng_shape :: "rng_state \<Rightarrow> bool" where
  "rng_shape st \<longleftrightarrow> length st = 4 \<and> (\<forall>i<4. length (st ! i) = 8)"

text \<open>The 64 bytes of one step of eight scalar generators, and of \<open>k\<close> steps.\<close>

definition scalar_block :: "xoshiro list \<Rightarrow> bytes" where
  "scalar_block ls = concat (map (store_le 8 \<circ> xoshiro_out) ls)"

primrec scalar_blocks :: "nat \<Rightarrow> xoshiro list \<Rightarrow> bytes" where
  "scalar_blocks 0 ls = []"
| "scalar_blocks (Suc k) ls = scalar_block ls @ scalar_blocks k (map xoshiro_next ls)"

definition blocks_for :: "nat \<Rightarrow> nat" where
  "blocks_for n = (n + 63) div 64"

lemma list_of_8:
  assumes "length ls = 8"
  obtains a b c d e f g h where "ls = [a, b, c, d, e, f, g, h]"
  using assms by (auto simp: length_Suc_conv eval_nat_numeral)

lemma xoshiro_step_scalar:
  assumes "length ls = 8"
  shows "xoshiro_step (load_lanes (soa ls)) = (load_lanes (soa (map xoshiro_next ls)), scalar_block ls)"
proof -
  obtain a b c d e f g h where ls: "ls = [a, b, c, d, e, f, g, h]"
    using assms by (rule list_of_8)
  show ?thesis
    unfolding ls
    by (cases a; cases b; cases c; cases d; cases e; cases f; cases g; cases h)
      (simp add: soa_def load_lanes_def to_vectors_def xoshiro_step_def xoshiro_vector_def kVectors_def kLanes_def
        upt_rec v_add_def v_xor_def v_or_def v_shl_def v_shr_def xoshiro_next_def xoshiro_out_def scalar_block_def
        rotl64_def Let_def del: store_le.simps)
qed


lemma length_scalar_block: "length ls = 8 \<Longrightarrow> length (scalar_block ls) = 64"
  by (simp add: scalar_block_def length_concat comp_def sum_list_triv)

lemma length_scalar_blocks: "length ls = 8 \<Longrightarrow> length (scalar_blocks k ls) = 64 * k"
  by (induction k arbitrary: ls) (simp_all add: length_scalar_block)

lemma fill_loop_scalar:
  assumes "length ls = 8"
  shows "fill_loop (load_lanes (soa ls)) n =
    (load_lanes (soa (map (xoshiro_next ^^ blocks_for n) ls)), take n (scalar_blocks (blocks_for n) ls))"
  using assms
proof (induction n arbitrary: ls rule: less_induct)
  case (less n)
  consider "64 \<le> n" | "0 < n" "n < 64" | "n = 0" by linarith
  then show ?case
  proof cases
    case 1
    have k: "blocks_for n = Suc (blocks_for (n - 64))" using 1 by (simp add: blocks_for_def)
    have "fill_loop (load_lanes (soa ls)) n =
        (let (v, rest) = fill_loop (load_lanes (soa (map xoshiro_next ls))) (n - 64) in (v, scalar_block ls @ rest))"
      using 1 less.prems by (subst fill_loop.simps) (simp add: kBlockBytes_def kLanes_def xoshiro_step_scalar)
    then show ?thesis
      using 1 less.prems less.IH [of "n - 64" "map xoshiro_next ls"]
      by (simp add: k length_scalar_block funpow_swap1 comp_def)
  next
    case 2
    then have "blocks_for n = 1" by (simp add: blocks_for_def)
    then show ?thesis
      using 2 less.prems by (subst fill_loop.simps) (simp add: kBlockBytes_def kLanes_def xoshiro_step_scalar)
  next
    case 3
    then show ?thesis by (subst fill_loop.simps) (simp add: kBlockBytes_def kLanes_def blocks_for_def)
  qed
qed

lemma store_load_lanes: "length ls = 8 \<Longrightarrow> store_lanes (load_lanes (soa ls)) = soa ls"
  by (erule list_of_8) (simp add: soa_def load_lanes_def store_lanes_def to_vectors_def kVectors_def kLanes_def upt_rec)

lemma fill_impl_scalar:
  "length ls = 8 \<Longrightarrow> fill_impl (soa ls) n =
     (soa (map (xoshiro_next ^^ blocks_for n) ls), take n (scalar_blocks (blocks_for n) ls))"
  by (simp add: fill_impl_def fill_loop_scalar store_load_lanes)

lemma soa_lanes:
  assumes "rng_shape st"
  shows "st = soa (map (rng_lane st) [0..<8])"
proof -
  have l: "length st = 4" "\<And>i. i < 4 \<Longrightarrow> length (st ! i) = 8" using assms by (simp_all add: rng_shape_def)
  have row: "map (\<lambda>k. st ! i ! k) [0..<8] = st ! i" if "i < 4" for i
    using l(2) [OF that] map_nth [of "st ! i"] by simp
  have "st = [st ! 0, st ! 1, st ! 2, st ! 3]"
    using l(1) by (auto simp: length_Suc_conv eval_nat_numeral)
  then show ?thesis
    using row [of 0] row [of 1] row [of 2] row [of 3] by (simp add: soa_def rng_lane_def comp_def)
qed

lemma rng_shape_soa: "length ls = 8 \<Longrightarrow> rng_shape (soa ls)"
  by (auto simp: rng_shape_def soa_def less_Suc_eq eval_nat_numeral)

lemma rng_lane_soa: "l < length ls \<Longrightarrow> rng_lane (soa ls) l = ls ! l"
  by (simp add: rng_lane_def soa_def)

section \<open>Filling in pieces\<close>

lemma scalar_blocks_add:
  "length ls = 8 \<Longrightarrow> scalar_blocks (j + k) ls = scalar_blocks j ls @ scalar_blocks k (map (xoshiro_next ^^ j) ls)"
  by (induction j arbitrary: ls) (simp_all add: funpow_swap1 comp_def)

lemma fill_impl_split:
  assumes "rng_shape st"
  shows "fill_impl st (64 * j + n) =
    (let (st, a) = fill_impl st (64 * j); (st, b) = fill_impl st n in (st, a @ b))"
proof -
  define ls where "ls = map (rng_lane st) [0..<8]"
  have st: "st = soa ls" "length ls = 8" using soa_lanes [OF assms] by (simp_all add: ls_def)
  have k: "blocks_for (64 * j + n) = j + blocks_for n" "blocks_for (64 * j) = j"
    by (simp_all add: blocks_for_def)
  have "xoshiro_next ^^ (j + blocks_for n) = (xoshiro_next ^^ blocks_for n) \<circ> (xoshiro_next ^^ j)"
    by (simp add: add.commute [of j] funpow_add)
  then show ?thesis
    by (simp add: st fill_impl_scalar k scalar_blocks_add length_scalar_blocks)
qed

lemma length_fill_impl:
  assumes "rng_shape st"
  shows "length (snd (fill_impl st n)) = n"
proof -
  have "n \<le> 64 * blocks_for n" by (simp add: blocks_for_def) 
  then show ?thesis
    using soa_lanes [OF assms] fill_impl_scalar [of "map (rng_lane st) [0..<8]" n] by (simp add: length_scalar_blocks)
qed

lemma fill_impl_zero:
  assumes "rng_shape st"
  shows "fill_impl st 0 = (st, [])"
  using soa_lanes [OF assms] fill_impl_scalar [of "map (rng_lane st) [0..<8]" 0] by (simp add: blocks_for_def)

lemma rng_shape_fill_impl:
  assumes "rng_shape st"
  shows "rng_shape (fst (fill_impl st n))"
  using soa_lanes [OF assms] fill_impl_scalar [of "map (rng_lane st) [0..<8]" n] by (simp add: rng_shape_soa)

lemma sequential_loop_eq: "sequential_loop x n = (x + of_nat n, map (\<lambda>i. x + of_nat i) [0..<n])"
proof (induction n arbitrary: x)
  case (Suc n)
  have "map (\<lambda>i. x + 1 + of_nat i) [0..<n] = map (\<lambda>i. x + of_nat i) (map Suc [0..<n])"
    by simp
  then show ?case
    by (simp add: Suc.IH upt_conv_Cons map_Suc_upt del: upt_Suc)
qed simp


section \<open>No lane is ever in the fixed point\<close>

definition xoshiro_zero :: xoshiro where
  "xoshiro_zero = (0, 0, 0, 0)"

lemma shift_fixpoint: "x = push_bit 17 x \<Longrightarrow> x = (0 :: u64)"
proof (rule bit_word_eqI)
  fix n assume x: "x = push_bit 17 x"
  show "bit x n = bit (0 :: u64) n"
  proof (induction n rule: less_induct)
    case (less n)
    have "bit x n = bit (push_bit 17 x) n" using x by metis
    then show ?case using less by (cases "17 \<le> n") (auto simp: bit_simps)
  qed
qed

lemma rotl64_zero: "k < 64 \<Longrightarrow> rotl64 k x = 0 \<Longrightarrow> x = 0"
proof (rule bit_word_eqI)
  fix n assume k: "k < 64" and z: "rotl64 k x = 0" and n: "n < LENGTH(64)"
  have "\<not> bit (rotl64 k x) m" for m using z by simp
  from this [of "if n + k < 64 then n + k else n + k - 64"]
  show "bit x n = bit (0 :: u64) n" using k n by (auto simp: rotl64_def bit_simps split: if_splits)
qed

lemma word_xor_zero: "a XOR b = 0 \<longleftrightarrow> a = b" for a :: "'a::len word"
  by (metis word_xor_left_cancel xor_self_eq)

lemma xoshiro_next_nonzero:
  assumes "x \<noteq> xoshiro_zero"
  shows "xoshiro_next x \<noteq> xoshiro_zero"
proof
  assume z: "xoshiro_next x = xoshiro_zero"
  obtain a b c d where x: "x = (a, b, c, d)" by (cases x) auto
  have "rotl64 45 (d XOR b) = 0" and e: "a XOR (d XOR b) = 0" "b XOR (c XOR a) = 0" "(c XOR a) XOR push_bit 17 b = 0"
    using z by (simp_all add: x xoshiro_next_def Let_def xoshiro_zero_def)
  have "d XOR b = 0" by (rule rotl64_zero [of 45, OF _ \<open>rotl64 45 (d XOR b) = 0\<close>]) simp
  then have d: "d = b" by (simp only: word_xor_zero)
  have a: "a = 0" using e(1) by (simp add: d)
  have c: "b = c" using e(2) by (simp add: a word_xor_zero)
  have "b = push_bit 17 b" using e(3) by (simp only: a c xor.right_neutral word_xor_zero)
  then have "b = 0" by (rule shift_fixpoint)
  then show False using assms by (simp add: x d a xoshiro_zero_def flip: c)
qed

lemma xoshiro_iterate_nonzero: "x \<noteq> xoshiro_zero \<Longrightarrow> (xoshiro_next ^^ k) x \<noteq> xoshiro_zero"
  by (induction k) (simp_all add: xoshiro_next_nonzero)

text \<open>The output function of SplitMix64 is injective: its multipliers are odd.\<close>

lemma xorshift_inj:
  assumes "0 < k" "x XOR drop_bit k x = y XOR drop_bit k y"
  shows "x = (y :: u64)"
proof (rule bit_word_eqI)
  fix n assume "n < LENGTH(64)"
  have step: "bit x n = bit y n \<longleftrightarrow> bit x (n + k) = bit y (n + k)" for n
  proof -
    have "bit (x XOR drop_bit k x) n = bit (y XOR drop_bit k y) n" using assms(2) by simp
    then show ?thesis by (auto simp: bit_simps add.commute)
  qed
  show "bit x n = bit y n"
  proof (induction "64 - n" arbitrary: n rule: less_induct)
    case less
    show ?case
    proof (cases "n < 64")
      case True
      then show ?thesis using less [of "n + k"] step [of n] assms(1) by simp
    next
      case False
      then show ?thesis by (auto dest: bit_imp_le_length)
    qed
  qed
qed

lemma mult_inverse_inj:
  assumes "c * d = 1" "x * c = y * (c :: u64)"
  shows "x = y"
proof -
  have "x * (c * d) = y * (c * d)" using assms(2) by (simp only: mult.assoc [symmetric])
  then show ?thesis by (simp only: assms(1) mult_1_right)
qed

lemma splitmix64_inj:
  assumes "snd (splitmix64 a) = snd (splitmix64 b)"
  shows "a = b"
proof -
  define f where "f z = (z XOR drop_bit 30 z) * (0xBF58476D1CE4E5B9 :: u64)" for z
  define g where "g z = (z XOR drop_bit 27 z) * (0x94D049BB133111EB :: u64)" for z
  have f: "z = z'" if "f z = f z'" for z z'
  proof (rule xorshift_inj [of 30])
    have "0xBF58476D1CE4E5B9 * 0x96DE1B173F119089 = (1 :: u64)" by simp
    then show "z XOR drop_bit 30 z = z' XOR drop_bit 30 z'"
      using that unfolding f_def by (rule mult_inverse_inj)
  qed simp
  have g: "z = z'" if "g z = g z'" for z z'
  proof (rule xorshift_inj [of 27])
    have "0x94D049BB133111EB * 0x319642B2D24D8EC3 = (1 :: u64)" by simp
    then show "z XOR drop_bit 27 z = z' XOR drop_bit 27 z'"
      using that unfolding g_def by (rule mult_inverse_inj)
  qed simp
  let ?a = "a + 0x9E3779B97F4A7C15" and ?b = "b + 0x9E3779B97F4A7C15"
  have "g (f ?a) XOR drop_bit 31 (g (f ?a)) = g (f ?b) XOR drop_bit 31 (g (f ?b))"
    using assms unfolding splitmix64_def Let_def f_def g_def snd_conv .
  then have "g (f ?a) = g (f ?b)" by (rule xorshift_inj [of 31, rotated]) simp
  then have "?a = ?b" by (rule f [OF g])
  then show ?thesis by (simp only: add_right_cancel)
qed

lemma splitmix64_state: "fst (splitmix64 a) = a + 0x9E3779B97F4A7C15"
  by (simp add: splitmix64_def Let_def)


lemma seed_lane_eq:
  assumes "rng_shape st" "l < 8"
  shows "rng_shape (snd (seed_lane (sm, st) l))"
    "k < 8 \<Longrightarrow> k \<noteq> l \<Longrightarrow> rng_lane (snd (seed_lane (sm, st) l)) k = rng_lane st k"
    "rng_lane (snd (seed_lane (sm, st) l)) l \<noteq> xoshiro_zero"
proof -
  define sm1 where "sm1 = fst (splitmix64 sm)"
  define sm2 where "sm2 = fst (splitmix64 sm1)"
  define sm3 where "sm3 = fst (splitmix64 sm2)"
  define w where "w = [snd (splitmix64 sm), snd (splitmix64 sm1), snd (splitmix64 sm2), snd (splitmix64 sm3)]"
  obtain a b c d where st: "st = [a, b, c, d]" "length a = 8" "length b = 8" "length c = 8" "length d = 8"
    using assms(1) by (auto simp: rng_shape_def length_Suc_conv eval_nat_numeral All_less_Suc)
  have eq: "snd (seed_lane (sm, st) l) = [a[l := w ! 0], b[l := w ! 1], c[l := w ! 2], d[l := w ! 3]]"
    by (simp add: seed_lane_def seed_word_def split_beta Let_def st w_def sm1_def sm2_def sm3_def upt_rec)
  show "rng_shape (snd (seed_lane (sm, st) l))"
    unfolding eq by (simp add: rng_shape_def st All_less_Suc eval_nat_numeral)
  show "rng_lane (snd (seed_lane (sm, st) l)) k = rng_lane st k" if "k < 8" "k \<noteq> l" for k
    unfolding eq using that by (simp add: rng_lane_def st)
  have "sm \<noteq> sm1" by (simp add: sm1_def splitmix64_state)
  then have "w ! 0 \<noteq> w ! 1" using splitmix64_inj [of sm sm1] by (auto simp: w_def)
  then show "rng_lane (snd (seed_lane (sm, st) l)) l \<noteq> xoshiro_zero"
    unfolding eq using assms(2) st by (auto simp: rng_lane_def xoshiro_zero_def)
qed

definition rng_seeded :: "rng_state \<Rightarrow> bool" where
  "rng_seeded st \<longleftrightarrow> rng_shape st \<and> (\<forall>l<8. rng_lane st l \<noteq> xoshiro_zero)"

lemma seed_lanes_seeded:
  assumes "n \<le> 8" "rng_shape st"
  shows "rng_shape (snd (foldl seed_lane (sm, st) [0..<n])) \<and>
    (\<forall>l<n. rng_lane (snd (foldl seed_lane (sm, st) [0..<n])) l \<noteq> xoshiro_zero)"
  using assms(1)
proof (induction n)
  case 0
  then show ?case using assms(2) by simp
next
  case (Suc n)
  obtain sm' st' where x: "foldl seed_lane (sm, st) [0..<n] = (sm', st')" by fastforce
  have "rng_shape st'" "\<And>l. l < n \<Longrightarrow> rng_lane st' l \<noteq> xoshiro_zero" using Suc x by auto
  then show ?case
    using Suc.prems seed_lane_eq [where st = st' and l = n and sm = sm'] by (auto simp: x less_Suc_eq)
qed

lemma rng_shape_zero: "rng_shape (replicate 4 (replicate kLanes 0))"
  by (simp add: rng_shape_def kLanes_def)

lemma new_generator_seeded: "rng_seeded (rg_state (RandomPayloadGenerator_new avx2 seed))"
  using seed_lanes_seeded [OF _ rng_shape_zero, of 8 seed]
  by (simp add: RandomPayloadGenerator_new_def rng_seeded_def kLanes_def)

lemma fill_impl_seeded:
  assumes "rng_seeded st"
  shows "rng_seeded (fst (fill_impl st n))"
proof -
  have shape: "rng_shape st" using assms by (simp add: rng_seeded_def)
  let ?ls = "map (rng_lane st) [0..<8]"
  have "fst (fill_impl st n) = soa (map (xoshiro_next ^^ blocks_for n) ?ls)"
    using soa_lanes [OF shape] fill_impl_scalar [of ?ls n] by simp
  then show ?thesis
    using assms rng_shape_fill_impl [OF shape] by (simp add: rng_seeded_def rng_lane_soa rng_shape_soa xoshiro_iterate_nonzero)
qed

section \<open>The contract the packet builder relies on\<close>

locale payload_generator =
  fixes gen_fill :: "'g \<Rightarrow> nat \<Rightarrow> 'g \<times> bytes"
    and gen_ok :: "'g \<Rightarrow> bool"
  assumes fill_length: "gen_ok g \<Longrightarrow> length (snd (gen_fill g n)) = n"
    and fill_zero: "gen_ok g \<Longrightarrow> gen_fill g 0 = (g, [])"
    and fill_keeps_ok: "gen_ok g \<Longrightarrow> gen_ok (fst (gen_fill g n))"
    and fill_split: "gen_ok g \<Longrightarrow> 64 dvd m \<Longrightarrow>
      gen_fill g (m + n) = (let (g, a) = gen_fill g m; (g, b) = gen_fill g n in (g, a @ b))"

primrec generator_ok :: "IPayloadGenerator \<Rightarrow> bool" where
  "generator_ok (Random g) = rng_seeded (rg_state g)"
| "generator_ok (Sequential b) = True"

lemma RandomPayloadGenerator_fill_eq:
  "RandomPayloadGenerator_fill g n = (let (st, out) = fill_impl (rg_state g) n in (g\<lparr>rg_state := st\<rparr>, out))"
  by (simp add: RandomPayloadGenerator_fill_def fill_avx2_def fill_portable_def)

interpretation generators: payload_generator fill generator_ok
proof
  fix g :: IPayloadGenerator and m n :: nat
  assume ok: "generator_ok g"
  show "length (snd (fill g n)) = n"
    using ok by (cases g) (auto simp: RandomPayloadGenerator_fill_eq split_beta Let_def length_fill_impl rng_seeded_def
        SequentialPayloadGenerator_fill_def sequential_loop_eq)
  show "fill g 0 = (g, [])"
    using ok by (cases g) (auto simp: RandomPayloadGenerator_fill_eq fill_impl_zero rng_seeded_def
        SequentialPayloadGenerator_fill_def)
  show "generator_ok (fst (fill g n))"
    using ok by (cases g) (auto simp: RandomPayloadGenerator_fill_eq split_beta Let_def fill_impl_seeded)
  assume "64 dvd m"
  then obtain j where m: "m = 64 * j" ..
  show "fill g (m + n) = (let (g, a) = fill g m; (g, b) = fill g n in (g, a @ b))"
  proof (cases g)
    case (Random r)
    then have "rng_shape (rg_state r)" using ok by (simp add: rng_seeded_def)
    from fill_impl_split [OF this, of j n] Random show ?thesis
      by (simp add: m RandomPayloadGenerator_fill_eq split_beta Let_def)
  next
    case (Sequential b)
    have "map (\<lambda>i. b + of_nat i) [0..<m + n] = map (\<lambda>i. b + of_nat i) [0..<m] @ map (\<lambda>i. b + of_nat m + of_nat i) [0..<n]"
      by (rule nth_equalityI) (auto simp: nth_append)
    then show ?thesis
      by (simp add: Sequential SequentialPayloadGenerator_fill_def sequential_loop_eq add.assoc)
  qed
qed

lemma make_payload_generator_ok: "make_payload_generator avx2 kind seed = Inr g \<Longrightarrow> generator_ok g"
  by (auto simp: make_payload_generator_def new_generator_seeded split: if_splits)


text \<open>Successive fills of one generator, the outputs concatenated.\<close>

primrec fill_all :: "IPayloadGenerator \<Rightarrow> nat list \<Rightarrow> IPayloadGenerator \<times> bytes" where
  "fill_all g [] = (g, [])"
| "fill_all g (n # ns) = (let (g, a) = fill g n; (g, b) = fill_all g ns in (g, a @ b))"

lemma fill_all_ok: "generator_ok g \<Longrightarrow> generator_ok (fst (fill_all g ns))"
  using generators.fill_keeps_ok by (induction ns arbitrary: g) (simp_all add: split_beta Let_def)

lemma fill_all_sequential:
  "fill_all (Sequential b) ns = (Sequential (b + of_nat (sum_list ns)), map (\<lambda>i. b + of_nat i) [0..<sum_list ns])"
proof (induction ns arbitrary: b)
  case (Cons n ns)
  have "map (\<lambda>i. b + of_nat i) [0..<n + sum_list ns] =
      map (\<lambda>i. b + of_nat i) [0..<n] @ map (\<lambda>i. b + of_nat n + of_nat i) [0..<sum_list ns]"
    by (rule nth_equalityI) (auto simp: nth_append)
  then show ?case
    by (simp add: Cons.IH SequentialPayloadGenerator_fill_def sequential_loop_eq add.assoc)
qed simp

section \<open>Properties\<close>

text \<open>
  C35: the vectorised fill is eight independent xoshiro256+ generators: for every state and
  every payload size, the bytes written are the 64-bit outputs of the eight scalar generators,
  lane by lane in little-endian order, cut to the size of the payload, and each lane's state
  afterwards is that of its scalar generator after as many steps as 64-byte blocks were needed.
\<close>

theorem random_fill_matches_scalar:
  assumes "rng_shape (rg_state g)"
  shows "RandomPayloadGenerator_fill g n =
    (g\<lparr>rg_state := soa (map (\<lambda>l. (xoshiro_next ^^ ((n + 63) div 64)) (rng_lane (rg_state g) l)) [0..<8])\<rparr>,
     take n (scalar_blocks ((n + 63) div 64) (map (rng_lane (rg_state g)) [0..<8])))"
  using soa_lanes [OF assms] fill_impl_scalar [of "map (rng_lane (rg_state g)) [0..<8]" n]
  by (simp add: RandomPayloadGenerator_fill_eq blocks_for_def comp_def)

theorem random_fill_matches_scalar_witness:
  "snd (RandomPayloadGenerator_fill \<lparr>rg_state = [replicate 8 1, replicate 8 2, replicate 8 3, replicate 8 4], rg_avx2 = True\<rparr> 9) =
     [5, 0, 0, 0, 0, 0, 0, 0, 5]"
proof -
  let ?g = "\<lparr>rg_state = [replicate 8 1, replicate 8 2, replicate 8 3, replicate 8 4], rg_avx2 = True\<rparr>"
  have "rng_shape (rg_state ?g)" by (simp add: rng_shape_def All_less_Suc eval_nat_numeral)
  then have "snd (RandomPayloadGenerator_fill ?g 9) = take 9 (scalar_blocks ((9 + 63) div 64) (map (rng_lane (rg_state ?g)) [0..<8]))"
    by (simp only: random_fill_matches_scalar snd_conv)
  also have "\<dots> = [5, 0, 0, 0, 0, 0, 0, 0, 5]" by code_simp
  finally show ?thesis .
qed

text \<open>
  No lane of the random generator is ever in xoshiro's all-zero fixed point, whatever the
  seed and whatever payloads have been filled since.
\<close>

lemma random_lanes_never_zero:
  assumes "fst (fill_all (Random (RandomPayloadGenerator_new avx2 seed)) ns) = Random r" "l < 8"
  shows "rng_lane (rg_state r) l \<noteq> (0, 0, 0, 0)"
  using fill_all_ok [of "Random (RandomPayloadGenerator_new avx2 seed)" ns] new_generator_seeded assms
  by (auto simp: rng_seeded_def xoshiro_zero_def)

text \<open>
  The sequential generator is one byte counter across all packets: whatever the sizes of
  the payloads, the concatenation of what is written is 0, 1, ..., 255, 0, 1, ...
\<close>

lemma sequential_counts_across_packets:
  "\<exists>g. make_payload_generator avx2 ''sequential'' seed = Inr g \<and>
     snd (fill_all g ns) = map (\<lambda>i. of_nat (i mod 256)) [0..<sum_list ns]"
proof -
  have "of_nat i = (of_nat (i mod 256) :: u8)" for i
    by (rule word_unat_eq_iff [THEN iffD2]) (simp add: unat_of_nat take_bit_eq_mod)
  then show ?thesis by (simp add: make_payload_generator_def fill_all_sequential)
qed

end
