(* ===== verification/Packet_Builder.thy ===== *)
theory Packet_Builder
  imports Packet_Validator Payload_Generator
begin

text \<open>
  The producer's packet builder: \<^verbatim>\<open>producer/packet_builder.cpp\<close> and
  \<^verbatim>\<open>producer/packet_builder.hpp\<close>. It generates and hashes the payload in chunks of 8 KiB;
  the lemmas show that this is the same packet as filling the payload at once and sealing it
  in a second pass, and so one the consumer's validator accepts.
\<close>

definition kChunkBytes :: nat where
  "kChunkBytes = 8 * 1024"

record PacketBuilder =
  pb_generator :: IPayloadGenerator
  pb_checksum :: IChecksum

text \<open>
  The loop over the payload: the generator and the checksum state after it, and the bytes
  written to the payload, for \<open>n\<close> bytes left to fill.
\<close>

function build_payload :: "IChecksum \<Rightarrow> IPayloadGenerator \<Rightarrow> u32 \<Rightarrow> nat \<Rightarrow> IPayloadGenerator \<times> u32 \<times> bytes" where
  "build_payload c g state n =
     (if n = 0 then (g, state, [])
      else let (g, chunk) = fill g (min n kChunkBytes);
               state = ck_update c state chunk;
               (g, state, rest) = build_payload c g state (n - min n kChunkBytes)
           in (g, state, chunk @ rest))"
  by auto
termination
  by (relation "measure (\<lambda>(c, g, state, n). n)") (auto simp: kChunkBytes_def)

declare build_payload.simps [simp del]

definition PacketBuilder_build :: "PacketBuilder \<Rightarrow> bytes \<Rightarrow> u64 \<Rightarrow> i64 \<Rightarrow> PacketBuilder \<times> bytes" where
  "PacketBuilder_build b rec seq wall_clock_ns =
     (let c = pb_checksum b;
          rec = write_header rec seq wall_clock_ns (ck_kind c);
          state = ck_update c (ck_begin c) (take kHeaderSize rec);
          (g, state, payload) = build_payload c (pb_generator b) state (length rec - kHeaderSize);
          rec = blit kHeaderSize payload rec
      in (b\<lparr>pb_generator := g\<rparr>, patch_checksum rec (ck_finish c state)))"


section \<open>Chunking does not change the packet\<close>

lemma fill_chunk:
  assumes "generator_ok g" "kChunkBytes \<le> n"
  shows "fill g n = (let (g, a) = fill g kChunkBytes; (g, b) = fill g (n - kChunkBytes) in (g, a @ b))"
  using generators.fill_split [OF assms(1), of kChunkBytes "n - kChunkBytes"] assms(2)
  by (simp add: kChunkBytes_def)

context checksum_algorithm
begin

lemma build_payload_eq:
  assumes "generator_ok g"
  shows "build_payload c g s n = (fst (fill g n), ck_update c s (snd (fill g n)), snd (fill g n))"
  using assms
proof (induction n arbitrary: g s rule: less_induct)
  case (less n)
  note ok = generators.fill_keeps_ok [OF less.prems]
  consider "n = 0" | "0 < n" "n \<le> kChunkBytes" | "kChunkBytes < n" by linarith
  then show ?case
  proof cases
    case 1
    then show ?thesis
      by (subst build_payload.simps) (simp add: generators.fill_zero [OF less.prems] update_nil)
  next
    case 2
    then have "build_payload c g s n = (let (g, a) = fill g n; (g, s, b) = build_payload c g (ck_update c s a) 0 in (g, s, a @ b))"
      by (subst build_payload.simps) simp
    then show ?thesis by (simp add: build_payload.simps [where n = 0] split_beta Let_def)
  next
    case 3
    then have "build_payload c g s n = (let (g, a) = fill g kChunkBytes;
        (g, s, b) = build_payload c g (ck_update c s a) (n - kChunkBytes) in (g, s, a @ b))"
      by (subst build_payload.simps) simp
    moreover have "n - kChunkBytes < n" using 3 by (simp add: kChunkBytes_def)
    ultimately show ?thesis
      using less.IH [OF _ ok] fill_chunk [OF less.prems less_imp_le [OF 3]]
      by (simp add: split_beta Let_def update_append)
  qed
qed

lemma build_eq:
  assumes "generator_ok (pb_generator b)" "pb_checksum b = c" "32 \<le> length rec"
  shows "PacketBuilder_build b rec s t =
    (b\<lparr>pb_generator := fst (fill (pb_generator b) (length rec - 32))\<rparr>,
     seal_packet (take 32 rec @ snd (fill (pb_generator b) (length rec - 32))) s t c)"
proof -
  define payload where "payload = snd (fill (pb_generator b) (length rec - 32))"
  have len: "length payload = length rec - 32"
    unfolding payload_def by (rule generators.fill_length [OF assms(1)])
  define hd where "hd = take 32 (write_header rec s t (ck_kind c))"
  have written: "write_header (take 32 rec @ payload) s t (ck_kind c) = hd @ payload"
    using assms(3) len by (simp add: hd_def write_header_def blit_def kHeaderSize_def)
  have blit: "blit 32 payload (write_header rec s t (ck_kind c)) = hd @ payload"
    using assms(3) len by (simp add: hd_def blit_def)
  show ?thesis
    using assms build_payload_eq [OF assms(1)]
    by (simp add: PacketBuilder_build_def Let_def kHeaderSize_def seal_packet_def ck_compute_def written
        update_append blit flip: payload_def hd_def)
qed

end


section \<open>Properties\<close>

text \<open>
  C16: building in chunks is building at once: for a generator made by the factory, after any
  fills, and any registered checksum, the packet the builder leaves in the slot is the one
  obtained by filling the whole payload in one call and sealing the record afterwards (header
  with the sequence number and timestamp, checksum over the finished packet), and the generator
  ends in the same state.
\<close>

theorem chunked_build_is_sealed:
  assumes "crc_instructions_documented cpu" "ChecksumRegistry_find cpu k = Some (pb_checksum b)"
    and "make_payload_generator avx2 kind seed = Inr g" "pb_generator b = fst (fill_all g ns)"
    and "kHeaderSize \<le> length rec"
  shows "PacketBuilder_build b rec seq now =
    (b\<lparr>pb_generator := fst (fill (pb_generator b) (length rec - kHeaderSize))\<rparr>,
     seal_packet (take kHeaderSize rec @ snd (fill (pb_generator b) (length rec - kHeaderSize))) seq now (pb_checksum b))"
  unfolding kHeaderSize_def
proof (rule checksum_algorithm.build_eq [OF ChecksumRegistry_algorithm [OF assms(1,2)]])
  show "generator_ok (pb_generator b)"
    unfolding assms(4) by (rule fill_all_ok [OF make_payload_generator_ok [OF assms(3)]])
qed (use assms(5) in \<open>simp_all add: kHeaderSize_def\<close>)

theorem chunked_build_is_sealed_witness:
  "snd (PacketBuilder_build \<lparr>pb_generator = Sequential 0, pb_checksum = Crc32\<rparr> (replicate 9000 7) 3 5) =
     seal_packet (replicate 32 7 @ map of_nat [0..<8968]) 3 5 Crc32"
proof -
  have "ChecksumRegistry_find serial_cpu 1 = Some Crc32"
    by (simp add: ChecksumRegistry_find_def ChecksumKind_Crc32_def)
  from chunked_build_is_sealed [OF serial_cpu_documented, of 1
      "\<lparr>pb_generator = Sequential 0, pb_checksum = Crc32\<rparr>" False "''sequential''" 0 "Sequential 0" "[]" "replicate 9000 7" 3 5] this
  show ?thesis
    by (simp add: make_payload_generator_def kHeaderSize_def SequentialPayloadGenerator_fill_def sequential_loop_eq)
qed

end
