(* ===== verification/Producer_App.thy ===== *)
theory Producer_App
  imports Packet_Builder Shm_Transport Stats "HOL-Library.Sublist"
begin

text \<open>
  The producer application: \<^verbatim>\<open>producer/producer_app.cpp\<close>, \<^verbatim>\<open>producer/producer_app.hpp\<close> and the
  reporter interface of \<^verbatim>\<open>producer/producer_reporter.hpp\<close>. What the sink, the clocks and the run
  control return in each turn of the loop is the input of the model; the calls on the sink and
  the reporter are its output, in order. The lemmas give the stream the producer commits, its
  length under a packet limit, and the condition under which the loop ends.
\<close>

section \<open>The application\<close>

record ProducerConfig =
  pc_payload_size :: u64
  pc_max_packets :: u64
  pc_report_interval :: int
  pc_reserve_timeout :: int
  pc_wait_for_consumer :: bool

record ProducerSnapshot =
  psn_total_packets :: u64
  psn_total_bytes :: u64
  psn_interval :: RateSample
  psn_queue :: QueueStatus
  psn_paused :: bool

datatype producer_report =
    PInfo string
  | PStateChanged bool
  | PReport ProducerSnapshot
  | PSummary u64 u64 steady_ns

text \<open>Calls on the packet sink; a commit is recorded with the bytes in the slot at that time.\<close>

datatype sink_call = SinkWaitForPeer | SinkReserve u64 int | SinkCommit bytes | SinkQueueStatus

record ProducerApp =
  pa_config :: ProducerConfig
  pa_builder :: PacketBuilder
  pa_limiter :: RateLimiter
  pa_calls :: "sink_call list"
  pa_reports :: "producer_report list"

definition on_sink :: "sink_call \<Rightarrow> ProducerApp \<Rightarrow> ProducerApp" where
  "on_sink c app = app\<lparr>pa_calls := pa_calls app @ [c]\<rparr>"

definition tell :: "producer_report \<Rightarrow> ProducerApp \<Rightarrow> ProducerApp" where
  "tell r app = app\<lparr>pa_reports := pa_reports app @ [r]\<rparr>"

text \<open>The local variables of \<^verbatim>\<open>ProducerApp::run\<close>.\<close>

record producer_locals =
  pl_timer :: PeriodicTimer
  pl_window :: RateWindow
  pl_sequence :: u64
  pl_total_bytes :: u64
  pl_was_paused :: bool

text \<open>What one turn of the loop meets; each field is used at most once.\<close>

record producer_turn =
  ut_stop :: bool
  ut_paused :: bool
  ut_limiter_clock :: int
  ut_limiter_turns :: "(bool \<times> int) list"
  ut_slot :: "bytes option"
  ut_wall_clock :: i64
  ut_due_clock :: steady_ns
  ut_take_clock :: steady_ns
  ut_queue :: QueueStatus

type_synonym producer_state = "ProducerApp \<times> producer_locals"

definition packet_size :: "ProducerConfig \<Rightarrow> u64" where
  "packet_size config = of_nat kHeaderSize + pc_payload_size config"

definition producer_report_if_due :: "producer_turn \<Rightarrow> producer_state \<Rightarrow> producer_state" where
  "producer_report_if_due t x =
     (let (app, l) = x; (timer, due) = PeriodicTimer_due (pl_timer l) (ut_due_clock t); l = l\<lparr>pl_timer := timer\<rparr>
      in if due then
           (let (window, sample) = RateWindow_take (pl_window l) (ut_take_clock t)
            in (tell (PReport \<lparr>psn_total_packets = pl_sequence l, psn_total_bytes = pl_total_bytes l, psn_interval = sample,
                   psn_queue = ut_queue t, psn_paused = pl_was_paused l\<rparr>) (on_sink SinkQueueStatus app),
                l\<lparr>pl_window := window\<rparr>))
         else (app, l))"

definition notice_pause :: "bool \<Rightarrow> producer_state \<Rightarrow> producer_state" where
  "notice_pause paused x =
     (let (app, l) = x
      in if paused \<noteq> pl_was_paused l then (tell (PStateChanged paused) app, l\<lparr>pl_was_paused := paused\<rparr>) else (app, l))"

definition produce_packet :: "bytes \<Rightarrow> i64 \<Rightarrow> producer_state \<Rightarrow> producer_state" where
  "produce_packet slot wall_clock_ns x =
     (let (app, l) = x; size = packet_size (pa_config app);
          (builder, packet) = PacketBuilder_build (pa_builder app) slot (pl_sequence l) wall_clock_ns
      in (on_sink (SinkCommit packet) (app\<lparr>pa_builder := builder\<rparr>),
          l\<lparr>pl_sequence := pl_sequence l + 1, pl_total_bytes := pl_total_bytes l + size,
            pl_window := RateWindow_add (pl_window l) size\<rparr>))"

text \<open>The loop of \<^verbatim>\<open>run\<close>; None when the turns, or the limiter's clock readings, run out before it ends.\<close>

fun produce_loop :: "producer_turn list \<Rightarrow> producer_state \<Rightarrow> producer_state option" where
  "produce_loop [] x = None"
| "produce_loop (t # ts) (app, l) =
     (if ut_stop t then Some (app, l)
      else if pc_max_packets (pa_config app) \<noteq> 0 \<and> pc_max_packets (pa_config app) \<le> pl_sequence l then Some (app, l)
      else
        let (app, l) = notice_pause (ut_paused t) (app, l)
        in if ut_paused t then produce_loop ts (producer_report_if_due t (app, l))
           else case wait_for_slot (pa_limiter app) (ut_limiter_clock t) (ut_limiter_turns t) of
                  None \<Rightarrow> None
                | Some (limiter, granted, naps) \<Rightarrow>
                    let app = on_sink (SinkReserve (packet_size (pa_config app)) (pc_reserve_timeout (pa_config app)))
                                (app\<lparr>pa_limiter := limiter\<rparr>)
                    in case ut_slot t of
                         None \<Rightarrow> produce_loop ts (producer_report_if_due t (app, l))
                       | Some slot \<Rightarrow> produce_loop ts (producer_report_if_due t (produce_packet slot (ut_wall_clock t) (app, l))))"

text \<open>
  \<^verbatim>\<open>ProducerApp::run\<close>: what the sink answers before the loop, the clock readings of the
  constructors, the turns of the loop and the reading for the summary.
\<close>

record producer_inputs =
  pi_max_packet_size :: u64
  pi_describe :: string
  pi_peer :: bool
  pi_timer_clock :: steady_ns
  pi_window_clock :: steady_ns
  pi_started :: steady_ns
  pi_turns :: "producer_turn list"
  pi_end_clock :: steady_ns

definition locals_new :: "ProducerConfig \<Rightarrow> producer_inputs \<Rightarrow> producer_locals" where
  "locals_new config i = \<lparr>pl_timer = PeriodicTimer_new (pc_report_interval config) (pi_timer_clock i),
     pl_window = RateWindow_new (pi_window_clock i), pl_sequence = 0, pl_total_bytes = 0, pl_was_paused = False\<rparr>"

definition announce :: "producer_inputs \<Rightarrow> ProducerApp \<Rightarrow> ProducerApp" where
  "announce i app =
     (let app = tell (PInfo (''Transport: '' @ pi_describe i)) app;
          app = tell (PInfo (''Packet: '' @ show_nat kHeaderSize @ '' B header + '' @ show_nat (unat (pc_payload_size (pa_config app))) @
                  '' B payload = '' @ show_nat (unat (packet_size (pa_config app))) @ '' B'')) app
      in if pc_wait_for_consumer (pa_config app)
         then let app = on_sink SinkWaitForPeer (tell (PInfo ''Waiting for a consumer to attach...'') app)
              in if pi_peer i then tell (PInfo ''Consumer attached'') app else app
         else app)"

definition ProducerApp_run :: "producer_inputs \<Rightarrow> ProducerApp \<Rightarrow> (int \<times> ProducerApp) result option" where
  "ProducerApp_run i app =
     (let record_size = packet_size (pa_config app)
      in if pi_max_packet_size i < record_size
         then Some (Inl (InvalidArgument (''a '' @ show_nat (unat record_size) @ '' byte packet does not fit into the transport (max '' @
                show_nat (unat (pi_max_packet_size i)) @ '' bytes)'')))
         else
           let app = announce i app
           in if pc_wait_for_consumer (pa_config app) \<and> \<not> pi_peer i then Some (Inr (0, app))
              else case produce_loop (pi_turns i) (app, locals_new (pa_config app) i) of
                     None \<Rightarrow> None
                   | Some (app, l) \<Rightarrow> Some (Inr (0, tell (PSummary (pl_sequence l) (pl_total_bytes l) (pi_end_clock i - pi_started i)) app)))"

section \<open>What a turn changes\<close>

text \<open>The packets committed, in order.\<close>

fun committed :: "sink_call list \<Rightarrow> bytes list" where
  "committed [] = []"
| "committed (SinkCommit p # cs) = p # committed cs"
| "committed (c # cs) = committed cs"

lemma committed_append [simp]: "committed (as @ bs) = committed as @ committed bs"
  by (induction as rule: committed.induct) simp_all

lemma on_sink_simps [simp]:
  "pa_config (on_sink c app) = pa_config app" "pa_builder (on_sink c app) = pa_builder app"
  "pa_limiter (on_sink c app) = pa_limiter app" "pa_reports (on_sink c app) = pa_reports app"
  "pa_calls (on_sink c app) = pa_calls app @ [c]"
  by (simp_all add: on_sink_def)

lemma tell_simps [simp]:
  "pa_config (tell r app) = pa_config app" "pa_builder (tell r app) = pa_builder app"
  "pa_limiter (tell r app) = pa_limiter app" "pa_calls (tell r app) = pa_calls app"
  "pa_reports (tell r app) = pa_reports app @ [r]"
  by (simp_all add: tell_def)

lemma announce_simps [simp]:
  "pa_config (announce i app) = pa_config app" "pa_builder (announce i app) = pa_builder app"
  "pa_limiter (announce i app) = pa_limiter app" "committed (pa_calls (announce i app)) = committed (pa_calls app)"
  by (simp_all add: announce_def Let_def)

text \<open>The part of the state the stream depends on.\<close>

definition stream_state :: "producer_state \<Rightarrow> ProducerConfig \<times> PacketBuilder \<times> bytes list \<times> u64 \<times> u64" where
  "stream_state x = (pa_config (fst x), pa_builder (fst x), committed (pa_calls (fst x)), pl_sequence (snd x), pl_total_bytes (snd x))"

lemma report_stream_state [simp]: "stream_state (producer_report_if_due t x) = stream_state x"
  by (cases x) (simp add: producer_report_if_due_def stream_state_def split_beta Let_def)

lemma pause_stream_state [simp]: "stream_state (notice_pause p x) = stream_state x"
  by (cases x) (simp add: notice_pause_def stream_state_def Let_def)

lemma limiter_of_steps [simp]:
  "pa_limiter (fst (producer_report_if_due t x)) = pa_limiter (fst x)"
  "pa_limiter (fst (notice_pause p x)) = pa_limiter (fst x)"
  "pa_limiter (fst (produce_packet slot now x)) = pa_limiter (fst x)"
  by (cases x; simp add: producer_report_if_due_def notice_pause_def produce_packet_def split_beta Let_def)+

section \<open>The stream of a run\<close>

text \<open>The turns in which a packet is committed.\<close>

definition producible :: "producer_turn \<Rightarrow> bool" where
  "producible t \<longleftrightarrow> \<not> ut_paused t \<and> ut_slot t \<noteq> None"

fun produced_turns :: "u64 \<Rightarrow> u64 \<Rightarrow> producer_turn list \<Rightarrow> producer_turn list" where
  "produced_turns mx n [] = []"
| "produced_turns mx n (t # ts) =
     (if ut_stop t \<or> mx \<noteq> 0 \<and> mx \<le> n then []
      else if producible t then t # produced_turns mx (n + 1) ts else produced_turns mx n ts)"

text \<open>One turn of the loop: it ends, or goes on with nothing committed, or with one packet built and committed.\<close>

definition loop_ends :: "producer_turn \<Rightarrow> producer_state \<Rightarrow> bool" where
  "loop_ends t x \<longleftrightarrow> ut_stop t \<or> pc_max_packets (pa_config (fst x)) \<noteq> 0 \<and> pc_max_packets (pa_config (fst x)) \<le> pl_sequence (snd x)"

definition reserved :: "RateLimiter \<Rightarrow> producer_state \<Rightarrow> producer_state" where
  "reserved lim x = (on_sink (SinkReserve (packet_size (pa_config (fst x))) (pc_reserve_timeout (pa_config (fst x))))
     ((fst x)\<lparr>pa_limiter := lim\<rparr>), snd x)"

lemma produce_loop_Cons:
  "produce_loop (t # ts) x = (if loop_ends t x then Some x
    else let x = notice_pause (ut_paused t) x in
      if ut_paused t then produce_loop ts (producer_report_if_due t x)
      else case wait_for_slot (pa_limiter (fst x)) (ut_limiter_clock t) (ut_limiter_turns t) of None \<Rightarrow> None
        | Some (lim, g, naps) \<Rightarrow> produce_loop ts (producer_report_if_due t (case ut_slot t of None \<Rightarrow> reserved lim x
          | Some slot \<Rightarrow> produce_packet slot (ut_wall_clock t) (reserved lim x))))"
  by (cases x) (auto simp: loop_ends_def reserved_def split_beta Let_def split: option.splits)

lemma reserved_stream_state [simp]: "stream_state (reserved lim x) = stream_state x"
  by (simp add: reserved_def stream_state_def)

lemma produce_loop_step:
  assumes "produce_loop (t # ts) x = Some y"
  obtains (ended) "loop_ends t x" "y = x"
  | (idle) x' where "\<not> loop_ends t x" "produce_loop ts x' = Some y" "\<not> producible t" "stream_state x' = stream_state x"
  | (sends) slot x1 x' where "\<not> loop_ends t x" "produce_loop ts x' = Some y" "producible t" "ut_slot t = Some slot"
      "stream_state x1 = stream_state x" "stream_state x' = stream_state (produce_packet slot (ut_wall_clock t) x1)"
proof (cases "loop_ends t x \<or> ut_paused t")
  case True
  then show thesis
    using assms ended idle [of "producer_report_if_due t (notice_pause (ut_paused t) x)"]
    by (auto simp: produce_loop_Cons Let_def producible_def split: if_splits)
next
  case False
  define x1 where "x1 lim = reserved lim (notice_pause False x)" for lim
  have same: "stream_state (x1 lim) = stream_state x" for lim by (simp add: x1_def)
  from False obtain lim where next_turn: "produce_loop ts (producer_report_if_due t (case ut_slot t of None \<Rightarrow> x1 lim
      | Some slot \<Rightarrow> produce_packet slot (ut_wall_clock t) (x1 lim))) = Some y"
    using assms by (auto simp: produce_loop_Cons x1_def Let_def split: option.splits)
  then show thesis
    using False same idle [of "producer_report_if_due t (x1 lim)"]
      sends [of "producer_report_if_due t (produce_packet (the (ut_slot t)) (ut_wall_clock t) (x1 lim))" "the (ut_slot t)" "x1 lim"]
    by (cases "ut_slot t") (auto simp: producible_def)
qed

text \<open>Without a rate limit every turn of the loop comes back.\<close>

definition packets_of_turn :: "producer_turn \<Rightarrow> u64" where
  "packets_of_turn t = (if producible t then 1 else 0)"

lemma produce_loop_unlimited:
  assumes "\<not> RateLimiter_enabled (pa_limiter (fst x))"
  obtains x' where "produce_loop (t # ts) x = (if loop_ends t x then Some x else produce_loop ts x')"
    "pa_limiter (fst x') = pa_limiter (fst x)" "pa_config (fst x') = pa_config (fst x)"
    "pl_sequence (snd x') = pl_sequence (snd x) + packets_of_turn t"
proof -
  define x1 where "x1 = notice_pause (ut_paused t) x"
  define x' where "x' = producer_report_if_due t (if ut_paused t then x1 else case ut_slot t of None \<Rightarrow> reserved (pa_limiter (fst x)) x1
      | Some slot \<Rightarrow> produce_packet slot (ut_wall_clock t) (reserved (pa_limiter (fst x)) x1))"
  have same: "pa_config (fst x1) = pa_config (fst x)" "pl_sequence (snd x1) = pl_sequence (snd x)"
    using pause_stream_state [of "ut_paused t" x] by (simp_all add: x1_def stream_state_def)
  have lim: "pa_limiter (fst x1) = pa_limiter (fst x)" by (simp add: x1_def)
  have sent: "pa_config (fst (produce_packet slot w y)) = pa_config (fst y)"
      "pl_sequence (snd (produce_packet slot w y)) = pl_sequence (snd y) + 1" for slot w y
    by (cases y; simp add: produce_packet_def split_beta Let_def)+
  have "produce_loop (t # ts) x = (if loop_ends t x then Some x else produce_loop ts x')"
    using assms by (simp add: produce_loop_Cons x'_def lim wait_for_slot_def Let_def flip: x1_def)
  moreover have "pa_limiter (fst x') = pa_limiter (fst x)"
    by (simp add: x'_def lim reserved_def split: option.split)
  moreover have "pa_config (fst x') = pa_config (fst x)" "pl_sequence (snd x') = pl_sequence (snd x) + packets_of_turn t"
    using same report_stream_state [of t] by (auto simp: x'_def stream_state_def packets_of_turn_def producible_def sent reserved_def split: option.split)
  ultimately show thesis by (rule that)
qed

text \<open>Buffers whose payloads are consecutive outputs of a generator, n bytes each.\<close>

definition filled :: "IPayloadGenerator \<Rightarrow> nat \<Rightarrow> (bytes \<times> i64) list \<Rightarrow> bool" where
  "filled g n ps \<longleftrightarrow> (\<forall>(buf, t) \<in> set ps. length buf = 32 + n) \<and>
     concat (map (drop 32 \<circ> fst) ps) = snd (fill_all g (replicate (length ps) n))"

definition slots_sized :: "nat \<Rightarrow> producer_turn list \<Rightarrow> bool" where
  "slots_sized n ts \<longleftrightarrow> (\<forall>t \<in> set ts. \<forall>slot. ut_slot t = Some slot \<longrightarrow> length slot = n)"

lemma filled_Nil [simp]: "filled g n []"
  by (simp add: filled_def)

lemma filled_Cons:
  assumes "generator_ok g" "length h = 32"
  shows "filled g n ((h @ snd (fill g n), t) # ps) \<longleftrightarrow> filled (fst (fill g n)) n ps"
  using assms generators.fill_length [OF assms(1), of n] by (auto simp: filled_def split_beta Let_def)

text \<open>From one state to a later one, the packets sealed from \<open>ps\<close> were committed and counted.\<close>

definition advances :: "IChecksum \<Rightarrow> nat \<Rightarrow> (bytes \<times> i64) list \<Rightarrow> producer_state \<Rightarrow> producer_state \<Rightarrow> bool" where
  "advances c n ps x y =
     (let (config, b, sent, s, total) = stream_state x; (config', b', sent', s', total') = stream_state y
      in config' = config \<and> filled (pb_generator b) n ps \<and> sent' = sent @ sealed_packets c s ps \<and>
         s' = s + of_nat (length ps) \<and> total' = total + of_nat (length ps) * packet_size config)"

lemma advances_cong: "stream_state x = stream_state x' \<Longrightarrow> advances c n ps x y = advances c n ps x' y"
  by (simp add: advances_def)

lemma advances_refl: "advances c n [] x x"
  by (simp add: advances_def split_beta Let_def)

definition builder_ok :: "IChecksum \<Rightarrow> producer_state \<Rightarrow> bool" where
  "builder_ok c x \<longleftrightarrow> (let b = pa_builder (fst x) in generator_ok (pb_generator b) \<and> pb_checksum b = c)"

lemma builder_ok_cong: "stream_state x = stream_state x' \<Longrightarrow> builder_ok c x = builder_ok c x'"
  by (simp add: builder_ok_def stream_state_def)

context checksum_algorithm
begin

lemma produce_packet_stream:
  assumes "builder_ok c x" "length slot = 32 + n"
  defines "b \<equiv> pa_builder (fst x)"
  shows "stream_state (produce_packet slot now x) = (let (config, b, sent, s, total) = stream_state x in
    (config, b\<lparr>pb_generator := fst (fill (pb_generator b) n)\<rparr>,
     sent @ [seal_packet (take 32 slot @ snd (fill (pb_generator b) n)) s now c], s + 1, total + packet_size config))"
  using assms(1) build_eq [of b slot "pl_sequence (snd x)" now] assms(2)
  by (cases x) (simp add: b_def builder_ok_def produce_packet_def stream_state_def split_beta Let_def)

lemma builder_ok_step:
  assumes "builder_ok c x" "length slot = 32 + n"
  shows "builder_ok c (produce_packet slot now x)"
  using produce_packet_stream [OF assms, of now] assms(1)
  by (auto simp: stream_state_def builder_ok_def Let_def intro!: generators.fill_keeps_ok)

lemma advances_step:
  assumes "builder_ok c x" "length slot = 32 + n" "advances c n ps (produce_packet slot now x) y"
  shows "advances c n ((take 32 slot @ snd (fill (pb_generator (pa_builder (fst x))) n), now) # ps) x y"
proof -
  have ok: "generator_ok (pb_generator (pa_builder (fst x)))" using assms(1) by (simp add: builder_ok_def Let_def)
  have "length (take 32 slot) = 32" using assms(2) by simp
  note fc = filled_Cons [OF ok this]
  show ?thesis
    using assms(3) unfolding advances_def produce_packet_stream [OF assms(1,2)]
    by (auto simp: stream_state_def Let_def fc algebra_simps)
qed

lemma produce_loop_stream:
  assumes "produce_loop ts x = Some y" "builder_ok c x" "slots_sized (32 + n) ts"
  shows "\<exists>ps. advances c n ps x y \<and>
    map snd ps = map ut_wall_clock (produced_turns (pc_max_packets (pa_config (fst x))) (pl_sequence (snd x)) ts)"
  using assms
proof (induction ts arbitrary: x)
  case (Cons t ts)
  have sized: "slots_sized (32 + n) ts" using Cons.prems(3) by (simp add: slots_sized_def)
  from Cons.prems(1) show ?case
  proof (cases rule: produce_loop_step)
    case ended
    then show ?thesis by (intro exI [of _ "[]"]) (auto simp: advances_refl loop_ends_def)
  next
    case (idle x')
    then have "pl_sequence (snd x') = pl_sequence (snd x)" "pa_config (fst x') = pa_config (fst x)"
      by (simp_all add: stream_state_def)
    then show ?thesis
      using Cons.IH [OF idle(2) _ sized] Cons.prems(2) idle
      by (auto simp: advances_cong [OF idle(4)] builder_ok_cong [OF idle(4)] loop_ends_def)
  next
    case (sends slot x1 x')
    have len: "length slot = 32 + n" using Cons.prems(3) sends(4) by (simp add: slots_sized_def)
    have ok: "builder_ok c x1" using Cons.prems(2) builder_ok_cong [OF sends(5)] by simp
    have ok': "builder_ok c x'" using builder_ok_step [OF ok len] builder_ok_cong [OF sends(6)] by blast
    have vals: "pl_sequence (snd x') = pl_sequence (snd x) + 1" "pa_config (fst x') = pa_config (fst x)"
      using sends(5,6) produce_packet_stream [OF ok len, of "ut_wall_clock t"] by (simp_all add: stream_state_def)
    obtain ps where ps: "advances c n ps x' y"
        "map snd ps = map ut_wall_clock (produced_turns (pc_max_packets (pa_config (fst x))) (pl_sequence (snd x) + 1) ts)"
      using Cons.IH [OF sends(2) ok' sized] vals by auto
    have "advances c n ps (produce_packet slot (ut_wall_clock t) x1) y" using ps(1) advances_cong [OF sends(6)] by simp
    from advances_step [OF ok len this] obtain buf where "advances c n ((buf, ut_wall_clock t) # ps) x y"
      unfolding advances_cong [OF sends(5)] by blast
    then show ?thesis
      using ps(2) sends(1,3) by (intro exI [of _ "(buf, ut_wall_clock t) # ps"]) (simp add: loop_ends_def)
  qed
qed simp

end

section \<open>Counts\<close>

lemma produced_turns_bounded:
  assumes "mx \<noteq> 0" "n \<le> mx"
  shows "unat n + length (produced_turns mx n ts) \<le> unat mx"
  using assms
proof (induction ts arbitrary: n)
  case (Cons t ts)
  show ?case
  proof (cases "mx \<le> n")
    case False
    then have "n < mx" by simp
    then have up: "unat (n + 1) = Suc (unat n)" "n + 1 \<le> mx"
      using unat_Suc_below [of n mx] by (simp_all add: word_less_nat_alt word_le_nat_alt)
    then show ?thesis using Cons.IH [of n] Cons.IH [of "n + 1"] Cons.prems by auto
  qed (use Cons.prems in \<open>simp add: word_le_nat_alt\<close>)
qed (simp add: word_le_nat_alt)

lemma produced_turns_prefix: "prefix (produced_turns mx n ts) (filter producible ts)"
  by (induction mx n ts rule: produced_turns.induct) simp_all

lemma produce_loop_exhausts:
  assumes "produce_loop ts x = Some y" "\<forall>t \<in> set ts. \<not> ut_stop t"
  shows "pc_max_packets (pa_config (fst y)) \<noteq> 0 \<and> pc_max_packets (pa_config (fst y)) \<le> pl_sequence (snd y)"
  using assms
proof (induction ts arbitrary: x)
  case (Cons t ts)
  from Cons.prems(1) show ?case
    by (cases rule: produce_loop_step) (use Cons in \<open>auto simp: loop_ends_def\<close>)
qed simp

lemma produce_loop_returns_iff:
  assumes "\<not> RateLimiter_enabled (pa_limiter (fst x))"
  defines "mx \<equiv> pc_max_packets (pa_config (fst x))"
  shows "produce_loop ts x \<noteq> None \<longleftrightarrow> (\<exists>i < length ts. ut_stop (ts ! i) \<or>
    mx \<noteq> 0 \<and> unat mx \<le> unat (pl_sequence (snd x)) + length (filter producible (take i ts)))"
  using assms(1) unfolding mx_def
proof (induction ts arbitrary: x)
  case (Cons t ts)
  let ?mx = "pc_max_packets (pa_config (fst x))" and ?n = "pl_sequence (snd x)"
  let ?P = "\<lambda>i. ut_stop ((t # ts) ! i) \<or> ?mx \<noteq> 0 \<and> unat ?mx \<le> unat ?n + length (filter producible (take i (t # ts)))"
  obtain x' where x': "produce_loop (t # ts) x = (if loop_ends t x then Some x else produce_loop ts x')"
    "pa_limiter (fst x') = pa_limiter (fst x)" "pa_config (fst x') = pa_config (fst x)" "pl_sequence (snd x') = ?n + packets_of_turn t"
    using produce_loop_unlimited [OF Cons.prems] by blast
  have first: "?P 0 \<longleftrightarrow> loop_ends t x" by (simp add: loop_ends_def word_le_nat_alt)
  have later: "?P (Suc i) \<longleftrightarrow> ut_stop (ts ! i) \<or> ?mx \<noteq> 0 \<and> unat ?mx \<le> unat (pl_sequence (snd x')) + length (filter producible (take i ts))"
    if "\<not> loop_ends t x" for i
  proof (cases "?mx = 0")
    case False
    then have "?n < ?mx" using that by (auto simp: loop_ends_def)
    then have "unat (?n + 1) = Suc (unat ?n)" by (rule unat_Suc_below)
    then show ?thesis by (simp add: x'(4) packets_of_turn_def)
  qed simp
  show ?case
    unfolding x'(1) using Cons.IH [of x'] Cons.prems x'(2,3) first later
    by (simp add: ex_simps Ex_less_Suc2)
qed simp

section \<open>Properties\<close>

lemma unat_packet_size:
  "unat (pc_payload_size config) < 2 ^ 64 - 32 \<Longrightarrow> unat (packet_size config) = 32 + unat (pc_payload_size config)"
  unfolding packet_size_def kHeaderSize_def by (subst unat_add_small) simp_all

lemma unat_packet_size_wrapped:
  assumes "2 ^ 64 - 32 \<le> unat (pc_payload_size config)"
  shows "unat (packet_size config) = unat (pc_payload_size config) - (2 ^ 64 - 32)"
proof -
  have "unat (pc_payload_size config) < 2 ^ LENGTH(64)" by (rule unsigned_less)
  then show ?thesis
    using assms by (simp add: packet_size_def kHeaderSize_def unat_word_ariths mod_if)
qed

fun reserve_sizes :: "sink_call list \<Rightarrow> u64 list" where
  "reserve_sizes [] = []"
| "reserve_sizes (SinkReserve n timeout # cs) = n # reserve_sizes cs"
| "reserve_sizes (c # cs) = reserve_sizes cs"

lemma reserve_sizes_append [simp]: "reserve_sizes (as @ bs) = reserve_sizes as @ reserve_sizes bs"
  by (induction as rule: reserve_sizes.induct) simp_all

lemma reserve_sizes_of_steps [simp]:
  "reserve_sizes (pa_calls (fst (producer_report_if_due t x))) = reserve_sizes (pa_calls (fst x))"
  "pa_config (fst (producer_report_if_due t x)) = pa_config (fst x)"
  "reserve_sizes (pa_calls (fst (notice_pause p x))) = reserve_sizes (pa_calls (fst x))"
  "pa_config (fst (notice_pause p x)) = pa_config (fst x)"
  "reserve_sizes (pa_calls (fst (produce_packet slot now x))) = reserve_sizes (pa_calls (fst x))"
  "pa_config (fst (produce_packet slot now x)) = pa_config (fst x)"
  "reserve_sizes (pa_calls (fst (reserved lim x))) = reserve_sizes (pa_calls (fst x)) @ [packet_size (pa_config (fst x))]"
  "pa_config (fst (reserved lim x)) = pa_config (fst x)"
  by (cases x; simp add: producer_report_if_due_def notice_pause_def produce_packet_def reserved_def split_beta Let_def)+

lemma reserve_sizes_announce [simp]: "reserve_sizes (pa_calls (announce i app)) = reserve_sizes (pa_calls app)"
  by (simp add: announce_def Let_def)

lemma produce_loop_reserves:
  assumes "produce_loop ts x = Some y"
  shows "set (reserve_sizes (pa_calls (fst y))) \<subseteq> insert (packet_size (pa_config (fst x))) (set (reserve_sizes (pa_calls (fst x))))"
  using assms
proof (induction ts arbitrary: x)
  case (Cons t ts)
  have IH: "produce_loop ts x' = Some y \<Longrightarrow> pa_config (fst x') = pa_config (fst x) \<Longrightarrow>
      set (reserve_sizes (pa_calls (fst x'))) \<subseteq> insert (packet_size (pa_config (fst x))) (set (reserve_sizes (pa_calls (fst x)))) \<Longrightarrow> ?case" for x'
    using Cons.IH [of x'] by auto
  show ?case
    using Cons.prems by (auto simp: produce_loop_Cons Let_def split: if_splits option.splits dest!: IH)
qed simp

lemma run_result:
  assumes "ProducerApp_run i app = Some (Inr (code, app'))"
  obtains (no_peer) "pc_wait_for_consumer (pa_config app)" "\<not> pi_peer i" "committed (pa_calls app') = committed (pa_calls app)"
  | (looped) app0 y where "produce_loop (pi_turns i) (app0, locals_new (pa_config app) i) = Some y"
      "app' = tell (PSummary (pl_sequence (snd y)) (pl_total_bytes (snd y)) (pi_end_clock i - pi_started i)) (fst y)"
      "stream_state (app0, locals_new (pa_config app) i) = stream_state (app, locals_new (pa_config app) i)"
      "pc_wait_for_consumer (pa_config app) \<longrightarrow> pi_peer i"
  using assms that
  by (auto simp: ProducerApp_run_def Let_def stream_state_def split: if_splits option.splits)

lemma run_stream:
  assumes "crc_instructions_documented cpu" "ChecksumRegistry_find cpu k = Some (pb_checksum (pa_builder app))"
    and "make_payload_generator avx2 kind seed = Inr (pb_generator (pa_builder app))"
    and "unat (pc_payload_size (pa_config app)) < 2 ^ 64 - 32" "pa_calls app = []"
    and "slots_sized (unat (packet_size (pa_config app))) (pi_turns i)"
    and "produce_loop (pi_turns i) (app0, locals_new (pa_config app) i) = Some y"
    and "stream_state (app0, locals_new (pa_config app) i) = stream_state (app, locals_new (pa_config app) i)"
  obtains ps where "committed (pa_calls (fst y)) = sealed_packets (pb_checksum (pa_builder app)) 0 ps"
    "filled (pb_generator (pa_builder app)) (unat (pc_payload_size (pa_config app))) ps"
    "map snd ps = map ut_wall_clock (produced_turns (pc_max_packets (pa_config app)) 0 (pi_turns i))"
    "pa_config (fst y) = pa_config app" "pl_sequence (snd y) = of_nat (length ps)"
    "pl_total_bytes (snd y) = of_nat (length ps) * packet_size (pa_config app)"
proof -
  let ?x = "(app0, locals_new (pa_config app) i)"
  have x: "pa_config app0 = pa_config app" "pa_builder app0 = pa_builder app" "committed (pa_calls app0) = []"
    "pl_sequence (snd ?x) = 0" "pl_total_bytes (snd ?x) = 0"
    using assms(5,8) by (simp_all add: stream_state_def locals_new_def)
  have ok: "builder_ok (pb_checksum (pa_builder app)) ?x"
    using make_payload_generator_ok [OF assms(3)] by (simp add: builder_ok_def x Let_def)
  obtain ps where ps: "advances (pb_checksum (pa_builder app)) (unat (pc_payload_size (pa_config app))) ps ?x y"
      "map snd ps = map ut_wall_clock (produced_turns (pc_max_packets (pa_config app)) 0 (pi_turns i))"
    using checksum_algorithm.produce_loop_stream [OF ChecksumRegistry_algorithm [OF assms(1,2)] assms(7) ok]
      assms(6) x by (auto simp: unat_packet_size [OF assms(4)])
  show thesis by (rule that [OF _ _ ps(2)]) (use ps(1) x in \<open>auto simp: advances_def stream_state_def\<close>)
qed

text \<open>A small run, for the witnesses.\<close>

definition demo_turn :: "bool \<Rightarrow> bytes option \<Rightarrow> producer_turn" where
  "demo_turn stop slot = \<lparr>ut_stop = stop, ut_paused = False, ut_limiter_clock = 0, ut_limiter_turns = [], ut_slot = slot,
     ut_wall_clock = 7, ut_due_clock = 0, ut_take_clock = 0, ut_queue = \<lparr>qs_used_bytes = 0, qs_capacity_bytes = 4096\<rparr>\<rparr>"

definition demo_inputs :: "producer_turn list \<Rightarrow> producer_inputs" where
  "demo_inputs ts = \<lparr>pi_max_packet_size = 1000, pi_describe = ''demo'', pi_peer = True, pi_timer_clock = 0,
     pi_window_clock = 0, pi_started = 0, pi_turns = ts, pi_end_clock = 9\<rparr>"

definition demo_producer :: "u64 \<Rightarrow> u64 \<Rightarrow> ProducerApp" where
  "demo_producer payload count = \<lparr>pa_config = \<lparr>pc_payload_size = payload, pc_max_packets = count, pc_report_interval = 1000,
       pc_reserve_timeout = 50, pc_wait_for_consumer = False\<rparr>,
     pa_builder = \<lparr>pb_generator = Sequential 0, pb_checksum = Crc32\<rparr>, pa_limiter = RateLimiter_new None 0,
     pa_calls = [], pa_reports = []\<rparr>"

lemmas demo_run_defs = ProducerApp_run_def announce_def tell_def demo_inputs_def demo_turn_def demo_producer_def packet_size_def kHeaderSize_def Let_def
  locals_new_def notice_pause_def wait_for_slot_def RateLimiter_enabled_def RateLimiter_new_def split_beta
  producer_report_if_due_def produce_packet_def on_sink_def PeriodicTimer_due_def PeriodicTimer_new_def

lemma run_commits:
  assumes "crc_instructions_documented cpu" "ChecksumRegistry_find cpu k = Some (pb_checksum (pa_builder app))"
    and "make_payload_generator avx2 kind seed = Inr (pb_generator (pa_builder app))"
    and "unat (pc_payload_size (pa_config app)) < 2 ^ 64 - 32" "pa_calls app = []"
    and "slots_sized (unat (packet_size (pa_config app))) (pi_turns i)"
    and "ProducerApp_run i app = Some (Inr (code, app'))"
  shows "\<exists>ps. committed (pa_calls app') = sealed_packets (pb_checksum (pa_builder app)) 0 ps \<and>
    filled (pb_generator (pa_builder app)) (unat (pc_payload_size (pa_config app))) ps \<and>
    prefix (map snd ps) (map ut_wall_clock (filter producible (pi_turns i))) \<and>
    (pc_max_packets (pa_config app) \<noteq> 0 \<longrightarrow> length ps \<le> unat (pc_max_packets (pa_config app)))"
  using assms(7)
proof (cases rule: run_result)
  case no_peer
  then show ?thesis using assms(5) by (intro exI [of _ "[]"]) simp
next
  case (looped app0 y)
  obtain ps where ps: "committed (pa_calls (fst y)) = sealed_packets (pb_checksum (pa_builder app)) 0 ps"
      "filled (pb_generator (pa_builder app)) (unat (pc_payload_size (pa_config app))) ps"
      "map snd ps = map ut_wall_clock (produced_turns (pc_max_packets (pa_config app)) 0 (pi_turns i))"
    using run_stream [OF assms(1-6) looped(1,3)] by metis
  have "length ps \<le> unat (pc_max_packets (pa_config app))" if "pc_max_packets (pa_config app) \<noteq> 0"
    using produced_turns_bounded [OF that, of 0 "pi_turns i"] arg_cong [OF ps(3), of length] by simp
  moreover have "prefix (map snd ps) (map ut_wall_clock (filter producible (pi_turns i)))"
    unfolding ps(3) by (intro map_mono_prefix produced_turns_prefix)
  ultimately show ?thesis using ps(1,2) looped(2) by (intro exI [of _ ps]) simp
qed

text \<open>
  C7: the stream a producer commits. With a payload size whose packet size does not wrap, a
  generator from the factory, a registered checksum and slots of the requested size, a run that
  returns has committed packets that are sealed with the sequence numbers 0, 1, 2, ..., each
  stamped with the wall clock at its own turn, each of exactly header plus payload bytes; their
  payloads, one after the other, are the generator's output; and a packet limit is never exceeded.
\<close>

theorem producer_commits_sealed_stream:
  assumes "crc_instructions_documented cpu" "ChecksumRegistry_find cpu k = Some (pb_checksum (pa_builder app))"
    and "make_payload_generator avx2 kind seed = Inr (pb_generator (pa_builder app))"
    and "unat (pc_payload_size (pa_config app)) < 2 ^ 64 - 32" "pa_calls app = []"
    and "slots_sized (unat (packet_size (pa_config app))) (pi_turns i)"
    and "ProducerApp_run i app = Some (Inr (code, app'))"
  shows "\<exists>ps. committed (pa_calls app') = sealed_packets (pb_checksum (pa_builder app)) 0 ps \<and>
    filled (pb_generator (pa_builder app)) (unat (pc_payload_size (pa_config app))) ps \<and>
    prefix (map snd ps) (map ut_wall_clock (filter producible (pi_turns i))) \<and>
    (pc_max_packets (pa_config app) \<noteq> 0 \<longrightarrow> length ps \<le> unat (pc_max_packets (pa_config app)))"
  by (rule run_commits [OF assms])

theorem producer_commits_sealed_stream_witness:
  "\<exists>app' ps. ProducerApp_run (demo_inputs [demo_turn False (Some (replicate 34 0)), demo_turn False None,
       demo_turn False (Some (replicate 34 1)), demo_turn True None]) (demo_producer 2 0) = Some (Inr (0, app')) \<and>
     committed (pa_calls app') = sealed_packets Crc32 0 ps \<and> filled (Sequential 0) 2 ps"
proof -
  let ?i = "demo_inputs [demo_turn False (Some (replicate 34 0)), demo_turn False None, demo_turn False (Some (replicate 34 1)), demo_turn True None]"
  let ?app = "demo_producer 2 0"
  have "case ProducerApp_run ?i ?app of Some (Inr (c, a)) \<Rightarrow> c = 0 | _ \<Rightarrow> False"
    by (simp add: demo_run_defs)
  then obtain app' where run: "ProducerApp_run ?i ?app = Some (Inr (0, app'))"
    by (auto split: option.splits sum.splits)
  have "ChecksumRegistry_find serial_cpu 1 = Some (pb_checksum (pa_builder ?app))"
    by (simp add: ChecksumRegistry_find_def ChecksumKind_Crc32_def demo_producer_def)
  from producer_commits_sealed_stream [OF serial_cpu_documented this, of False "''sequential''" 0 ?i 0 app'] run
  show ?thesis
    by (auto simp: demo_producer_def demo_inputs_def demo_turn_def make_payload_generator_def slots_sized_def packet_size_def kHeaderSize_def)
qed

text \<open>
  C23: the producer's final count. A run whose loop was entered ends with a summary of exactly the
  packets committed and of that many times the packet size in bytes; and when nobody requested a
  stop, a run with a packet limit has committed exactly that many packets.
\<close>

theorem producer_summary_is_exact:
  assumes "crc_instructions_documented cpu" "ChecksumRegistry_find cpu k = Some (pb_checksum (pa_builder app))"
    and "make_payload_generator avx2 kind seed = Inr (pb_generator (pa_builder app))"
    and "unat (pc_payload_size (pa_config app)) < 2 ^ 64 - 32" "pa_calls app = []"
    and "slots_sized (unat (packet_size (pa_config app))) (pi_turns i)"
    and "\<not> pc_wait_for_consumer (pa_config app) \<or> pi_peer i"
    and "ProducerApp_run i app = Some (Inr (code, app'))"
  defines "n \<equiv> length (committed (pa_calls app'))"
  shows "last (pa_reports app') = PSummary (of_nat n) (of_nat n * packet_size (pa_config app)) (pi_end_clock i - pi_started i) \<and>
    ((\<forall>t \<in> set (pi_turns i). \<not> ut_stop t) \<longrightarrow> n = unat (pc_max_packets (pa_config app)))"
  using assms(8)
proof (cases rule: run_result)
  case no_peer
  then show ?thesis using assms(7) by simp
next
  case (looped app0 y)
  let ?mx = "pc_max_packets (pa_config app)"
  obtain ps where ps: "committed (pa_calls (fst y)) = sealed_packets (pb_checksum (pa_builder app)) 0 ps"
      "map snd ps = map ut_wall_clock (produced_turns ?mx 0 (pi_turns i))"
      "pa_config (fst y) = pa_config app" "pl_sequence (snd y) = of_nat (length ps)"
      "pl_total_bytes (snd y) = of_nat (length ps) * packet_size (pa_config app)"
    using run_stream [OF assms(1-6) looped(1,3)] by metis
  then have y: "n = length ps" "pl_sequence (snd y) = of_nat n" "pl_total_bytes (snd y) = of_nat n * packet_size (pa_config app)"
    using looped(2) by (simp_all add: n_def)
  have "n = unat ?mx" if "\<forall>t \<in> set (pi_turns i). \<not> ut_stop t"
  proof -
    have mx: "?mx \<noteq> 0" "?mx \<le> of_nat n" using produce_loop_exhausts [OF looped(1) that] y ps(3) by simp_all
    have le: "n \<le> unat ?mx"
      using produced_turns_bounded [OF mx(1), of 0 "pi_turns i"] arg_cong [OF ps(2), of length] y(1) by simp
    then have "n < 2 ^ LENGTH(64)" using le_less_trans [OF le unsigned_less] by simp
    then show ?thesis using mx(2) le by (simp add: word_le_nat_alt unat_of_nat_small)
  qed
  then show ?thesis using looped(2) y by simp
qed

theorem producer_summary_is_exact_witness:
  "\<exists>app'. ProducerApp_run (demo_inputs [demo_turn False (Some (replicate 34 0)), demo_turn False None]) (demo_producer 2 1) = Some (Inr (0, app')) \<and>
     length (committed (pa_calls app')) = 1"
proof -
  let ?i = "demo_inputs [demo_turn False (Some (replicate 34 0)), demo_turn False None]" and ?app = "demo_producer 2 1"
  have "case ProducerApp_run ?i ?app of Some (Inr (c, a)) \<Rightarrow> c = 0 | _ \<Rightarrow> False" by (simp add: demo_run_defs)
  then obtain app' where run: "ProducerApp_run ?i ?app = Some (Inr (0, app'))"
    by (auto split: option.splits sum.splits)
  have "ChecksumRegistry_find serial_cpu 1 = Some (pb_checksum (pa_builder ?app))"
    by (simp add: ChecksumRegistry_find_def ChecksumKind_Crc32_def demo_producer_def)
  from producer_summary_is_exact [OF serial_cpu_documented this, of False "''sequential''" 0 ?i 0 app'] run
  show ?thesis
    by (auto simp: demo_producer_def demo_inputs_def demo_turn_def make_payload_generator_def slots_sized_def packet_size_def kHeaderSize_def)
qed

text \<open>
  C24: when the producer's loop ends. Without a rate limit the run returns exactly when at some
  turn a stop was requested or, with a packet limit, as many earlier turns as the limit found the
  producer running and a slot free; so a pause or a full queue only delays it.
\<close>

theorem producer_run_ends_iff:
  assumes "\<not> RateLimiter_enabled (pa_limiter app)" "packet_size (pa_config app) \<le> pi_max_packet_size i"
    and "\<not> pc_wait_for_consumer (pa_config app) \<or> pi_peer i"
  shows "ProducerApp_run i app \<noteq> None \<longleftrightarrow> (\<exists>j < length (pi_turns i). ut_stop (pi_turns i ! j) \<or>
    pc_max_packets (pa_config app) \<noteq> 0 \<and>
    unat (pc_max_packets (pa_config app)) \<le> length (filter producible (take j (pi_turns i))))"
  using produce_loop_returns_iff [of "(announce i app, locals_new (pa_config app) i)" "pi_turns i"] assms
  by (auto simp: ProducerApp_run_def Let_def locals_new_def split: option.split)

theorem producer_run_ends_iff_witness:
  "ProducerApp_run (demo_inputs [demo_turn False (Some []), demo_turn False None]) (demo_producer 2 1) \<noteq> None \<and>
   ProducerApp_run (demo_inputs [demo_turn False None]) (demo_producer 2 1) = None"
proof -
  note iff = producer_run_ends_iff [of "demo_producer 2 1" "demo_inputs ts" for ts]
  have demo: "\<not> RateLimiter_enabled (pa_limiter (demo_producer 2 1))" "pi_turns (demo_inputs ts) = ts" "\<not> ut_stop (demo_turn False slot)"
      "packet_size (pa_config (demo_producer 2 1)) \<le> pi_max_packet_size (demo_inputs ts)" "pi_peer (demo_inputs ts)"
      "unat (pc_max_packets (pa_config (demo_producer 2 1))) = 1" for ts slot
    by (simp_all add: demo_run_defs)
  have "producible (demo_turn False (Some []))" by (simp add: producible_def demo_turn_def)
  then have "ProducerApp_run (demo_inputs [demo_turn False (Some []), demo_turn False None]) (demo_producer 2 1) \<noteq> None"
    by (subst iff) (use demo in \<open>auto intro!: exI [of _ 1]\<close>)
  moreover have "\<not> ProducerApp_run (demo_inputs [demo_turn False None]) (demo_producer 2 1) \<noteq> None"
    by (subst iff) (use demo in \<open>auto\<close>)
  ultimately show ?thesis by simp
qed

text \<open>
  C39: the size check before the first packet. A run is refused exactly when the 64-bit sum of
  header and payload size exceeds the transport's maximum, and it reserves slots of that size
  only. For payload sizes below 2^64 - 32 the sum is the true packet size; for the last 32 sizes
  it wraps to less than a header, so that such a run is accepted by any transport that accepts a
  header and asks for slots too small to hold the header the builder writes.
\<close>

theorem producer_size_check:
  assumes "pa_calls app = []"
  shows "((\<exists>e. ProducerApp_run i app = Some (Inl e)) \<longleftrightarrow> pi_max_packet_size i < packet_size (pa_config app)) \<and>
    unat (packet_size (pa_config app)) = (if unat (pc_payload_size (pa_config app)) < 2 ^ 64 - 32
      then 32 + unat (pc_payload_size (pa_config app)) else unat (pc_payload_size (pa_config app)) - (2 ^ 64 - 32)) \<and>
    (\<forall>code app'. ProducerApp_run i app = Some (Inr (code, app')) \<longrightarrow>
       set (reserve_sizes (pa_calls app')) \<subseteq> {packet_size (pa_config app)})"
proof (intro conjI allI impI)
  show "(\<exists>e. ProducerApp_run i app = Some (Inl e)) \<longleftrightarrow> pi_max_packet_size i < packet_size (pa_config app)"
    by (auto simp: ProducerApp_run_def Let_def split: option.splits)
  show "unat (packet_size (pa_config app)) = (if unat (pc_payload_size (pa_config app)) < 2 ^ 64 - 32
      then 32 + unat (pc_payload_size (pa_config app)) else unat (pc_payload_size (pa_config app)) - (2 ^ 64 - 32))"
    using unat_packet_size unat_packet_size_wrapped by simp
next
  fix code app' assume "ProducerApp_run i app = Some (Inr (code, app'))"
  then show "set (reserve_sizes (pa_calls app')) \<subseteq> {packet_size (pa_config app)}"
    using assms by (auto simp: ProducerApp_run_def Let_def dest!: produce_loop_reserves split: if_splits option.splits)
qed

theorem producer_size_check_witness:
  "\<exists>app'. ProducerApp_run (demo_inputs [demo_turn True None]) (demo_producer 0xFFFFFFFFFFFFFFE1 0) = Some (Inr (0, app')) \<and>
     unat (packet_size (pa_config (demo_producer 0xFFFFFFFFFFFFFFE1 0))) = 1"
proof -
  let ?app = "demo_producer 0xFFFFFFFFFFFFFFE1 0" and ?i = "demo_inputs [demo_turn True None]"
  have "case ProducerApp_run ?i ?app of Some (Inr (c, a)) \<Rightarrow> c = 0 | Some (Inl e) \<Rightarrow> True | _ \<Rightarrow> False" by (simp add: demo_run_defs)
  moreover have size: "unat (packet_size (pa_config ?app)) = 1"
    using producer_size_check [of ?app ?i] by (simp add: demo_producer_def)
  moreover have "\<not> (\<exists>e. ProducerApp_run ?i ?app = Some (Inl e))"
    using producer_size_check [of ?app ?i] size by (simp add: demo_producer_def demo_inputs_def word_less_nat_alt)
  ultimately show ?thesis by (auto split: option.splits sum.splits)
qed

end
