(* ===== verification/Ring_Progress.thy ===== *)
theory Ring_Progress
  imports Shm_Transport
begin

text \<open>
  Progress of the ring: with room for a record the producer's own steps publish it, and with a
  published record the consumer's own steps receive and release it, so any sequence of records
  that fit can be sent through a ring one after the other. The transport's safety lemmas say
  what a run can contain; these say that such runs exist.
\<close>

section \<open>Publishing a record\<close>

text \<open>
  Steps of the ring between the calls of the sink: those of the consumer, and the producer's writes
  into the slot it has reserved.
\<close>

definition off_sink :: "ring_sys \<Rightarrow> ring_sys \<Rightarrow> bool" where
  "off_sink s t \<longleftrightarrow> ring_step s t \<and> rs_sent t = rs_sent s \<and> rs_slot t = rs_slot s"

lemma off_sink_steps:
  assumes "off_sink\<^sup>*\<^sup>* s t"
  shows "ring_step\<^sup>*\<^sup>* s t \<and> rs_sent t = rs_sent s \<and> rs_slot t = rs_slot s"
  using assms
proof (induction rule: rtranclp_induct)
  case (step t u)
  then have "ring_step\<^sup>*\<^sup>* s t" "ring_step t u" by (simp_all add: off_sink_def)
  with step show ?case by (auto simp: off_sink_def intro: rtranclp.rtrancl_into_rtrancl)
qed simp

lemma fill_slot:
  assumes "ring_inv s" "rs_slot s = Some sp" "length bs \<le> sp_len sp"
  shows "\<exists>d. off_sink\<^sup>*\<^sup>* s (s\<lparr>rs_data := d\<rparr>) \<and> ring_inv (s\<lparr>rs_data := d\<rparr>) \<and> take (length bs) (span_bytes d sp) = bs"
  using assms(3)
proof (induction bs rule: rev_induct)
  case Nil
  show ?case using assms(1) by (intro exI [of _ "rs_data s"]) simp
next
  case (snoc b bs)
  then obtain d where d: "off_sink\<^sup>*\<^sup>* s (s\<lparr>rs_data := d\<rparr>)" "ring_inv (s\<lparr>rs_data := d\<rparr>)" "take (length bs) (span_bytes d sp) = bs"
    by auto
  let ?t = "s\<lparr>rs_data := d\<rparr>" and ?i = "length bs"
  have slot: "rs_slot ?t = Some sp" "?i < sp_len sp" using assms(2) snoc.prems by simp_all
  note w = write_slot_bytes [OF d(2) slot, of b] and inv = write_step [OF d(2) slot, of b]
  define d' where "d' = rs_data (sys_write sp ?i b ?t)"
  have t': "sys_write sp ?i b ?t = s\<lparr>rs_data := d'\<rparr>" using w(1) by (simp add: d'_def)
  have step: "off_sink ?t (s\<lparr>rs_data := d'\<rparr>)" using step_write [OF slot, of b] unfolding t' by (simp add: off_sink_def)
  have bytes: "span_bytes d' sp = (span_bytes d sp)[?i := b]" using w(2) unfolding d'_def by simp
  have "take (Suc ?i) ((span_bytes d sp)[?i := b]) = bs @ [b]"
    using d(3) slot(2) by (subst take_Suc_conv_app_nth) (simp_all add: span_bytes_def)
  then have "take (length (bs @ [b])) (span_bytes d' sp) = bs @ [b]" by (simp add: bytes)
  moreover have "ring_inv (s\<lparr>rs_data := d'\<rparr>)" using inv unfolding t' by blast
  moreover have "off_sink\<^sup>*\<^sup>* s (s\<lparr>rs_data := d'\<rparr>)" by (rule rtranclp.rtrancl_into_rtrancl [OF d(1) step])
  ultimately show ?case by blast
qed

lemma commit_publishes:
  "rs_slot s = Some sp \<Longrightarrow> rs_sent (sys_commit s) = rs_sent s @ [span_bytes (rs_data s) sp] \<and>
     rs_received (sys_commit s) = rs_received s \<and> rs_view (sys_commit s) = rs_view s \<and>
     rc_capacity (rs_control (sys_commit s)) = rc_capacity (rs_control s)"
  by (simp add: sys_commit_def RingProducer_commit_def split_beta Let_def)

text \<open>A ring that is drained has room for a record that fits its capacity.\<close>

lemma reserve_drained:
  assumes "ring_inv s" "length p + 4 \<le> unat (rc_capacity (rs_control s))" "length p < 2 ^ 32" "unread s = []"
  obtains sp where "snd (reserve_attempt latest_tail (of_nat (length p)) s) = Some sp" "sp_len sp = length p"
proof -
  let ?n = "of_nat (length p) :: u64"
  from assms(1) obtain k where lay: "inv_layout k s" "inv_counters k s" by (auto simp: ring_inv_def)
  have n: "unat ?n = length p" using assms(3) by (simp add: unat_of_nat_small)
  have tail: "rc_tail (rs_control s) = rs_tails s ! length (rs_received s)"
    using lay(2) by (simp add: inv_counters_def counters_of_nth)
  have "?n \<le> RingProducer_max_record_size (rs_prod s)"
  proof -
    have "rp_capacity (rs_prod s) = rc_capacity (rs_control s)" using lay(1) by (simp add: inv_layout_def)
    then have "length p \<le> unat (rp_capacity (rs_prod s) - kRecordPrefixSize)"
      using assms(2) by (simp add: kRecordPrefixSize_def unat_sub_small)
    then show ?thesis
      using assms(3) n by (simp add: RingProducer_max_record_size_def word_le_nat_alt Let_def unsigned_minus_1_eq_mask mask_eq_exp_minus_1)
  qed
  then have "snd (snd (RingProducer_try_reserve (rs_prod s) (rc_tail (rs_control s)) (rs_data s) ?n)) \<noteq> None"
    unfolding reserve_iff_room [OF assms(1)] using assms(2,4) n by simp
  then obtain sp where sp: "snd (snd (RingProducer_try_reserve (rs_prod s) (rc_tail (rs_control s)) (rs_data s) ?n)) = Some sp" by blast
  then have "sp_len sp = length p" using reserve_slot n by fastforce
  then show thesis using that [of sp] sp by (simp add: reserve_attempt_def latest_tail_def tail)
qed

text \<open>The producer's part of sending a record: reserve, fill the slot, commit.\<close>

lemma publish_record:
  assumes "ring_inv s" "length p + 4 \<le> unat (rc_capacity (rs_control s))" "length p < 2 ^ 32" "unread s = []"
  obtains sp s1 s2 where "reserve_attempt latest_tail (of_nat (length p)) s = (s1, Some sp)" "ring_step s s1"
    "off_sink\<^sup>*\<^sup>* s1 s2" "rs_slot s2 = Some sp" "span_bytes (rs_data s2) sp = p" "ring_inv (sys_commit s2)"
    "rs_sent (sys_commit s2) = rs_sent s @ [p]" "rs_received (sys_commit s2) = rs_received s" "rs_view (sys_commit s2) = rs_view s"
    "rc_capacity (rs_control (sys_commit s2)) = rc_capacity (rs_control s)"
proof -
  obtain sp where sp: "snd (reserve_attempt latest_tail (of_nat (length p)) s) = Some sp" "sp_len sp = length p"
    using reserve_drained [OF assms] .
  define s1 where "s1 = sys_reserve (of_nat (length p)) (latest_tail s) s"
  have seen: "rs_seen_tail s \<le> latest_tail s" "latest_tail s \<le> length (rs_received s)"
    using latest_tail_ok assms(1) by (simp_all add: tail_load_ok_def)
  have step1: "ring_step s s1" "ring_inv s1"
    using step_reserve [OF seen, of "of_nat (length p)"] reserve_step [OF assms(1) seen, of "of_nat (length p)"] unfolding s1_def by blast+
  have s1: "rs_slot s1 = Some sp" "rs_sent s1 = rs_sent s" "rs_received s1 = rs_received s" "rs_control s1 = rs_control s" "rs_view s1 = rs_view s"
    using sp(1) by (simp_all add: s1_def sys_reserve_def reserve_attempt_def split_beta Let_def)
  obtain d where d: "off_sink\<^sup>*\<^sup>* s1 (s1\<lparr>rs_data := d\<rparr>)" "ring_inv (s1\<lparr>rs_data := d\<rparr>)" "take (length p) (span_bytes d sp) = p"
    using fill_slot [OF step1(2) s1(1), of p] sp(2) by auto
  have bytes: "span_bytes d sp = p" using d(3) sp(2) by (simp add: span_bytes_def)
  let ?s2 = "s1\<lparr>rs_data := d\<rparr>"
  have "reserve_attempt latest_tail (of_nat (length p)) s = (s1, Some sp)" using sp(1) by (simp add: reserve_attempt_def s1_def)
  moreover have "ring_inv (sys_commit ?s2)" using commit_step [OF d(2)] by blast
  ultimately show thesis
    using that [of s1 sp ?s2] commit_publishes [of ?s2 sp] step1(1) d(1) s1 bytes by simp
qed

section \<open>Receiving a record\<close>

lemma receive_record:
  assumes "ring_inv s" "length (rs_received s) < length (rs_sent s)"
  obtains t where "ring_step\<^sup>*\<^sup>* s t" "ring_inv t" "rs_sent t = rs_sent s"
    "rs_received t = rs_received s @ [rs_sent s ! length (rs_received s)]" "rs_view t = None"
    "rc_capacity (rs_control t) = rc_capacity (rs_control s)"
proof -
  from assms(1) have seen: "rs_seen_head s \<le> length (rs_sent s)" by (auto simp: ring_inv_def inv_counters_def)
  define s1 where "s1 = sys_peek (length (rs_sent s)) s"
  have s1: "ring_step s s1" "ring_inv s1" "rs_sent s1 = rs_sent s" "rs_received s1 = rs_received s" "rs_control s1 = rs_control s"
    using step_peek [OF seen order_refl] peek_step(1) [OF assms(1) seen order_refl]
    by (simp_all add: s1_def sys_peek_def split_beta Let_def)
  obtain sp where sp: "rs_view s1 = Some sp"
    using peek_step(2) [OF assms(1) seen order_refl assms(2)] by (auto simp: s1_def)
  have bytes: "span_bytes (rs_data s1) sp = rs_sent s ! length (rs_received s)" using view_bytes [OF s1(2) sp] s1 by simp
  let ?t = "sys_release s1"
  have "ring_step\<^sup>*\<^sup>* s ?t" using s1(1) step_release by (meson converse_rtranclp_into_rtranclp r_into_rtranclp)
  moreover have "ring_inv ?t" using ring_step_simulates [OF step_release s1(2)] by blast
  moreover have "rs_sent ?t = rs_sent s" "rs_received ?t = rs_received s @ [rs_sent s ! length (rs_received s)]"
      "rs_view ?t = None" "rc_capacity (rs_control ?t) = rc_capacity (rs_control s)"
    using s1 sp bytes by (simp_all add: sys_release_def RingConsumer_release_def split_beta Let_def)
  ultimately show thesis by (rule that)
qed

section \<open>Sending a stream\<close>

lemma send_stream:
  assumes "ring_inv s" "rs_received s = rs_sent s" "rs_view s = None"
    and "\<forall>p \<in> set ps. length p + 4 \<le> unat (rc_capacity (rs_control s)) \<and> length p < 2 ^ 32"
  shows "\<exists>t. ring_step\<^sup>*\<^sup>* s t \<and> ring_inv t \<and> rs_sent t = rs_sent s @ ps \<and> rs_received t = rs_sent t \<and> rs_view t = None"
  using assms
proof (induction ps arbitrary: s)
  case (Cons p ps)
  have idle: "unread s = []" using Cons.prems(2) by (simp add: unread_def)
  have fits: "length p + 4 \<le> unat (rc_capacity (rs_control s))" "length p < 2 ^ 32" using Cons.prems(4) by simp_all
  obtain t where t: "ring_step\<^sup>*\<^sup>* s t" "ring_inv t" "rs_sent t = rs_sent s @ [p]" "rs_received t = rs_received s"
      "rc_capacity (rs_control t) = rc_capacity (rs_control s)"
  proof (rule publish_record [OF Cons.prems(1) fits idle])
    fix sp s1 s2
    assume steps: "ring_step s s1" "off_sink\<^sup>*\<^sup>* s1 s2" "ring_inv (sys_commit s2)" "rs_sent (sys_commit s2) = rs_sent s @ [p]"
      "rs_received (sys_commit s2) = rs_received s" "rc_capacity (rs_control (sys_commit s2)) = rc_capacity (rs_control s)"
    have "ring_step\<^sup>*\<^sup>* s (sys_commit s2)"
      using steps(1) off_sink_steps [OF steps(2)] step_commit
      by (meson converse_rtranclp_into_rtranclp rtranclp.rtrancl_into_rtrancl)
    then show thesis using that steps(3-6) by blast
  qed
  obtain u where u: "ring_step\<^sup>*\<^sup>* t u" "ring_inv u" "rs_sent u = rs_sent t" "rs_received u = rs_received t @ [rs_sent t ! length (rs_received t)]"
      "rs_view u = None" "rc_capacity (rs_control u) = rc_capacity (rs_control t)"
    using receive_record [OF t(2)] t Cons.prems(2) by auto
  have "rs_received u = rs_sent u" using u t Cons.prems(2) by simp
  then obtain v where "ring_step\<^sup>*\<^sup>* u v" "ring_inv v" "rs_sent v = rs_sent u @ ps" "rs_received v = rs_sent v" "rs_view v = None"
    using Cons.IH [OF u(2)] Cons.prems(4) u(5,6) t(5) by auto
  then show ?case using t u by (intro exI [of _ v]) (auto intro: rtranclp_trans)
qed auto

end
