(* ===== verification/Producer_On_Ring.thy ===== *)
theory Producer_On_Ring
  imports Session_On_Ring Producer_App Ring_Progress
begin

text \<open>
  A producer run on a ring. The calls that \<^verbatim>\<open>Producer_App\<close> makes on its sink are answered by
  \<^verbatim>\<open>ShmPacketSink\<close> while a consumer reads at the same time. The locale \<^verbatim>\<open>packet_sink\<close> states what the producer
  relies on: a commit publishes the packet, and no other call publishes anything. With it the
  records of the ring are the packets the application committed.
\<close>

section \<open>What a producer relies on\<close>

locale packet_sink =
  fixes serve :: "sink_call \<Rightarrow> 's \<Rightarrow> 's \<Rightarrow> bool"
    and good :: "'s \<Rightarrow> bool"
    and published :: "'s \<Rightarrow> bytes list"
  assumes serve_good: "good s \<Longrightarrow> serve c s t \<Longrightarrow> good t"
    and serve_published: "good s \<Longrightarrow> serve c s t \<Longrightarrow> published t = published s @ committed [c]"
begin

lemma serve_all_published:
  "serve_all serve cs s t \<Longrightarrow> good s \<Longrightarrow> good t \<and> published t = published s @ committed cs"
proof (induction cs arbitrary: s)
  case (Cons c cs)
  then obtain u where u: "serve c s u" "serve_all serve cs u t" by auto
  have "committed (c # cs) = committed [c] @ committed cs" using committed_append [of "[c]" cs] by simp
  with Cons.IH [OF u(2) serve_good [OF Cons.prems(2) u(1)]] serve_published [OF Cons.prems(2) u(1)] show ?case by simp
qed simp

end

section \<open>The sink of a ring\<close>

text \<open>
  Between the calls the consumer takes its steps and the producer writes into the slot it holds; a
  commit publishes the bytes the slot has then.
\<close>

inductive sink_serve :: "sink_call \<Rightarrow> ring_sys \<Rightarrow> ring_sys \<Rightarrow> bool" where
  serve_reserve: "off_sink\<^sup>*\<^sup>* s u \<Longrightarrow> tail_load_ok load \<Longrightarrow>
    \<forall>w \<in> set turns. \<forall>x. ring_inv x \<longrightarrow> off_sink\<^sup>*\<^sup>* x (wt_world w x) \<Longrightarrow>
    ShmPacketSink_reserve load bytes timeout now turns u = Some (t, slot) \<Longrightarrow> sink_serve (SinkReserve bytes timeout) s t"
| serve_commit: "off_sink\<^sup>*\<^sup>* s u \<Longrightarrow> rs_slot u = Some sp \<Longrightarrow> span_bytes (rs_data u) sp = p \<Longrightarrow>
    sink_serve (SinkCommit p) s (ShmPacketSink_commit u)"
| serve_wait: "off_sink\<^sup>*\<^sup>* s u \<Longrightarrow> sink_serve SinkWaitForPeer s u"
| serve_status: "off_sink\<^sup>*\<^sup>* s u \<Longrightarrow> sink_serve SinkQueueStatus s u"

lemma ring_steps_inv: "ring_step\<^sup>*\<^sup>* s t \<Longrightarrow> ring_inv s \<Longrightarrow> ring_inv t"
  by (induction rule: rtranclp_induct) (auto dest: ring_step_simulates)

lemma reserve_effect:
  assumes "ring_inv s" "tail_load_ok load" "\<forall>w \<in> set turns. \<forall>x. ring_inv x \<longrightarrow> off_sink\<^sup>*\<^sup>* x (wt_world w x)"
    and "ShmPacketSink_reserve load bytes timeout now turns s = Some (t, slot)"
  shows "ring_step\<^sup>*\<^sup>* s t \<and> rs_sent t = rs_sent s"
proof -
  have quiet: "quiet_send\<^sup>*\<^sup>* x y" if "off_sink\<^sup>*\<^sup>* x y" for x y
    using that mono_rtranclp [of off_sink quiet_send] by (auto simp: off_sink_def quiet_send_def)
  have "quiet_send\<^sup>*\<^sup>* s t"
    using waiting.wait_until_steps [OF reserve_waiting [OF assms(2)] assms(4) [unfolded ShmPacketSink_reserve_def] assms(1)] assms(3) quiet
    by blast
  then show ?thesis by (rule quiet_send_steps)
qed

lemma sink_serve_steps:
  assumes "ring_inv s" "sink_serve c s t"
  shows "ring_step\<^sup>*\<^sup>* s t \<and> rs_sent t = rs_sent s @ committed [c]"
  using assms(2)
proof cases
  case (serve_reserve u load turns bytes timeout now slot)
  note u = off_sink_steps [OF serve_reserve(2)]
  have "ring_inv u" using u assms(1) ring_steps_inv by blast
  from reserve_effect [OF this serve_reserve(3-5)] u serve_reserve(1) show ?thesis by (auto intro: rtranclp_trans)
next
  case (serve_commit u sp p)
  then show ?thesis
    using off_sink_steps [OF serve_commit(3)] commit_publishes [OF serve_commit(4)]
    by (auto simp: ShmPacketSink_commit_def intro: rtranclp.rtrancl_into_rtrancl step_commit)
qed (use off_sink_steps in auto)

interpretation ring_sink: packet_sink sink_serve ring_inv rs_sent
  by unfold_locales (use sink_serve_steps ring_steps_inv in blast)+

lemma sink_serve_all_steps: "serve_all sink_serve cs s t \<Longrightarrow> ring_inv s \<Longrightarrow> ring_step\<^sup>*\<^sup>* s t"
proof (induction cs arbitrary: s)
  case (Cons c cs)
  then obtain u where u: "sink_serve c s u" "serve_all sink_serve cs u t" by auto
  from Cons.IH [OF u(2)] sink_serve_steps [OF Cons.prems(2) u(1)] ring_sink.serve_good [OF Cons.prems(2) u(1)]
  show ?case by (auto intro: rtranclp_trans)
qed simp

section \<open>One run seen from both ends\<close>

text \<open>
  The run starts with the ring \<open>s0\<close>. A consumer session lasts from \<open>s\<close> to \<open>t\<close>; the producer's calls lead to
  \<open>u\<close>, after which it is off the sink. Some state of the run comes after both; and if the producer has
  made its last step when the session ends, the ring has all its records by then.
\<close>

definition same_run :: "ring_sys \<Rightarrow> stream \<Rightarrow> stream \<Rightarrow> ring_sys \<Rightarrow> bool" where
  "same_run s0 s t u \<longleftrightarrow> ring_init s0 \<and> ring_step\<^sup>*\<^sup>* s0 (st_ring s) \<and> \<not> st_seen s \<and>
     (\<exists>v. ring_step\<^sup>*\<^sup>* (st_ring t) v \<and> off_sink\<^sup>*\<^sup>* u v) \<and> (st_ended t \<longrightarrow> rs_sent (st_ring t) = rs_sent u)"

lemma same_run_ok: "same_run s0 s t u \<Longrightarrow> stream_ok s"
  using reachable_ring_inv by (auto simp: same_run_def stream_ok_def)

lemma same_run_sent:
  assumes "same_run s0 s t u" "serve_all sink_serve calls s0 u" "stream_ok t"
  shows "prefix (rs_sent (st_ring t)) (committed calls) \<and> (st_seen t \<longrightarrow> rs_sent (st_ring t) = committed calls)"
proof -
  have run: "ring_init s0" "st_ended t \<longrightarrow> rs_sent (st_ring t) = rs_sent u" using assms(1) by (simp_all add: same_run_def)
  obtain v where v: "ring_step\<^sup>*\<^sup>* (st_ring t) v" "off_sink\<^sup>*\<^sup>* u v" using assms(1) by (auto simp: same_run_def)
  have "rs_sent s0 = []" using run(1) by (auto simp: ring_init_def ring_start_def Let_def)
  then have u: "rs_sent u = committed calls" using ring_sink.serve_all_published [OF assms(2) ring_init_inv [OF run(1)]] by simp
  have "prefix (rs_sent (st_ring t)) (rs_sent v)" using ring.histories_grow [OF v(1)] assms(3) by (simp add: stream_ok_def ring_abs_def)
  then show ?thesis using off_sink_steps [OF v(2)] u run(2) assms(3) by (simp add: stream_ok_def)
qed

section \<open>The sink answers\<close>

text \<open>On a drained ring a packet that fits is reserved, filled and committed.\<close>

lemma serve_packet:
  assumes "ring_inv s" "length p + 4 \<le> unat (rc_capacity (rs_control s))" "length p < 2 ^ 32" "unread s = []"
  obtains t where "serve_all sink_serve [SinkReserve (of_nat (length p)) timeout, SinkCommit p] s t"
    "rs_received t = rs_received s" "rs_view t = rs_view s"
proof (rule publish_record [OF assms])
  fix sp s1 s2
  assume pub: "reserve_attempt latest_tail (of_nat (length p)) s = (s1, Some sp)" "off_sink\<^sup>*\<^sup>* s1 s2" "rs_slot s2 = Some sp"
    "span_bytes (rs_data s2) sp = p" "rs_received (sys_commit s2) = rs_received s" "rs_view (sys_commit s2) = rs_view s"
  have "ShmPacketSink_reserve latest_tail (of_nat (length p)) timeout 0 [] s = Some (s1, Some sp)"
    using pub(1) by (simp add: ShmPacketSink_reserve_def wait_until_def)
  then have "sink_serve (SinkReserve (of_nat (length p)) timeout) s s1"
    by (intro serve_reserve [OF _ latest_tail_ok]) auto
  moreover have "sink_serve (SinkCommit p) s1 (sys_commit s2)"
    using serve_commit [OF pub(2-4)] by (simp add: ShmPacketSink_commit_def)
  ultimately show thesis using that [of "sys_commit s2"] pub(5,6) by auto
qed

text \<open>After the producer's last step, the answers of the source are steps off the sink.\<close>

lemma peek_off_sink:
  assumes "head_load_ok load"
  shows "waiting (peek_attempt load) off_sink ring_inv holds_next"
proof
  fix s t sp
  assume inv: "ring_inv s"
  then have j: "rs_seen_head s \<le> load s" "load s \<le> length (rs_sent s)" using assms by (simp_all add: head_load_ok_def)
  then have "off_sink s (sys_peek (load s) s)" by (simp add: off_sink_def step_peek) (simp add: sys_peek_def split_beta)
  then show "off_sink\<^sup>*\<^sup>* s (fst (peek_attempt load s))" by (simp add: peek_attempt_def)
  have "ring_inv (sys_peek (load s) s)" using peek_step(1) [OF inv j] by blast
  then show "snd (peek_attempt load s) = Some sp \<Longrightarrow> holds_next (fst (peek_attempt load s)) sp"
    by (simp add: peek_attempt_def view_holds_next)
  show "off_sink s t \<Longrightarrow> ring_inv t" using ring_step_simulates inv by (auto simp: off_sink_def)
qed

lemma release_off_sink: "off_sink s (sys_release s)"
  by (simp add: off_sink_def step_release) (simp add: sys_release_def split_beta)

lemma ended_serve_off_sink:
  assumes "ring_serve c s t" "stream_ok s" "st_ended s"
  shows "off_sink\<^sup>*\<^sup>* (st_ring s) (st_ring t) \<and> st_ended t"
  using assms(1)
proof cases
  case (serve_receive u load turns timeout now r view)
  have u: "st_ended u" "st_ring u = st_ring s" "ring_inv (st_ring s)"
    using moves_ok(4) [OF serve_receive(3) assms(2,3)] assms(2) by (simp_all add: stream_ok_def)
  have inv: "ring_inv (sys_release (st_ring s))" using ring_release_effect(1) u(3) .
  have "off_sink\<^sup>*\<^sup>* (sys_release (st_ring s)) r"
    using waiting.wait_until_steps [OF peek_off_sink [OF serve_receive(4)] serve_receive(7) [unfolded ShmPacketSource_receive_def u(2)] inv]
      serve_receive(6) u(1) by (auto simp: world_ok_def)
  then show ?thesis using release_off_sink serve_receive(2) u(1) by (auto intro: converse_rtranclp_into_rtranclp)
next
  case (serve_peer u state kill source p)
  then show ?thesis using moves_ok(4) [OF serve_peer(3) assms(2,3)] by simp
next
  case (serve_release u)
  then show ?thesis using moves_ok(4) [OF serve_release(3) assms(2,3)] release_off_sink by (auto simp: ShmPacketSource_release_def)
qed

lemma ended_serve_all_off_sink:
  "serve_all ring_serve cs s t \<Longrightarrow> stream_ok s \<Longrightarrow> st_ended s \<Longrightarrow> off_sink\<^sup>*\<^sup>* (st_ring s) (st_ring t)"
proof (induction cs arbitrary: s)
  case (Cons c cs)
  then obtain u where u: "ring_serve c s u" "serve_all ring_serve cs u t" by auto
  from Cons.IH [OF u(2) ring_source.serve_good [OF Cons.prems(2) u(1)]] ended_serve_off_sink [OF u(1) Cons.prems(2,3)]
  show ?case by (auto intro: rtranclp_trans)
qed simp

text \<open>A run in which one packet is committed and a session takes it and sees the end of the stream.\<close>

lemma one_packet_run:
  assumes "ring_init s0" "length p + 4 \<le> unat (rc_capacity (rs_control s0))" "length p < 2 ^ 32"
  obtains s t u b where "same_run s0 s t u" "serve_all sink_serve [SinkReserve (of_nat (length p)) timeout, SinkCommit p] s0 u"
    "serve_all ring_serve (session_served pol wait (map (packet_turn False) [p] @ [end_turn b])) s t" "stream_taken s = []"
proof -
  have s0: "rs_received s0 = []" "rs_sent s0 = []" "rs_view s0 = None"
    using assms(1) by (auto simp: ring_init_def ring_start_def Let_def)
  note inv = ring_init_inv [OF assms(1)]
  obtain u where u: "serve_all sink_serve [SinkReserve (of_nat (length p)) timeout, SinkCommit p] s0 u" "rs_received u = []" "rs_view u = None"
    using serve_packet [OF inv assms(2,3), of timeout] s0 by (auto simp: unread_def)
  have u': "ring_inv u" "rs_sent u = [p]" using ring_sink.serve_all_published [OF u(1) inv] s0 by simp_all
  define s where "s = \<lparr>st_ring = u, st_ended = True, st_seen = False\<rparr>"
  have s: "stream_ok s" "st_ended s" "rs_sent (st_ring s) = stream_taken s @ [p]" "stream_taken s = []"
    using u(2,3) u' by (simp_all add: s_def stream_ok_def held_record_def)
  obtain t b where t: "serve_all ring_serve (session_served pol wait (map (packet_turn False) [p] @ [end_turn b])) s t"
      "rs_sent (st_ring t) = rs_sent (st_ring s)" using drain_session [OF s(1-3)] .
  have "same_run s0 s t u"
    using assms(1) sink_serve_all_steps [OF u(1) inv] ended_serve_all_off_sink [OF t(1) s(1,2)] t(2)
    by (auto simp: same_run_def s_def)
  then show thesis using that u(1) t(1) s(4) by blast
qed

end
