(* ===== verification/Byte_Size.thy ===== *)
theory Byte_Size
  imports Pc_Prelude
begin

text \<open>
  Numbers and sizes on the command line and in reports: \<^verbatim>\<open>common/src/byte_size.cpp\<close> and
  \<^verbatim>\<open>common/include/pc/byte_size.hpp\<close>. The parsers are shown to accept exactly a grammar and to
  compute the exact value or refuse it, and to read back what the program prints; the thousands
  separators of \<^verbatim>\<open>format_count\<close> are shown to equal a recursive grouping. \<^verbatim>\<open>format_bytes\<close> and
  \<^verbatim>\<open>format_duration_ns\<close>, which format floating-point numbers, are in \<^verbatim>\<open>Format_Numbers\<close>.
\<close>

section \<open>Characters and \<open>from_chars\<close>\<close>

text \<open>\<^verbatim>\<open>isdigit\<close> and \<^verbatim>\<open>tolower\<close> of the C locale.\<close>

definition isdigit :: "char \<Rightarrow> bool" where
  "isdigit c \<longleftrightarrow> 48 \<le> (of_char c :: nat) \<and> (of_char c :: nat) \<le> 57"

definition tolower :: "char \<Rightarrow> char" where
  "tolower c = (if 65 \<le> (of_char c :: nat) \<and> (of_char c :: nat) \<le> 90 then char_of ((of_char c :: nat) + 32) else c)"

definition digit_value :: "char \<Rightarrow> nat" where
  "digit_value c = of_char c - 48"

definition decimal :: "string \<Rightarrow> nat" where
  "decimal ds = foldl (\<lambda>v c. 10 * v + digit_value c) 0 ds"

text \<open>
  \<^verbatim>\<open>std::from_chars\<close> for an unsigned 64-bit integer in base ten: the longest run of digits is the
  number; no digit is an error, and so is a number that does not fit. The result is the value
  and the rest of the text.
\<close>

datatype errc = ErrcOk | ErrcInvalidArgument | ErrcOutOfRange

definition from_chars :: "string \<Rightarrow> errc \<times> u64 \<times> string" where
  "from_chars s =
     (let ds = takeWhile isdigit s; rest = dropWhile isdigit s
      in if ds = [] then (ErrcInvalidArgument, 0, s)
         else if 2 ^ 64 \<le> decimal ds then (ErrcOutOfRange, 0, rest)
         else (ErrcOk, of_nat (decimal ds), rest))"

section \<open>Parsers\<close>

definition parse_uint :: "string \<Rightarrow> u64 option" where
  "parse_uint s =
     (if s = [] then None
      else let (ec, val, rest) = from_chars s
           in if ec \<noteq> ErrcOk \<or> rest \<noteq> [] then None else Some val)"

text \<open>The switch on the unit letter.\<close>

definition unit_multiplier :: "char \<Rightarrow> u64 option" where
  "unit_multiplier c =
     (if tolower c = CHR ''k'' then Some (push_bit 10 1)
      else if tolower c = CHR ''m'' then Some (push_bit 20 1)
      else if tolower c = CHR ''g'' then Some (push_bit 30 1)
      else if tolower c = CHR ''t'' then Some (push_bit 40 1)
      else if tolower c = CHR ''b'' then Some 1
      else None)"

definition suffix_multiplier :: "string \<Rightarrow> u64 option" where
  "suffix_multiplier s =
     (case s of
        [] \<Rightarrow> Some 1
      | c # s \<Rightarrow>
          (case unit_multiplier c of
             None \<Rightarrow> None
           | Some multiplier \<Rightarrow>
               if multiplier \<noteq> 1 \<and> s \<noteq> [] then
                 (if 2 < length s then None
                  else if list_ex (\<lambda>c. tolower c \<noteq> CHR ''i'' \<and> tolower c \<noteq> CHR ''b'') s then None
                  else Some multiplier)
               else if s \<noteq> [] then None else Some multiplier))"

definition parse_byte_size :: "string \<Rightarrow> u64 option" where
  "parse_byte_size s =
     (let digits = length (takeWhile isdigit s)
      in if digits = 0 then None
         else case parse_uint (take digits s) of
                None \<Rightarrow> None
              | Some val \<Rightarrow>
                  (case suffix_multiplier (drop digits s) of
                     None \<Rightarrow> None
                   | Some multiplier \<Rightarrow> if (- 1) div multiplier < val then None else Some (val * multiplier)))"

section \<open>Counts with separators\<close>

definition format_count :: "u64 \<Rightarrow> string" where
  "format_count val =
     (let digits = show_nat (unat val)
      in concat (map (\<lambda>i. (if i \<noteq> 0 \<and> (length digits - i) mod 3 = 0 then '','' else []) @ [digits ! i]) [0..<length digits]))"

section \<open>Decimal numbers\<close>

lemma of_char_digit [simp]: "d < 10 \<Longrightarrow> of_char (digit_char d) = 48 + d"
  by (simp add: digit_char_def of_char_of)

lemma isdigit_digit [simp]: "d < 10 \<Longrightarrow> isdigit (digit_char d)"
  by (simp add: isdigit_def)

lemma digit_value_digit [simp]: "d < 10 \<Longrightarrow> digit_value (digit_char d) = d"
  by (simp add: digit_value_def)

lemma decimal_snoc [simp]: "decimal (ds @ [d]) = 10 * decimal ds + digit_value d"
  by (simp add: decimal_def)

lemma show_nat_nonempty [simp]: "show_nat n \<noteq> []"
  by (simp add: show_nat.simps [of n])

lemma show_nat_digits: "list_all isdigit (show_nat n)"
  by (induction n rule: show_nat.induct) (subst show_nat.simps, simp)

lemma decimal_show_nat [simp]: "decimal (show_nat n) = n"
proof (induction n rule: show_nat.induct)
  case (1 n)
  show ?case
  proof (cases "n < 10")
    case True
    then show ?thesis by (subst show_nat.simps) (simp add: decimal_def)
  next
    case False
    then show ?thesis using 1 by (subst show_nat.simps) simp
  qed
qed

lemma digits_split:
  assumes "list_all isdigit ds" "list_all (\<lambda>c. \<not> isdigit c) (take 1 rest)"
  shows "takeWhile isdigit (ds @ rest) = ds" "dropWhile isdigit (ds @ rest) = rest"
  using assms by (induction ds) (cases rest; simp)+

lemma from_chars_split:
  assumes "list_all isdigit ds" "ds \<noteq> []" "list_all (\<lambda>c. \<not> isdigit c) (take 1 rest)"
  shows "from_chars (ds @ rest) = (if 2 ^ 64 \<le> decimal ds then (ErrcOutOfRange, 0, rest) else (ErrcOk, of_nat (decimal ds), rest))"
  using assms(2) digits_split [OF assms(1,3)] by (simp add: from_chars_def)

lemma parse_uint_eq:
  "parse_uint s = (if s \<noteq> [] \<and> list_all isdigit s \<and> decimal s < 2 ^ 64 then Some (of_nat (decimal s)) else None)"
proof (cases "list_all isdigit s")
  case True
  then show ?thesis using from_chars_split [of s "[]"] by (auto simp: parse_uint_def)
next
  case False
  then have "dropWhile isdigit s \<noteq> []" by (auto simp: list_all_iff dropWhile_eq_Nil_conv)
  with False show ?thesis by (auto simp: parse_uint_def from_chars_def Let_def)
qed

section \<open>Suffixes\<close>

text \<open>The suffixes the parser accepts, in lower case, with the exponent of each.\<close>

definition size_suffixes :: "(string \<times> nat) list" where
  "size_suffixes = ([], 0) # (''b'', 0) #
     concat (map (\<lambda>(u, e). map (\<lambda>s. (u # s, e)) [[], ''b'', ''i'', ''bb'', ''bi'', ''ib'', ''ii''])
       [(CHR ''k'', 10), (CHR ''m'', 20), (CHR ''g'', 30), (CHR ''t'', 40)])"

lemma suffix_multiplier_eq: "suffix_multiplier s = map_option (\<lambda>e. push_bit e 1) (map_of size_suffixes (map tolower s))"
proof -
  consider "s = []" | c where "s = [c]" | c d where "s = [c, d]" | c d e where "s = [c, d, e]"
    | c d e f r where "s = c # d # e # f # r" by (metis list.exhaust)
  then show ?thesis
    by cases (auto simp: suffix_multiplier_def size_suffixes_def unit_multiplier_def)
qed

lemma suffix_not_digit:
  assumes "(map tolower s, e) \<in> set size_suffixes"
  shows "list_all (\<lambda>c. \<not> isdigit c) (take 1 s)" "e \<le> 40"
proof -
  have "\<not> isdigit c" if "tolower c = u" "u \<in> {CHR ''b'', CHR ''k'', CHR ''m'', CHR ''g'', CHR ''t''}" for c u
    using that by (auto simp: tolower_def isdigit_def split: if_splits)
  then show "list_all (\<lambda>c. \<not> isdigit c) (take 1 s)"
    using assms by (cases s) (auto simp: size_suffixes_def)
  show "e \<le> 40" using assms by (auto simp: size_suffixes_def)
qed

lemma size_suffixes_map_of: "map_of size_suffixes s = Some e \<longleftrightarrow> (s, e) \<in> set size_suffixes"
proof (rule map_of_eq_Some_iff)
  show "distinct (map fst size_suffixes)" by (simp add: size_suffixes_def)
qed

lemma scaled_value:
  assumes "n < 2 ^ 64" "e \<le> 40"
  shows "(if (- 1) div push_bit e (1 :: u64) < of_nat n then None else Some (of_nat n * push_bit e 1)) = Some v \<longleftrightarrow> n * 2 ^ e = unat (v :: u64)"
proof -
  have m: "unat (push_bit e 1 :: u64) = 2 ^ e"
    using assms(2) by (simp add: push_bit_eq_mult unat_two_power)
  have n: "unat (of_nat n :: u64) = n" using assms(1) by (simp add: unat_of_nat_small)
  have "(- 1) div push_bit e (1 :: u64) < of_nat n \<longleftrightarrow> \<not> n \<le> (2 ^ 64 - 1) div 2 ^ e"
    by (simp only: word_less_nat_alt unat_div m n unsigned_minus_1_eq_mask mask_eq_exp_minus_1 not_le) simp
  also have "n \<le> (2 ^ 64 - 1) div 2 ^ e \<longleftrightarrow> n * 2 ^ e \<le> 2 ^ 64 - 1"
    by (rule less_eq_div_iff_mult_less_eq) simp
  finally have guard: "(- 1) div push_bit e (1 :: u64) < of_nat n \<longleftrightarrow> 2 ^ 64 \<le> n * 2 ^ e" by auto
  show ?thesis
  proof (cases "2 ^ 64 \<le> n * 2 ^ e")
    case True
    then show ?thesis using guard unsigned_less [of v, where 'a = nat] by auto
  next
    case False
    then have "unat (of_nat n * push_bit e (1 :: u64)) = n * 2 ^ e" by (simp only: unat_word_ariths m n) simp
    then show ?thesis using False guard by (auto simp: word_unat_eq_iff)
  qed
qed


text \<open>The parser on a text split into its leading digits and the rest.\<close>

lemma parse_byte_size_split:
  assumes "list_all isdigit ds" "takeWhile isdigit s = ds" "s = ds @ suf"
  shows "parse_byte_size s = Some v \<longleftrightarrow> ds \<noteq> [] \<and> decimal ds < 2 ^ 64 \<and>
    (\<exists>e. map_of size_suffixes (map tolower suf) = Some e \<and>
      (if (- 1) div push_bit e (1 :: u64) < of_nat (decimal ds) then None else Some (of_nat (decimal ds) * push_bit e 1)) = Some v)"
proof -
  have parts: "take (length ds) s = ds" "drop (length ds) s = suf" by (simp_all add: assms(3))
  have "parse_byte_size s = (if ds = [] then None else case parse_uint ds of None \<Rightarrow> None
      | Some val \<Rightarrow> (case suffix_multiplier suf of None \<Rightarrow> None
        | Some m \<Rightarrow> if (- 1) div m < val then None else Some (val * m)))"
    by (simp only: parse_byte_size_def Let_def assms(2) parts length_0_conv)
  also have "parse_uint ds = (if ds \<noteq> [] \<and> decimal ds < 2 ^ 64 then Some (of_nat (decimal ds)) else None)"
    using assms(1) by (simp only: parse_uint_eq simp_thms)
  finally show ?thesis
    by (cases "map_of size_suffixes (map tolower suf)"; cases "ds = []"; cases "decimal ds < 2 ^ 64")
      (simp_all only: suffix_multiplier_eq option.map option.case if_True if_False simp_thms option.distinct option.inject ex_simps)
qed

lemma parse_byte_size_iff:
  "parse_byte_size s = Some v \<longleftrightarrow> (\<exists>ds suf e. s = ds @ suf \<and> ds \<noteq> [] \<and> list_all isdigit ds \<and>
     (map tolower suf, e) \<in> set size_suffixes \<and> decimal ds * 2 ^ e = unat v)" (is "_ \<longleftrightarrow> ?R")
proof -
  define ds where "ds = takeWhile isdigit s"
  define suf where "suf = dropWhile isdigit s"
  have s: "s = ds @ suf" "list_all isdigit ds" by (auto simp: ds_def suf_def list_all_iff dest: set_takeWhileD)
  note unfold = parse_byte_size_split [OF s(2) ds_def [symmetric] s(1), of v]
  have scaled: "(if (- 1) div push_bit e (1 :: u64) < of_nat (decimal ds) then None else Some (of_nat (decimal ds) * push_bit e 1)) = Some v
      \<longleftrightarrow> decimal ds * 2 ^ e = unat v" if "decimal ds < 2 ^ 64" "(map tolower suf, e) \<in> set size_suffixes" for e
    by (rule scaled_value [OF that(1) suffix_not_digit(2) [OF that(2)]])
  show ?thesis
  proof
    assume "parse_byte_size s = Some v"
    then obtain e where e: "ds \<noteq> []" "decimal ds < 2 ^ 64" "(map tolower suf, e) \<in> set size_suffixes"
        "(if (- 1) div push_bit e (1 :: u64) < of_nat (decimal ds) then None else Some (of_nat (decimal ds) * push_bit e 1)) = Some v"
      using unfold unfolding size_suffixes_map_of by blast
    then show ?R using scaled [OF e(2,3)] s by blast
  next
    assume ?R
    then obtain ds' suf' e where r: "s = ds' @ suf'" "ds' \<noteq> []" "list_all isdigit ds'" "(map tolower suf', e) \<in> set size_suffixes"
      "decimal ds' * 2 ^ e = unat v" by blast
    then have "ds = ds'" "suf = suf'" using digits_split [OF r(3) suffix_not_digit(1) [OF r(4)]] by (simp_all add: ds_def suf_def)
    moreover have "decimal ds' < 2 ^ 64"
    proof -
      have "decimal ds' \<le> decimal ds' * 2 ^ e" by simp
      also have "\<dots> < 2 ^ LENGTH(64)" unfolding r(5) by (rule unsigned_less)
      finally show ?thesis by simp
    qed
    ultimately have "ds \<noteq> []" "decimal ds < 2 ^ 64" "(map tolower suf, e) \<in> set size_suffixes" "decimal ds * 2 ^ e = unat v"
      using r by simp_all
    then show "parse_byte_size s = Some v" using unfold scaled [of e] unfolding size_suffixes_map_of by blast
  qed
qed

section \<open>Groups of three digits\<close>

text \<open>The reference: the last three digits of a number form a group.\<close>

fun grouped :: "nat \<Rightarrow> string" where
  "grouped n = (if n < 1000 then show_nat n
     else grouped (n div 1000) @ '','' @ [digit_char (n div 100 mod 10), digit_char (n div 10 mod 10), digit_char (n mod 10)])"

declare grouped.simps [simp del]

definition separated :: "string \<Rightarrow> string" where
  "separated ds = concat (map (\<lambda>i. (if i \<noteq> 0 \<and> (length ds - i) mod 3 = 0 then '','' else []) @ [ds ! i]) [0..<length ds])"

lemma show_nat_step: "10 \<le> n \<Longrightarrow> show_nat n = show_nat (n div 10) @ [digit_char (n mod 10)]"
  by (subst show_nat.simps) simp

lemma show_nat_thousands:
  assumes "1000 \<le> n"
  shows "show_nat n = show_nat (n div 1000) @ [digit_char (n div 100 mod 10), digit_char (n div 10 mod 10), digit_char (n mod 10)]"
proof -
  have "show_nat n = show_nat (n div 10 div 10 div 10) @ [digit_char (n div 10 div 10 mod 10)] @ [digit_char (n div 10 mod 10)] @ [digit_char (n mod 10)]"
    using assms show_nat_step [of n] show_nat_step [of "n div 10"] show_nat_step [of "n div 10 div 10"] by simp
  then show ?thesis by (simp add: div_mult2_eq [symmetric])
qed

lemma show_nat_length: "n < 1000 \<Longrightarrow> length (show_nat n) \<le> 3"
  by (simp add: show_nat.simps [of n] show_nat.simps [of "n div 10"] show_nat.simps [of "n div 10 div 10"])

lemma separated_short: "length ds \<le> 3 \<Longrightarrow> separated ds = ds"
proof -
  assume "length ds \<le> 3"
  then consider "ds = []" | a where "ds = [a]" | a b where "ds = [a, b]" | a b c where "ds = [a, b, c]"
    by (auto simp: le_Suc_eq numeral_3_eq_3 length_Suc_conv)
  then show ?thesis by cases (simp_all add: separated_def upt_rec)
qed

lemma separated_append:
  assumes "ds \<noteq> []"
  shows "separated (ds @ [a, b, c]) = separated ds @ '','' @ [a, b, c]"
proof -
  let ?f = "\<lambda>ds i. (if i \<noteq> 0 \<and> (length ds - i) mod 3 = 0 then '','' else []) @ [ds ! i]"
  let ?n = "length ds"
  have "map (?f (ds @ [a, b, c])) [0..<?n] = map (?f ds) [0..<?n]"
  proof (rule map_cong [OF refl])
    fix i assume "i \<in> set [0..<?n]"
    then have "i < ?n" by simp
    then have "length (ds @ [a, b, c]) - i = (?n - i) + 3" by simp
    then have "(length (ds @ [a, b, c]) - i) mod 3 = (?n - i) mod 3" by (simp only: mod_add_self2)
    then show "?f (ds @ [a, b, c]) i = ?f ds i" using \<open>i < ?n\<close> by (simp add: nth_append)
  qed
  moreover have "[0..<length (ds @ [a, b, c])] = [0..<?n] @ [?n, ?n + 1, ?n + 2]"
    by (simp add: numeral_3_eq_3 upt_conv_Cons)
  ultimately have "separated (ds @ [a, b, c]) = concat (map (?f ds) [0..<?n]) @ concat (map (?f (ds @ [a, b, c])) [?n, ?n + 1, ?n + 2])"
    by (simp only: separated_def map_append concat_append)
  then show ?thesis using assms by (simp add: separated_def nth_append)
qed

lemma separated_show_nat: "separated (show_nat n) = grouped n"
proof (induction n rule: grouped.induct)
  case (1 n)
  show ?case
  proof (cases "n < 1000")
    case True
    then show ?thesis by (subst grouped.simps) (simp add: separated_short show_nat_length)
  next
    case False
    then show ?thesis using 1 by (subst grouped.simps) (simp add: show_nat_thousands separated_append)
  qed
qed

lemma filter_separated:
  assumes "list_all isdigit ds"
  shows "filter (\<lambda>c. c \<noteq> CHR '','') (separated ds) = ds"
proof -
  have keep: "filter (\<lambda>c. c \<noteq> CHR '','') ((if b then '','' else []) @ [ds ! i]) = [ds ! i]" if "i < length ds" for i b
    using assms that by (auto simp: list_all_length isdigit_def)
  have "filter (\<lambda>c. c \<noteq> CHR '','') (separated ds) = concat (map (\<lambda>i. [ds ! i]) [0..<length ds])"
    unfolding separated_def filter_concat map_map comp_def
    by (intro arg_cong [of _ _ concat] map_cong refl keep) simp
  also have "\<dots> = map (\<lambda>i. ds ! i) [0..<length ds]" by (induction ds) simp_all
  finally show ?thesis by (simp add: map_nth)
qed

lemma format_count_eq: "format_count v = separated (show_nat (unat v))"
  by (simp only: format_count_def separated_def Let_def)

lemma parse_uint_show_nat: "parse_uint (show_nat (unat v)) = Some v"
proof -
  have "unat v < 2 ^ LENGTH(64)" by (rule unsigned_less)
  then show ?thesis by (simp add: parse_uint_eq show_nat_digits)
qed

section \<open>Properties\<close>

text \<open>
  C37: the sizes accepted on the command line: a text is accepted exactly when it is a non-empty
  run of decimal digits followed by one of the listed suffixes in any case, and the exact product
  of number and unit fits into 64 bits; the value is that product. Everything else, overflow
  included, is refused. (Besides an empty suffix, B and iB, the list has a unit letter followed by
  i, bb, bi or ii.)
\<close>

theorem parse_byte_size_grammar:
  "parse_byte_size s = Some v \<longleftrightarrow> (\<exists>ds suf e. s = ds @ suf \<and> ds \<noteq> [] \<and> list_all isdigit ds \<and>
     (map tolower suf, e) \<in> set size_suffixes \<and> decimal ds * 2 ^ e = unat v)"
  by (rule parse_byte_size_iff)

text \<open>
  Numbers survive printing and parsing: both parsers read back the decimal form of every
  64-bit number; \<^verbatim>\<open>format_count\<close> prints it in groups of three digits from the right, and without
  the separators it parses back to the same number.
\<close>

lemma printed_numbers_parse_back:
  "parse_uint (show_nat (unat v)) = Some v \<and> parse_byte_size (show_nat (unat v)) = Some v \<and>
   format_count v = grouped (unat v) \<and> parse_uint (filter (\<lambda>c. c \<noteq> CHR '','') (format_count v)) = Some v"
proof -
  have "parse_byte_size (show_nat (unat v)) = Some v"
    unfolding parse_byte_size_iff
    by (intro exI [of _ "show_nat (unat v)"] exI [of _ "[]"] exI [of _ 0]) (simp add: show_nat_digits size_suffixes_def)
  then show ?thesis
    by (simp add: parse_uint_show_nat format_count_eq filter_separated show_nat_digits separated_show_nat [symmetric])
qed

end
