(* ===== verification/Binary64.thy ===== *)
theory Binary64
  imports Pc_Prelude "HOL-Library.Log_Nat"
begin

text \<open>
  The \<^verbatim>\<open>double\<close> of the reports, the rates and the rate limiter: IEEE-754 binary64 with rounding to
  nearest, ties to even. A finite number is its rational value; zero has no sign here, which no
  code of the program observes. Every operation is the exact one, rounded. The lemmas give the
  exactness of the operations on numbers that fit, the relative error of a rounding, and that
  rounding does not cross a number of the format.
\<close>

section \<open>Rounding\<close>

text \<open>To the nearest integer, ties to even.\<close>

definition rne :: "rat \<Rightarrow> int" where
  "rne q = (let f = \<lfloor>q\<rfloor>; r = q - of_int f in if r < 1 / 2 \<or> r = 1 / 2 \<and> even f then f else f + 1)"

text \<open>The binary exponent of a positive number: the \<open>k\<close> with \<open>2\<^sup>k \<le> q < 2\<^sup>k\<^sup>+\<^sup>1\<close>.\<close>

definition ilog2 :: "rat \<Rightarrow> int" where
  "ilog2 q = (let (n, d) = quotient_of q; k = bitlen n - bitlen d in if 2 powi k \<le> q then k else k - 1)"

text \<open>The exponent of the last place: 53 significant bits, no place below \<open>2\<^sup>-\<^sup>1\<^sup>0\<^sup>7\<^sup>4\<close>.\<close>

definition ulp_exponent :: "rat \<Rightarrow> int" where
  "ulp_exponent q = max (ilog2 \<bar>q\<bar> - 52) (- 1074)"

definition round_binary64 :: "rat \<Rightarrow> rat" where
  "round_binary64 q = (if q = 0 then 0 else let u = 2 powi ulp_exponent q in of_int (rne (q / u)) * u)"

text \<open>A rounded value of magnitude \<open>2\<^sup>1\<^sup>0\<^sup>2\<^sup>4\<close> or more is an infinity.\<close>

datatype double = Finite rat | PosInf | NegInf | NotANumber

definition to_double :: "rat \<Rightarrow> double" where
  "to_double q =
     (let r = round_binary64 q
      in if r \<noteq> 0 \<and> 1024 \<le> ilog2 \<bar>r\<bar> then (if 0 < r then PosInf else NegInf) else Finite r)"

text \<open>The operations the program uses.\<close>

fun dbl_div :: "double \<Rightarrow> double \<Rightarrow> double" where
  "dbl_div (Finite a) (Finite b) =
     (if b \<noteq> 0 then to_double (a / b) else if a = 0 then NotANumber else if 0 < a then PosInf else NegInf)"
| "dbl_div (Finite a) PosInf = Finite 0"
| "dbl_div (Finite a) NegInf = Finite 0"
| "dbl_div PosInf (Finite b) = (if 0 \<le> b then PosInf else NegInf)"
| "dbl_div NegInf (Finite b) = (if 0 \<le> b then NegInf else PosInf)"
| "dbl_div a b = NotANumber"

fun dbl_mul :: "double \<Rightarrow> double \<Rightarrow> double" where
  "dbl_mul (Finite a) (Finite b) = to_double (a * b)"
| "dbl_mul PosInf (Finite b) = (if b = 0 then NotANumber else if 0 < b then PosInf else NegInf)"
| "dbl_mul NegInf (Finite b) = (if b = 0 then NotANumber else if 0 < b then NegInf else PosInf)"
| "dbl_mul (Finite a) PosInf = (if a = 0 then NotANumber else if 0 < a then PosInf else NegInf)"
| "dbl_mul (Finite a) NegInf = (if a = 0 then NotANumber else if 0 < a then NegInf else PosInf)"
| "dbl_mul PosInf PosInf = PosInf"
| "dbl_mul PosInf NegInf = NegInf"
| "dbl_mul NegInf PosInf = NegInf"
| "dbl_mul NegInf NegInf = PosInf"
| "dbl_mul a b = NotANumber"

fun dbl_less :: "double \<Rightarrow> double \<Rightarrow> bool" where
  "dbl_less (Finite a) (Finite b) = (a < b)"
| "dbl_less (Finite a) PosInf = True"
| "dbl_less NegInf (Finite b) = True"
| "dbl_less NegInf PosInf = True"
| "dbl_less a b = False"

fun dbl_abs :: "double \<Rightarrow> double" where
  "dbl_abs (Finite a) = Finite \<bar>a\<bar>"
| "dbl_abs NegInf = PosInf"
| "dbl_abs a = a"

text \<open>
  A conversion to an integer cuts the fraction off; it is undefined (None) when the result does not
  fit into the type.
\<close>

definition towards_zero :: "rat \<Rightarrow> int" where
  "towards_zero q = (if q < 0 then \<lceil>q\<rceil> else \<lfloor>q\<rfloor>)"

definition dbl_to_int :: "int \<Rightarrow> int \<Rightarrow> double \<Rightarrow> int option" where
  "dbl_to_int lo hi x =
     (case x of Finite q \<Rightarrow> if lo \<le> towards_zero q \<and> towards_zero q \<le> hi then Some (towards_zero q) else None | _ \<Rightarrow> None)"

definition dbl_to_u64 :: "double \<Rightarrow> u64 option" where
  "dbl_to_u64 x = map_option of_int (dbl_to_int 0 (2 ^ 64 - 1) x)"

definition dbl_to_i64 :: "double \<Rightarrow> i64 option" where
  "dbl_to_i64 x = map_option of_int (dbl_to_int (- (2 ^ 63)) (2 ^ 63 - 1) x)"

definition dbl_of_u64 :: "u64 \<Rightarrow> double" where
  "dbl_of_u64 n = to_double (of_nat (unat n))"

definition dbl_of_i64 :: "i64 \<Rightarrow> double" where
  "dbl_of_i64 n = to_double (of_int (sint n))"

section \<open>Numbers of the format\<close>

definition representable :: "rat \<Rightarrow> bool" where
  "representable q \<longleftrightarrow> (\<exists>m e. q = of_int m * 2 powi e \<and> \<bar>m\<bar> < 2 ^ 53 \<and> - 1074 \<le> e)"

lemma rne_of_int [simp]: "rne (of_int k) = k"
  by (simp add: rne_def)

lemma rne_error: "\<bar>of_int (rne q) - q\<bar> \<le> 1 / 2"
proof -
  have f: "of_int \<lfloor>q\<rfloor> \<le> q" "q < of_int \<lfloor>q\<rfloor> + 1" by linarith+
  show ?thesis
  proof (cases "q - of_int \<lfloor>q\<rfloor> < 1 / 2 \<or> q - of_int \<lfloor>q\<rfloor> = 1 / 2 \<and> even \<lfloor>q\<rfloor>")
    case True
    then have "rne q = \<lfloor>q\<rfloor>" by (simp only: rne_def Let_def if_True)
    then show ?thesis using f True by linarith
  next
    case False
    then have "rne q = \<lfloor>q\<rfloor> + 1" by (simp only: rne_def Let_def if_False)
    then show ?thesis using f False by (simp add: abs_le_iff)
  qed
qed

lemma rne_le: "q \<le> of_int k \<Longrightarrow> rne q \<le> k"
proof -
  assume q: "q \<le> of_int k"
  show ?thesis
  proof (cases "q = of_int k")
    case False
    then have "\<lfloor>q\<rfloor> < k" using q by linarith
    then show ?thesis by (simp add: rne_def Let_def)
  qed simp
qed

lemma rne_ge: "of_int k \<le> q \<Longrightarrow> k \<le> rne q"
  by (simp add: rne_def Let_def) linarith

lemma rne_minus: "rne (- q) = - rne q"
proof (cases "q = of_int \<lfloor>q\<rfloor>")
  case True
  then have "rne q = \<lfloor>q\<rfloor>" "rne (- q) = - \<lfloor>q\<rfloor>" by (metis rne_of_int, metis of_int_minus rne_of_int)
  then show ?thesis by simp
next
  case False
  then have "\<lfloor>- q\<rfloor> = - \<lfloor>q\<rfloor> - 1" by linarith
  then show ?thesis by (auto simp: rne_def Let_def)
qed

lemma two_powi_pos [simp]: "0 < (2 :: rat) powi k"
  by simp

lemma ilog2_bounds:
  assumes "0 < q"
  shows "2 powi ilog2 q \<le> q" "q < 2 powi (ilog2 q + 1)"
proof -
  obtain n d where nd: "quotient_of q = (n, d)" by (cases "quotient_of q")
  then have d: "0 < d" and q: "q = of_int n / of_int d" by (simp_all add: quotient_of_denom_pos quotient_of_div)
  then have n: "0 < n" using assms by (simp add: zero_less_divide_iff)
  have bounds: "(2 :: rat) powi (bitlen x - 1) \<le> of_int x" "of_int x < (2 :: rat) powi bitlen x" if "0 < x" for x
  proof -
    have b: "0 < bitlen x" using that by (simp add: bitlen_nonneg bitlen_eq_zero_iff order_less_le)
    have "2 ^ nat (bitlen x - 1) \<le> x" "x < 2 ^ nat (bitlen x)" using bitlen_bounds [OF that] by auto
    then have "of_int (2 ^ nat (bitlen x - 1)) \<le> (of_int x :: rat)" "of_int x < (of_int (2 ^ nat (bitlen x)) :: rat)"
      by (simp_all only: of_int_le_iff of_int_less_iff)
    then show "(2 :: rat) powi (bitlen x - 1) \<le> of_int x" "of_int x < (2 :: rat) powi bitlen x"
      using b by (simp_all add: power_int_def)
  qed
  let ?k = "bitlen n - bitlen d"
  have "q < 2 powi bitlen n / 2 powi (bitlen d - 1)"
    unfolding q using bounds [OF n] bounds [OF d] d n by (intro frac_less) simp_all
  then have up: "q < 2 powi (?k + 1)" by (simp add: power_int_diff power_int_add field_simps)
  have "2 powi (bitlen n - 1) / 2 powi bitlen d < q"
    unfolding q using bounds [OF n] bounds [OF d] d n by (intro frac_less2) simp_all
  moreover have "(2 :: rat) powi (bitlen n - 1) / 2 powi bitlen d = 2 powi (?k - 1)"
    by (subst power_int_diff [symmetric]) (simp_all add: algebra_simps)
  ultimately have low: "2 powi (?k - 1) \<le> q" by simp
  show "2 powi ilog2 q \<le> q" "q < 2 powi (ilog2 q + 1)"
    using up low by (auto simp: ilog2_def nd Let_def)
qed

lemma ulp_exponent_bounds:
  assumes "q \<noteq> 0"
  shows "- 1074 \<le> ulp_exponent q" "\<bar>q\<bar> < 2 ^ 53 * 2 powi ulp_exponent q"
    "ulp_exponent q = - 1074 \<or> 2 ^ 52 * 2 powi ulp_exponent q \<le> \<bar>q\<bar>"
proof -
  show "- 1074 \<le> ulp_exponent q" by (simp add: ulp_exponent_def)
  note b = ilog2_bounds [of "\<bar>q\<bar>"]
  have "(2 :: rat) powi (ilog2 \<bar>q\<bar> + 1) \<le> 2 powi (53 + ulp_exponent q)"
    by (rule power_int_increasing) (simp_all add: ulp_exponent_def)
  then have "\<bar>q\<bar> < 2 powi (53 + ulp_exponent q)" using b assms by linarith
  then show "\<bar>q\<bar> < 2 ^ 53 * 2 powi ulp_exponent q" by (simp add: power_int_add)
  have "(2 :: rat) powi (52 + ulp_exponent q) = 2 ^ 52 * 2 powi ulp_exponent q" by (simp add: power_int_add)
  moreover have "52 + ulp_exponent q = ilog2 \<bar>q\<bar>" if "ulp_exponent q \<noteq> - 1074" using that by (auto simp: ulp_exponent_def)
  ultimately show "ulp_exponent q = - 1074 \<or> 2 ^ 52 * 2 powi ulp_exponent q \<le> \<bar>q\<bar>" using b(1) assms by fastforce
qed

lemma round_binary64_minus: "round_binary64 (- q) = - round_binary64 q"
  by (simp add: round_binary64_def ulp_exponent_def rne_minus Let_def)

lemma round_binary64_0 [simp]: "round_binary64 0 = 0"
  by (simp add: round_binary64_def)

lemma representable_minus: "representable q \<Longrightarrow> representable (- q)"
proof -
  assume "representable q"
  then obtain m e where "q = of_int m * 2 powi e" "\<bar>m\<bar> < 2 ^ 53" "- 1074 \<le> e" by (auto simp: representable_def)
  then show ?thesis unfolding representable_def by (intro exI [of _ "- m"] exI [of _ e]) simp
qed

lemma representableI: "\<bar>m\<bar> < 2 ^ 53 \<Longrightarrow> - 1074 \<le> e \<Longrightarrow> representable (of_int m * 2 powi e)"
  unfolding representable_def by (rule exI [of _ m], rule exI [of _ e]) simp

lemma representable_0 [simp]: "representable 0"
  using representableI [of 0 0] by simp

lemma round_binary64_representable: "representable (round_binary64 q)"
proof (cases "q = 0")
  case False
  define e where "e = ulp_exponent q"
  define m where "m = rne (q / 2 powi e)"
  note bounds = ulp_exponent_bounds [OF False, folded e_def]
  have r: "round_binary64 q = of_int m * 2 powi e" using False by (simp add: round_binary64_def Let_def m_def e_def)
  have "\<bar>q / 2 powi e\<bar> < 2 ^ 53" using bounds(2) by (simp add: abs_divide field_simps)
  then have "q / 2 powi e \<le> of_int (2 ^ 53)" "of_int (- (2 ^ 53)) \<le> q / 2 powi e"
    unfolding abs_less_iff by simp_all
  then have "m \<le> 2 ^ 53" "- (2 ^ 53) \<le> m" unfolding m_def by (simp_all only: rne_le rne_ge)
  then have "\<bar>m\<bar> < 2 ^ 53 \<or> m = 2 * 2 ^ 52 \<or> m = 2 * - (2 ^ 52)" by simp linarith
  then consider "\<bar>m\<bar> < 2 ^ 53" | "m = 2 * 2 ^ 52" | "m = 2 * - (2 ^ 52)" by blast
  then show ?thesis
  proof cases
    case 1
    then show ?thesis unfolding r using bounds(1) by (rule representableI)
  next
    case 2
    then have "of_int m * 2 powi e = of_int (2 ^ 52) * (2 :: rat) powi (e + 1)" by (simp add: power_int_add)
    then show ?thesis unfolding r using representableI [of "2 ^ 52" "e + 1"] bounds(1) by simp
  next
    case 3
    then have "of_int m * 2 powi e = of_int (- (2 ^ 52)) * (2 :: rat) powi (e + 1)" by (simp add: power_int_add)
    then show ?thesis unfolding r using representableI [of "- (2 ^ 52)" "e + 1"] bounds(1) by simp
  qed
qed simp

text \<open>A number of the format is a multiple of the last place of a number it is not below.\<close>

lemma representable_multiple:
  assumes "representable x" "q \<noteq> 0" "2 ^ 52 * 2 powi ulp_exponent q \<le> \<bar>x\<bar> \<or> ulp_exponent q = - 1074"
  obtains k where "x = of_int k * 2 powi ulp_exponent q"
proof -
  obtain m e where x: "x = of_int m * 2 powi e" "\<bar>m\<bar> < 2 ^ 53" "- 1074 \<le> e"
    using assms(1) by (auto simp: representable_def)
  have "ulp_exponent q \<le> e"
  proof (rule ccontr)
    assume lt: "\<not> ulp_exponent q \<le> e"
    have "of_int \<bar>m\<bar> < (of_int (2 ^ 53) :: rat)" using x(2) by (simp only: of_int_less_iff)
    then have "\<bar>x\<bar> < 2 ^ 53 * 2 powi e" by (simp add: x(1) abs_mult)
    also have "\<dots> = 2 ^ 52 * 2 powi (e + 1)" by (simp add: power_int_add)
    also have "\<dots> \<le> 2 ^ 52 * 2 powi ulp_exponent q"
      using lt by (intro mult_left_mono power_int_increasing) simp_all
    finally show False using assms(3) lt x(3) by auto
  qed
  then have "(2 :: rat) powi e = 2 ^ nat (e - ulp_exponent q) * 2 powi ulp_exponent q"
    using power_int_add [of "2 :: rat" "e - ulp_exponent q" "ulp_exponent q"] by (simp add: power_int_def [of 2 "e - ulp_exponent q"])
  then have "x = of_int (m * 2 ^ nat (e - ulp_exponent q)) * 2 powi ulp_exponent q"
    by (simp add: x(1))
  then show thesis by (rule that)
qed

lemma round_binary64_le_pos:
  assumes "representable x" "0 < q" "q \<le> x"
  shows "round_binary64 q \<le> x"
proof -
  have "2 ^ 52 * 2 powi ulp_exponent q \<le> \<bar>x\<bar> \<or> ulp_exponent q = - 1074"
    using ulp_exponent_bounds(3) [of q] assms by fastforce
  then obtain k where k: "x = of_int k * 2 powi ulp_exponent q"
    by (rule representable_multiple [OF assms(1), of q, rotated]) (use assms(2) in auto)
  then have "q / 2 powi ulp_exponent q \<le> of_int k" using assms(3) by (simp add: field_simps)
  then have "rne (q / 2 powi ulp_exponent q) \<le> k" by (rule rne_le)
  then show ?thesis using assms(2) by (simp add: round_binary64_def Let_def k)
qed

lemma round_binary64_ge_pos:
  assumes "representable x" "0 < q" "x \<le> q"
  shows "x \<le> round_binary64 q"
proof -
  let ?u = "2 powi ulp_exponent q :: rat"
  have r: "round_binary64 q = of_int (rne (q / ?u)) * ?u" using assms(2) by (simp add: round_binary64_def Let_def)
  have multiple: "of_int k * ?u \<le> round_binary64 q" if "of_int k * ?u \<le> q" for k
  proof -
    have "of_int k \<le> q / ?u" using that by (simp add: field_simps)
    then have "k \<le> rne (q / ?u)" by (rule rne_ge)
    then show ?thesis by (simp add: r)
  qed
  show ?thesis
  proof (cases "2 ^ 52 * ?u \<le> \<bar>x\<bar> \<or> ulp_exponent q = - 1074")
    case True
    then obtain k where k: "x = of_int k * ?u"
      by (rule representable_multiple [OF assms(1), of q, rotated]) (use assms(2) in auto)
    then show ?thesis using multiple assms(3) by simp
  next
    case False
    then have "of_int (2 ^ 52) * ?u \<le> q" using ulp_exponent_bounds(3) [of q] assms(2) by simp
    then have "of_int (2 ^ 52) * ?u \<le> round_binary64 q" by (rule multiple)
    then show ?thesis using False by auto
  qed
qed

lemma round_binary64_sign:
  "0 \<le> q \<Longrightarrow> 0 \<le> round_binary64 q"
  "q \<le> 0 \<Longrightarrow> round_binary64 q \<le> 0"
proof -
  have pos: "0 \<le> round_binary64 q" if "0 \<le> q" for q
    using that round_binary64_ge_pos [of 0 q] by (cases "q = 0") simp_all
  show "0 \<le> q \<Longrightarrow> 0 \<le> round_binary64 q" by (rule pos)
  show "q \<le> 0 \<Longrightarrow> round_binary64 q \<le> 0" using pos [of "- q"] by (simp add: round_binary64_minus)
qed

text \<open>Rounding does not cross a number of the format.\<close>

lemma round_binary64_le:
  assumes "representable x" "q \<le> x"
  shows "round_binary64 q \<le> x"
proof -
  consider "0 < q" | "q \<le> 0" "0 \<le> x" | "x < 0" using assms(2) by linarith
  then show ?thesis
  proof cases
    case 1
    then show ?thesis using assms round_binary64_le_pos by blast
  next
    case 2
    then show ?thesis using round_binary64_sign(2) [of q] by linarith
  next
    case 3
    then have "- x \<le> round_binary64 (- q)"
      using assms by (intro round_binary64_ge_pos representable_minus) simp_all
    then show ?thesis by (simp add: round_binary64_minus)
  qed
qed

lemma round_binary64_ge: "representable x \<Longrightarrow> x \<le> q \<Longrightarrow> x \<le> round_binary64 q"
  using round_binary64_le [of "- x" "- q"] by (simp add: representable_minus round_binary64_minus)

lemma round_binary64_exact: "representable q \<Longrightarrow> round_binary64 q = q"
  by (simp add: round_binary64_le round_binary64_ge order_antisym)

lemma rne_mono: "p \<le> q \<Longrightarrow> rne p \<le> rne q"
proof -
  assume le: "p \<le> q"
  have "\<lfloor>p\<rfloor> \<le> \<lfloor>q\<rfloor>" using le by (rule floor_mono)
  then consider "\<lfloor>p\<rfloor> = \<lfloor>q\<rfloor>" | "\<lfloor>p\<rfloor> + 1 \<le> \<lfloor>q\<rfloor>" by linarith
  then show ?thesis
  proof cases
    case 1
    then show ?thesis using le by (auto simp: rne_def Let_def)
  next
    case 2
    have "rne p \<le> \<lfloor>p\<rfloor> + 1" by (simp add: rne_def Let_def)
    moreover have "\<lfloor>q\<rfloor> \<le> rne q" by (simp add: rne_def Let_def)
    ultimately show ?thesis using 2 by linarith
  qed
qed

lemma round_binary64_mono_pos:
  assumes "0 < p" "p \<le> q"
  shows "round_binary64 p \<le> round_binary64 q"
proof -
  have pq: "p \<noteq> 0" "q \<noteq> 0" using assms by auto
  note p = ulp_exponent_bounds [OF pq(1)] and q = ulp_exponent_bounds [OF pq(2)]
  have step: "(2 :: rat) ^ 53 * 2 powi i \<le> 2 ^ 52 * 2 powi j" if "i < j" for i j
  proof -
    have "(2 :: rat) powi (i + 1) \<le> 2 powi j" using that by (intro power_int_increasing) simp_all
    then show ?thesis by (simp add: power_int_add)
  qed
  consider "ulp_exponent p = ulp_exponent q" | "ulp_exponent p < ulp_exponent q" | "ulp_exponent q < ulp_exponent p" by linarith
  then show ?thesis
  proof cases
    case 1
    have "rne (p / 2 powi ulp_exponent q) \<le> rne (q / 2 powi ulp_exponent q)"
      using assms by (intro rne_mono divide_right_mono) simp_all
    then show ?thesis using pq 1 by (simp add: round_binary64_def Let_def)
  next
    case 2
    let ?x = "of_int (2 ^ 52) * (2 :: rat) powi ulp_exponent q"
    have x: "representable ?x" using q(1) by (intro representableI) simp_all
    have "p \<le> ?x" "?x \<le> q" using p(1,2) q(3) step [OF 2] assms 2 by auto
    then show ?thesis using round_binary64_le [OF x, of p] round_binary64_ge [OF x, of q] by linarith
  next
    case 3
    then show ?thesis using p(3) q(1,2) step [OF 3] assms by auto
  qed
qed

lemma round_binary64_mono: "p \<le> q \<Longrightarrow> round_binary64 p \<le> round_binary64 q"
proof -
  assume le: "p \<le> q"
  then consider "0 < p" | "p \<le> 0" "0 \<le> q" | "q < 0" by linarith
  then show ?thesis
  proof cases
    case 2
    then show ?thesis using round_binary64_sign(2) [of p] round_binary64_sign(1) [of q] by linarith
  next
    case 3
    then show ?thesis using round_binary64_mono_pos [of "- q" "- p"] le by (simp add: round_binary64_minus)
  qed (rule round_binary64_mono_pos [OF _ le])
qed

text \<open>The relative error of a rounding, for numbers that are not tiny.\<close>

lemma round_binary64_error:
  assumes "2 powi (- 1022) \<le> \<bar>q\<bar>"
  shows "\<bar>round_binary64 q - q\<bar> \<le> \<bar>q\<bar> / 2 ^ 53"
proof -
  let ?u = "2 powi ulp_exponent q :: rat"
  have q: "q \<noteq> 0" using assms two_powi_pos [of "- 1022"] by auto
  have "\<bar>round_binary64 q - q\<bar> = \<bar>of_int (rne (q / ?u)) - q / ?u\<bar> * ?u"
  proof -
    have "round_binary64 q - q = (of_int (rne (q / ?u)) - q / ?u) * ?u"
      using q by (simp add: round_binary64_def Let_def left_diff_distrib)
    then show ?thesis by (simp add: abs_mult)
  qed
  also have "\<dots> \<le> 1 / 2 * ?u" by (intro mult_right_mono rne_error) simp
  also have "2 ^ 52 * ?u \<le> \<bar>q\<bar>"
  proof (cases "ulp_exponent q = - 1074")
    case True
    have "2 ^ 52 * ?u = 2 powi (52 + ulp_exponent q)" by (simp add: power_int_add)
    then show ?thesis using assms True by simp
  qed (use ulp_exponent_bounds(3) [OF q] in auto)
  then have "1 / 2 * ?u \<le> \<bar>q\<bar> / 2 ^ 53" by simp
  finally show ?thesis .
qed


section \<open>Conversions and operations in range\<close>

lemma representable_of_int: "\<bar>k\<bar> \<le> 2 ^ 53 \<Longrightarrow> representable (of_int k)"
proof -
  assume "\<bar>k\<bar> \<le> 2 ^ 53"
  then have "\<bar>k\<bar> < 2 ^ 53 \<or> k = 2 ^ 53 \<or> k = - (2 ^ 53)" by simp linarith
  then show ?thesis
    using representableI [of k 0] representableI [of "2 ^ 52" 1] representableI [of "- (2 ^ 52)" 1] by auto
qed

lemma representable_power: "- 1074 \<le> k \<Longrightarrow> representable (2 powi k)"
  using representableI [of 1 k] by simp

lemma representable_scaled: "representable q \<Longrightarrow> 0 \<le> k \<Longrightarrow> representable (q * 2 powi k)"
proof -
  assume "representable q" "0 \<le> k"
  then obtain m e where "q = of_int m * 2 powi e" "\<bar>m\<bar> < 2 ^ 53" "- 1074 \<le> e" by (auto simp: representable_def)
  then show ?thesis using representableI [of m "e + k"] \<open>0 \<le> k\<close> by (simp add: power_int_add mult.assoc)
qed

lemma round_binary64_bound:
  assumes "representable x" "\<bar>q\<bar> \<le> x"
  shows "\<bar>round_binary64 q\<bar> \<le> x"
  using round_binary64_le [OF assms(1), of q] round_binary64_ge [OF representable_minus [OF assms(1)], of q] assms(2)
  by (simp add: abs_le_iff)

lemma to_double_finite:
  assumes "\<bar>q\<bar> \<le> 2 powi 1023"
  shows "to_double q = Finite (round_binary64 q)"
proof -
  let ?r = "\<bar>round_binary64 q\<bar>"
  have "ilog2 ?r < 1024" if "round_binary64 q \<noteq> 0"
  proof (rule ccontr)
    assume "\<not> ilog2 ?r < 1024"
    then have "(2 :: rat) powi 1024 \<le> 2 powi ilog2 ?r" by (intro power_int_increasing) simp_all
    also have "\<dots> \<le> ?r" using that by (intro ilog2_bounds) simp
    also have "?r \<le> 2 powi 1023" using assms by (intro round_binary64_bound representable_power) simp_all
    finally have "(2 :: rat) powi 1024 \<le> 2 powi 1023" .
    moreover have "(2 :: rat) powi 1023 < 2 powi 1024" by (rule power_int_strict_increasing) simp_all
    ultimately show False by simp
  qed
  then show ?thesis by (auto simp: to_double_def Let_def)
qed

text \<open>Everything the program computes from 64-bit integers stays below \<open>2\<^sup>1\<^sup>2\<^sup>8\<close>.\<close>

lemma to_double_small: "\<bar>q\<bar> \<le> 2 ^ 128 \<Longrightarrow> to_double q = Finite (round_binary64 q)"
proof (rule to_double_finite)
  assume "\<bar>q\<bar> \<le> 2 ^ 128"
  also have "(2 :: rat) ^ 128 = 2 powi 128" by (simp add: power_int_def)
  also have "(2 :: rat) powi 128 \<le> 2 powi 1023" by (rule power_int_increasing) simp_all
  finally show "\<bar>q\<bar> \<le> 2 powi 1023" .
qed

lemma unat_u64_bound: "(of_nat (unat n) :: rat) < 2 ^ 64" for n :: u64
proof -
  have "unat n < 2 ^ LENGTH(64)" by (rule unsigned_less)
  then have "of_nat (unat n) < (of_nat (2 ^ 64) :: rat)" by (simp only: of_nat_less_iff) simp
  then show ?thesis by simp
qed

lemma dbl_of_u64_eq: "dbl_of_u64 n = Finite (round_binary64 (of_nat (unat n)))"
proof -
  have "(0 :: rat) \<le> of_nat (unat n)" by (rule of_nat_0_le_iff)
  then have "\<bar>of_nat (unat n) :: rat\<bar> \<le> 2 ^ 128" using unat_u64_bound [of n] by (simp only: abs_of_nonneg) simp
  then show ?thesis unfolding dbl_of_u64_def by (rule to_double_small)
qed

lemma dbl_of_u64_exact:
  assumes "unat n \<le> 2 ^ 53"
  shows "dbl_of_u64 n = Finite (of_nat (unat n))"
proof -
  have "\<bar>int (unat n)\<bar> \<le> 2 ^ 53" using of_nat_mono [OF assms, where ?'a = int] by (simp only: abs_of_nat) simp
  from representable_of_int [OF this] have "representable (of_nat (unat n))" by (simp only: of_int_of_nat_eq)
  then show ?thesis by (simp only: dbl_of_u64_eq round_binary64_exact)
qed

lemma sint_i64_bound: "\<bar>of_int (sint n)\<bar> \<le> (2 :: rat) ^ 63" for n :: i64
proof -
  have "- (2 ^ 63) \<le> sint n" "sint n < 2 ^ 63" using sint_ge [of n] sint_lt [of n] by simp_all
  then have "of_int (- (2 ^ 63)) \<le> (of_int (sint n) :: rat)" "of_int (sint n) < (of_int (2 ^ 63) :: rat)"
    by (simp_all only: of_int_le_iff of_int_less_iff)
  then show ?thesis by (simp add: abs_le_iff)
qed

lemma dbl_of_i64_eq: "dbl_of_i64 n = Finite (round_binary64 (of_int (sint n)))"
  unfolding dbl_of_i64_def using sint_i64_bound [of n] by (intro to_double_small) simp

text \<open>The relative error of a rounding is that of one unit in the 53rd place; also at zero.\<close>

lemma round_binary64_relative:
  assumes "q = 0 \<or> 2 powi (- 1022) \<le> \<bar>q\<bar>"
  shows "\<bar>round_binary64 q - q\<bar> \<le> \<bar>q\<bar> / 2 ^ 53"
  using assms round_binary64_error [of q] by auto

lemma int_not_tiny: "k = 0 \<or> 2 powi (- 1022) \<le> \<bar>of_int k :: rat\<bar>"
proof (cases "k = 0")
  case False
  have "(2 :: rat) powi (- 1022) \<le> 2 powi 0" by (rule power_int_increasing) simp_all
  moreover have "(1 :: rat) \<le> of_int \<bar>k\<bar>" using False by simp
  ultimately show ?thesis by simp
qed simp

text \<open>A finite number of the format: 53 significant bits, magnitude below \<open>2\<^sup>1\<^sup>0\<^sup>2\<^sup>4\<close>.\<close>

definition is_number :: "double \<Rightarrow> bool" where
  "is_number x \<longleftrightarrow> (\<exists>q. x = Finite q \<and> representable q \<and> \<bar>q\<bar> < 2 powi 1024)"

lemma number_simps [simp]: "is_number (Finite 0)" "\<not> is_number PosInf" "\<not> is_number NegInf" "\<not> is_number NotANumber"
  by (simp_all add: is_number_def)

lemma to_double_range: "to_double q \<in> {Finite (round_binary64 q), PosInf, NegInf}"
  by (simp add: to_double_def Let_def)

lemma to_double_number: "to_double q = Finite r \<Longrightarrow> is_number (Finite r)"
proof -
  assume "to_double q = Finite r"
  then have r: "r = round_binary64 q" "r = 0 \<or> ilog2 \<bar>r\<bar> < 1024" by (auto simp: to_double_def Let_def split: if_splits)
  have "\<bar>r\<bar> < 2 powi 1024" if "r \<noteq> 0"
  proof -
    have "\<bar>r\<bar> < 2 powi (ilog2 \<bar>r\<bar> + 1)" using that by (intro ilog2_bounds) simp
    also have "(2 :: rat) powi (ilog2 \<bar>r\<bar> + 1) \<le> 2 powi 1024" using r(2) that by (intro power_int_increasing) simp_all
    finally show ?thesis .
  qed
  then show ?thesis using round_binary64_representable [of q] r(1) by (cases "r = 0") (simp_all add: is_number_def)
qed

lemma rounded_number: "\<bar>q\<bar> \<le> 2 ^ 128 \<Longrightarrow> is_number (Finite (round_binary64 q))"
  using to_double_number [of q] by (simp add: to_double_small)

end
