(* ===== verification/Format_Numbers.thy ===== *)
theory Format_Numbers
  imports Byte_Size Binary64
begin

text \<open>
  Numbers with a fraction in reports: \<^verbatim>\<open>format_bytes\<close> and \<^verbatim>\<open>format_duration_ns\<close> of
  \<^verbatim>\<open>common/src/byte_size.cpp\<close>, over the fixed-point output of \<^verbatim>\<open>std::format\<close>, which rounds the exact
  value of the number to the digits asked for. The lemmas read the text back and bound the
  distance between what is printed and what is meant, with the roundings of the arithmetic
  included.
\<close>

section \<open>Fixed-point output\<close>

text \<open>\<^verbatim>\<open>{:.pf}\<close>: the digits of a non-negative number, and the text of a double.\<close>

definition zero_pad :: "nat \<Rightarrow> string \<Rightarrow> string" where
  "zero_pad p s = replicate (p - length s) (CHR ''0'') @ s"

definition fixed_digits :: "nat \<Rightarrow> rat \<Rightarrow> string" where
  "fixed_digits p q =
     (let k = nat (rne (q * 10 ^ p))
      in if p = 0 then show_nat k else show_nat (k div 10 ^ p) @ ''.'' @ zero_pad p (show_nat (k mod 10 ^ p)))"

fun format_fixed :: "nat \<Rightarrow> double \<Rightarrow> string" where
  "format_fixed p (Finite q) = (if q < 0 then ''-'' @ fixed_digits p (- q) else fixed_digits p q)"
| "format_fixed p PosInf = ''inf''"
| "format_fixed p NegInf = ''-inf''"
| "format_fixed p NotANumber = ''nan''"

section \<open>Bytes and durations\<close>

definition kUnits :: "string list" where
  "kUnits = [''B'', ''KiB'', ''MiB'', ''GiB'', ''TiB'', ''PiB'']"

definition dbl_le :: "double \<Rightarrow> double \<Rightarrow> bool" where
  "dbl_le x y \<longleftrightarrow> dbl_less x y \<or> (x = y \<and> x \<noteq> NotANumber)"

function format_bytes_loop :: "double \<Rightarrow> nat \<Rightarrow> double \<times> nat" where
  "format_bytes_loop bytes unit =
     (if dbl_le (Finite 1024) bytes \<and> unit + 1 < length kUnits
      then format_bytes_loop (dbl_div bytes (Finite 1024)) (unit + 1) else (bytes, unit))"
  by pat_completeness auto
termination by (relation "measure (\<lambda>(bytes, unit). length kUnits - unit)") auto

declare format_bytes_loop.simps [simp del]

definition format_bytes :: "double \<Rightarrow> string" where
  "format_bytes bytes =
     (let (bytes, unit) = format_bytes_loop bytes 0
      in if unit = 0 then format_fixed 0 bytes @ '' B'' else format_fixed 2 bytes @ '' '' @ kUnits ! unit)"

definition format_duration_ns :: "i64 \<Rightarrow> string" where
  "format_duration_ns nanoseconds =
     (let ns = dbl_of_i64 nanoseconds; abs_ns = dbl_abs ns
      in if dbl_less abs_ns (Finite 1000) then format_fixed 0 ns @ '' ns''
         else if dbl_less abs_ns (Finite 1000000) then format_fixed 1 (dbl_div ns (Finite 1000)) @ '' us''
         else if dbl_less abs_ns (Finite 1000000000) then format_fixed 1 (dbl_div ns (Finite 1000000)) @ '' ms''
         else format_fixed 2 (dbl_div ns (Finite 1000000000)) @ '' s'')"

section \<open>Reading a fixed-point number\<close>

definition decimal_value :: "string \<Rightarrow> rat" where
  "decimal_value s =
     (let whole = takeWhile (\<lambda>c. c \<noteq> CHR ''.'') s; part = drop 1 (dropWhile (\<lambda>c. c \<noteq> CHR ''.'') s)
      in of_nat (decimal (whole @ part)) / 10 ^ length part)"

definition signed_value :: "string \<Rightarrow> rat" where
  "signed_value s = (if take 1 s = ''-'' then - decimal_value (drop 1 s) else decimal_value s)"

lemma decimal_append: "decimal (as @ bs) = decimal as * 10 ^ length bs + decimal bs"
proof (induction bs rule: rev_induct)
  case (snoc b bs)
  then show ?case by (simp add: algebra_simps flip: append_assoc)
qed (simp add: decimal_def)

lemma decimal_zeros [simp]: "decimal (replicate n (CHR ''0'')) = 0"
proof (induction n)
  case (Suc n)
  have "decimal (replicate n (CHR ''0'') @ [CHR ''0'']) = 0" using Suc by (simp add: digit_value_def)
  then show ?case by (simp add: replicate_append_same)
qed (simp add: decimal_def)

lemma decimal_zero_pad [simp]: "decimal (zero_pad p s) = decimal s"
  by (simp add: zero_pad_def decimal_append)

lemma length_show_nat: "0 < p \<Longrightarrow> n < 10 ^ p \<Longrightarrow> length (show_nat n) \<le> p"
proof (induction n arbitrary: p rule: show_nat.induct)
  case (1 n)
  show ?case
  proof (cases "n < 10")
    case True
    then show ?thesis using 1 by (subst show_nat.simps) simp
  next
    case False
    then obtain p' where p: "p = Suc p'" "0 < p'" using 1 by (cases p; cases "p - 1") auto
    then have "n div 10 < 10 ^ p'" using 1(3) by simp
    then have "length (show_nat (n div 10)) \<le> p'" using 1 False p by simp
    then show ?thesis using False p by (subst show_nat.simps) simp
  qed
qed

lemma length_zero_pad: "length s \<le> p \<Longrightarrow> length (zero_pad p s) = p"
  by (simp add: zero_pad_def)

lemma digits_no_point: "c \<in> set (show_nat n) \<Longrightarrow> c \<noteq> CHR ''.'' \<and> c \<noteq> CHR ''-''"
  using show_nat_digits [of n] by (auto simp: list_all_iff isdigit_def)

lemma decimal_value_point:
  assumes "\<And>c. c \<in> set whole \<Longrightarrow> c \<noteq> CHR ''.''"
  shows "decimal_value whole = of_nat (decimal whole)"
    and "decimal_value (whole @ ''.'' @ part) = of_nat (decimal (whole @ part)) / 10 ^ length part"
proof -
  have "takeWhile (\<lambda>c. c \<noteq> CHR ''.'') whole = whole" "dropWhile (\<lambda>c. c \<noteq> CHR ''.'') whole = []" using assms by auto
  then show "decimal_value whole = of_nat (decimal whole)" by (simp only: decimal_value_def Let_def) simp
  have "takeWhile (\<lambda>c. c \<noteq> CHR ''.'') (whole @ ''.'' @ part) = whole"
    "dropWhile (\<lambda>c. c \<noteq> CHR ''.'') (whole @ ''.'' @ part) = ''.'' @ part" using assms by (auto simp: takeWhile_append2 dropWhile_append2)
  then show "decimal_value (whole @ ''.'' @ part) = of_nat (decimal (whole @ part)) / 10 ^ length part"
    by (simp only: decimal_value_def Let_def) simp
qed

lemma decimal_value_digits: "decimal_value (fixed_digits p q) = of_nat (nat (rne (q * 10 ^ p))) / 10 ^ p"
proof -
  define k where "k = nat (rne (q * 10 ^ p))"
  let ?part = "zero_pad p (show_nat (k mod 10 ^ p))"
  have fixed: "fixed_digits p q = (if p = 0 then show_nat k else show_nat (k div 10 ^ p) @ ''.'' @ ?part)"
    by (simp add: fixed_digits_def k_def Let_def)
  have "decimal (show_nat (k div 10 ^ p) @ ?part) = k" "length ?part = p" if "p \<noteq> 0"
  proof -
    show len: "length ?part = p" using that by (intro length_zero_pad length_show_nat) auto
    show "decimal (show_nat (k div 10 ^ p) @ ?part) = k"
      by (simp only: decimal_append len decimal_zero_pad decimal_show_nat div_mult_mod_eq)
  qed
  then have "decimal_value (fixed_digits p q) = of_nat k / 10 ^ p"
    unfolding fixed using digits_no_point by (cases "p = 0") (simp_all add: decimal_value_point del: append.simps)
  then show ?thesis by (simp add: k_def)
qed

lemma fixed_digits_hd: "take (Suc 0) (fixed_digits p q) \<noteq> ''-''"
proof -
  have "take (Suc 0) (show_nat k @ t) \<noteq> ''-''" for k t
    using digits_no_point [of _ k] by (cases "show_nat k") auto
  from this [of _ "[]"] this show ?thesis by (simp add: fixed_digits_def Let_def)
qed

text \<open>What is printed differs from the number by at most half a unit of the last digit.\<close>

lemma format_fixed_accurate: "\<bar>signed_value (format_fixed p (Finite q)) - q\<bar> \<le> 1 / (2 * 10 ^ p)"
proof -
  have pos: "\<bar>decimal_value (fixed_digits p r) - r\<bar> \<le> 1 / (2 * 10 ^ p)" if "0 \<le> r" for r
  proof -
    let ?k = "rne (r * 10 ^ p)"
    have "0 \<le> ?k" using that by (intro rne_ge) simp
    then have "decimal_value (fixed_digits p r) - r = (of_int ?k - r * 10 ^ p) / 10 ^ p"
      by (simp add: decimal_value_digits diff_divide_distrib)
    moreover have "\<bar>of_int ?k - r * 10 ^ p\<bar> \<le> 1 / 2" by (rule rne_error)
    ultimately show ?thesis by (simp add: abs_divide divide_le_eq)
  qed
  show ?thesis
  proof (cases "q < 0")
    case True
    then show ?thesis using pos [of "- q"] by (simp add: signed_value_def abs_minus_commute)
  next
    case False
    then show ?thesis using pos [of q] by (simp add: signed_value_def fixed_digits_hd)
  qed
qed

lemma format_fixed_nat: "format_fixed 0 (Finite (of_nat k)) = show_nat k"
  using rne_of_int [of "int k"] by (simp add: fixed_digits_def)

lemma signed_value_nat: "signed_value (show_nat k) = of_nat k"
proof -
  have digits: "show_nat k = fixed_digits 0 (of_nat k)" using format_fixed_nat [of k] by simp
  then have "decimal_value (show_nat k) = of_nat k"
    using rne_of_int [of "int k"] by (simp only: decimal_value_digits) simp
  then show ?thesis using fixed_digits_hd [of 0 "of_nat k"] by (simp add: signed_value_def flip: digits)
qed

lemma signed_value_int: "signed_value (format_fixed 0 (Finite (of_int x))) = of_int x"
proof (cases "x < 0")
  case True
  have "decimal_value (fixed_digits 0 (of_int (- x))) = of_int (- x)"
    using True by (simp add: decimal_value_digits flip: of_int_minus)
  then show ?thesis using True by (simp add: signed_value_def)
next
  case False
  have "decimal_value (fixed_digits 0 (of_int x)) = of_int x"
    using False by (simp add: decimal_value_digits)
  then show ?thesis using False fixed_digits_hd [of 0 "of_int x"] by (simp add: signed_value_def)
qed

section \<open>Units\<close>

definition duration_unit :: "int \<Rightarrow> string \<times> rat" where
  "duration_unit x =
     (if \<bar>x\<bar> < 1000 then (''ns'', 1) else if \<bar>x\<bar> < 1000000 then (''us'', 1000)
      else if \<bar>x\<bar> < 1000000000 then (''ms'', 1000000) else (''s'', 1000000000))"

lemma representable_div1024:
  assumes "representable x" "1 \<le> \<bar>x\<bar>"
  shows "representable (x / 1024)"
proof -
  obtain m e where x: "x = of_int m * 2 powi e" "\<bar>m\<bar> < 2 ^ 53" "- 1074 \<le> e"
    using assms(1) by (auto simp: representable_def)
  have "- 1064 \<le> e"
  proof (rule ccontr)
    assume "\<not> - 1064 \<le> e"
    then have "(2 :: rat) powi e \<le> 2 powi (- 53)" by (intro power_int_increasing) simp_all
    moreover have "of_int \<bar>m\<bar> < (of_int (2 ^ 53) :: rat)" using x(2) by (simp only: of_int_less_iff)
    ultimately have "of_int \<bar>m\<bar> * 2 powi e < of_int (2 ^ 53) * (2 :: rat) powi (- 53)"
      by (intro mult_less_le_imp_less) simp_all
    also have "of_int (2 ^ 53) * (2 :: rat) powi (- 53) = 1" by (simp add: power_int_minus power_int_numeral)
    finally show False using assms(2) by (simp add: x(1) abs_mult)
  qed
  moreover have "x / 1024 = of_int m * 2 powi (e - 10)" by (simp add: x(1) power_int_diff)
  ultimately show ?thesis using representableI [OF x(2), of "e - 10"] by simp
qed

lemma dbl_div_1024:
  assumes "representable q" "1024 \<le> q" "q \<le> 2 ^ 128"
  shows "dbl_div (Finite q) (Finite 1024) = Finite (q / 1024)"
  using assms representable_div1024 [of q] to_double_small [of "q / 1024"] by (simp add: round_binary64_exact)

lemma format_bytes_loop_divides:
  assumes "representable q" "0 \<le> q" "q \<le> 2 ^ 128" "u < 6"
  shows "\<exists>j. format_bytes_loop (Finite q) u = (Finite (q / 1024 ^ j), u + j) \<and> u + j < 6 \<and>
    (j = 0 \<or> 1024 ^ j \<le> q) \<and> (u + j = 5 \<or> q < 1024 ^ Suc j)"
  using assms
proof (induction "5 - u" arbitrary: u q)
  case 0
  then show ?case by (intro exI [of _ 0]) (simp add: format_bytes_loop.simps kUnits_def)
next
  case (Suc n)
  show ?case
  proof (cases "1024 \<le> q")
    case True
    have "\<exists>j. format_bytes_loop (Finite (q / 1024)) (u + 1) = (Finite (q / 1024 / 1024 ^ j), u + 1 + j) \<and> u + 1 + j < 6 \<and>
        (j = 0 \<or> 1024 ^ j \<le> q / 1024) \<and> (u + 1 + j = 5 \<or> q / 1024 < 1024 ^ Suc j)"
      using Suc.prems Suc.hyps(2) True representable_div1024 [of q] by (intro Suc.hyps(1)) simp_all
    then obtain j where j: "format_bytes_loop (Finite (q / 1024)) (u + 1) = (Finite (q / 1024 ^ Suc j), u + Suc j)" "u + Suc j < 6"
      "j = 0 \<or> 1024 ^ j \<le> q / 1024" "u + Suc j = 5 \<or> q / 1024 < 1024 ^ Suc j" by auto
    have "format_bytes_loop (Finite q) u = format_bytes_loop (Finite (q / 1024)) (u + 1)"
      using True Suc.hyps(2) dbl_div_1024 [of q] Suc.prems
      by (subst format_bytes_loop.simps) (auto simp: dbl_le_def kUnits_def)
    then show ?thesis using j True by (intro exI [of _ "Suc j"]) (auto simp: field_simps)
  next
    case False
    then show ?thesis
      using Suc.prems by (intro exI [of _ 0]) (auto simp: format_bytes_loop.simps dbl_le_def)
  qed
qed

lemma scaled_error: "\<bar>t - v\<bar> \<le> e \<Longrightarrow> 0 \<le> c \<Longrightarrow> \<bar>t * c - v * c\<bar> \<le> e * c" for t v e c :: rat
  using mult_right_mono [of "\<bar>t - v\<bar>" e c] by (simp add: abs_mult flip: left_diff_distrib)

text \<open>An integer as a double: its relative error, and comparisons with integers of the format.\<close>

lemma int_round:
  fixes x k :: int
  defines "r \<equiv> round_binary64 (of_int x)"
  shows "\<bar>r - of_int x\<bar> \<le> \<bar>of_int x\<bar> / 2 ^ 53"
    and "\<bar>k\<bar> \<le> 2 ^ 53 \<Longrightarrow> of_int k \<le> \<bar>r\<bar> \<longleftrightarrow> k \<le> \<bar>x\<bar>"
proof -
  show "\<bar>r - of_int x\<bar> \<le> \<bar>of_int x\<bar> / 2 ^ 53"
    unfolding r_def using int_not_tiny [of x] by (intro round_binary64_relative) simp
  have r: "\<bar>r\<bar> = round_binary64 (of_int \<bar>x\<bar>)"
    using round_binary64_sign [of "of_int x"] round_binary64_minus [of "of_int x"] by (cases "0 \<le> x") (simp_all add: r_def)
  show "of_int k \<le> \<bar>r\<bar> \<longleftrightarrow> k \<le> \<bar>x\<bar>" if k: "\<bar>k\<bar> \<le> 2 ^ 53"
  proof (cases "k \<le> \<bar>x\<bar>")
    case True
    then show ?thesis
      unfolding r using round_binary64_ge [OF representable_of_int [OF k], of "of_int \<bar>x\<bar>"] by (simp only: of_int_le_iff)
  next
    case False
    then have "\<bar>r\<bar> = of_int \<bar>x\<bar>" unfolding r using k by (intro round_binary64_exact representable_of_int) linarith
    then show ?thesis using False by (simp only: of_int_le_iff)
  qed
qed

lemma u64_round:
  fixes n :: u64
  defines "r \<equiv> round_binary64 (of_nat (unat n))"
  shows "representable r" "0 \<le> r" "r \<le> 2 ^ 64" "\<bar>r - of_nat (unat n)\<bar> \<le> of_nat (unat n) / 2 ^ 53"
    "k \<le> 2 ^ 53 \<Longrightarrow> of_nat k \<le> r \<longleftrightarrow> k \<le> unat n"
proof -
  have nonneg: "(0 :: rat) \<le> of_nat (unat n)" by (rule of_nat_0_le_iff)
  show "representable r" unfolding r_def by (rule round_binary64_representable)
  show pos: "0 \<le> r" unfolding r_def by (rule round_binary64_sign(1) [OF nonneg])
  have "representable (2 ^ 64 :: rat)" using representable_power [of 64] by (simp add: power_int_numeral)
  then show "r \<le> 2 ^ 64" unfolding r_def by (rule round_binary64_le [OF _ order_less_imp_le [OF unat_u64_bound]])
  note int = int_round [where x = "int (unat n)", unfolded of_int_of_nat_eq abs_of_nat, folded r_def]
  show "\<bar>r - of_nat (unat n)\<bar> \<le> of_nat (unat n) / 2 ^ 53" by (rule int(1))
  show "of_nat k \<le> r \<longleftrightarrow> k \<le> unat n" if "k \<le> 2 ^ 53"
  proof -
    have "\<bar>int k\<bar> \<le> 2 ^ 53" using of_nat_mono [OF that, where ?'a = int] by simp
    from int(2) [OF this] show ?thesis using pos by (simp only: of_int_of_nat_eq abs_of_nonneg of_nat_le_iff)
  qed
qed

text \<open>A rounded integer divided by a unit it is not below, rounded again.\<close>

lemma two_roundings:
  fixes a b d m x :: rat
  assumes "a \<le> m / 2 ^ 53" "b \<le> x / 2 ^ 53" "d \<le> a + b" "m \<le> x + b" "0 \<le> x"
  shows "d \<le> x / 2 ^ 51"
  using assms by simp

lemma divide_round:
  fixes x :: int and c :: rat
  defines "r \<equiv> round_binary64 (of_int x)"
  assumes "1 \<le> c" "c \<le> \<bar>r\<bar>"
  shows "\<bar>round_binary64 (r / c) * c - of_int x\<bar> \<le> \<bar>of_int x\<bar> / 2 ^ 51"
proof -
  have "(2 :: rat) powi (- 1022) \<le> 2 powi 0" by (rule power_int_increasing) simp_all
  also have "\<dots> \<le> \<bar>r / c\<bar>" using assms(2,3) by (simp add: abs_divide)
  finally have "\<bar>round_binary64 (r / c) - r / c\<bar> \<le> \<bar>r / c\<bar> / 2 ^ 53" by (rule round_binary64_error)
  from scaled_error [OF this, of c] have "\<bar>round_binary64 (r / c) * c - r\<bar> \<le> \<bar>r\<bar> / 2 ^ 53"
    using assms(2) by (simp add: abs_divide)
  moreover have "\<bar>r - of_int x\<bar> \<le> \<bar>of_int x\<bar> / 2 ^ 53" unfolding r_def by (rule int_round(1))
  moreover have "\<bar>round_binary64 (r / c) * c - of_int x\<bar> \<le> \<bar>round_binary64 (r / c) * c - r\<bar> + \<bar>r - of_int x\<bar>"
    "\<bar>r\<bar> \<le> \<bar>of_int x\<bar> + \<bar>r - of_int x\<bar>" by linarith+
  ultimately show ?thesis by (rule two_roundings) simp_all
qed

section \<open>Properties\<close>

text \<open>
  C31: a byte count is printed with the largest unit of B to PiB that does not exceed it (as the text
  of the count itself below one KiB), and the number printed, times the unit, differs from the
  count by at most half of the second decimal of the unit plus a relative error of \<open>2\<^sup>-\<^sup>5\<^sup>3\<close>: the
  repeated division by 1024 loses nothing.
\<close>

theorem format_bytes_accurate:
  "\<exists>shown u. format_bytes (dbl_of_u64 n) = shown @ '' '' @ kUnits ! u \<and> u < 6 \<and>
     (u = 0 \<or> 1024 ^ u \<le> unat n) \<and> (u = 5 \<or> unat n < 1024 ^ Suc u) \<and>
     (0 < u \<or> shown = show_nat (unat n)) \<and>
     \<bar>signed_value shown * 1024 ^ u - of_nat (unat n)\<bar> \<le> 1024 ^ u / 200 + of_nat (unat n) / 2 ^ 53"
proof -
  define r where "r = round_binary64 (of_nat (unat n))"
  note r = u64_round [where n = n, folded r_def]
  have "r \<le> 2 ^ 128" using r(3) by simp
  then obtain j where j: "format_bytes_loop (Finite r) 0 = (Finite (r / 1024 ^ j), j)" "j < 6"
    "j = 0 \<or> 1024 ^ j \<le> r" "j = 5 \<or> r < 1024 ^ Suc j"
    using format_bytes_loop_divides [OF r(1,2), of 0] by auto
  have unit: "1024 ^ u \<le> r \<longleftrightarrow> 1024 ^ u \<le> unat n" if "u \<le> 5" for u :: nat
  proof -
    have "(1024 :: nat) ^ u \<le> 1024 ^ 5" using that by (intro power_increasing) simp_all
    then show ?thesis using r(5) [of "1024 ^ u"] by simp
  qed
  define shown where "shown = format_fixed (if j = 0 then 0 else 2) (Finite (r / 1024 ^ j))"
  have exact: "r = of_nat (unat n)" "shown = show_nat (unat n)" if "j = 0"
  proof -
    have "unat n < 1024" using that j(4) r(5) [of 1024] by simp
    then show "r = of_nat (unat n)" using dbl_of_u64_exact [of n] dbl_of_u64_eq [of n] by (simp add: r_def)
    then show "shown = show_nat (unat n)" unfolding shown_def using that format_fixed_nat [of "unat n"] by (simp del: format_fixed.simps)
  qed
  have accurate: "\<bar>signed_value shown * 1024 ^ j - of_nat (unat n)\<bar> \<le> 1024 ^ j / 200 + of_nat (unat n) / 2 ^ 53"
  proof (cases "j = 0")
    case True
    then have "signed_value shown * 1024 ^ j - of_nat (unat n) = 0" using exact(2) by (simp only: signed_value_nat) simp
    moreover have "0 \<le> 1024 ^ j / 200 + (of_nat (unat n) / 2 ^ 53 :: rat)"
      by (intro add_nonneg_nonneg divide_nonneg_nonneg of_nat_0_le_iff) simp_all
    ultimately show ?thesis by (simp only: abs_zero)
  next
    case False
    then have "\<bar>signed_value shown - r / 1024 ^ j\<bar> \<le> 1 / 200"
      unfolding shown_def using format_fixed_accurate [of 2 "r / 1024 ^ j"] by (simp del: format_fixed.simps)
    from scaled_error [OF this, of "1024 ^ j"] have "\<bar>signed_value shown * 1024 ^ j - r\<bar> \<le> 1024 ^ j / 200" by simp
    then show ?thesis using r(4) by linarith
  qed
  show ?thesis
  proof (intro exI conjI)
    show "format_bytes (dbl_of_u64 n) = shown @ '' '' @ kUnits ! j"
      unfolding dbl_of_u64_eq r_def [symmetric] shown_def format_bytes_def j(1) by (simp add: kUnits_def del: format_fixed.simps)
    show "j = 0 \<or> 1024 ^ j \<le> unat n" using j(2,3) unit [of j] by auto
    show "j = 5 \<or> unat n < 1024 ^ Suc j" using j(2,4) unit [of "Suc j"] by (auto simp: not_le [symmetric])
    show "0 < j \<or> shown = show_nat (unat n)" using exact(2) by blast
  qed (fact j(2) accurate)+
qed

text \<open>
  A duration is printed in ns, us, ms or s, the largest unit its magnitude reaches, and the number
  printed, times the unit, differs from the duration by at most half of the first decimal of the
  unit plus a relative error of \<open>2\<^sup>-\<^sup>5\<^sup>1\<close>; negative durations keep their sign.
\<close>

lemma format_duration_accurate:
  "\<exists>shown. format_duration_ns ns = shown @ '' '' @ fst (duration_unit (sint ns)) \<and>
     \<bar>signed_value shown * snd (duration_unit (sint ns)) - of_int (sint ns)\<bar>
       \<le> snd (duration_unit (sint ns)) / 20 + \<bar>of_int (sint ns)\<bar> / 2 ^ 51"
proof -
  define x where "x = sint ns"
  define r where "r = round_binary64 (of_int x)"
  have dbl: "dbl_of_i64 ns = Finite r" "\<bar>r\<bar> \<le> 2 ^ 63"
    using sint_i64_bound [of ns] round_binary64_bound [of "2 ^ 63" "of_int (sint ns)"] representable_power [of 63]
    by (simp_all add: dbl_of_i64_eq r_def x_def power_int_numeral)
  have less: "\<bar>r\<bar> < 1000 \<longleftrightarrow> \<bar>x\<bar> < 1000" "\<bar>r\<bar> < 1000000 \<longleftrightarrow> \<bar>x\<bar> < 1000000"
    "\<bar>r\<bar> < 1000000000 \<longleftrightarrow> \<bar>x\<bar> < 1000000000"
    using int_round(2) [of 1000 x] int_round(2) [of 1000000 x] int_round(2) [of 1000000000 x]
    unfolding r_def by (simp_all add: not_le [symmetric])
  have div: "dbl_div (Finite r) (Finite c) = Finite (round_binary64 (r / c))" if "1 \<le> c" for c
  proof -
    have "\<bar>r / c\<bar> \<le> \<bar>r\<bar>" using that by (simp add: abs_divide divide_le_eq mult_le_cancel_left1)
    then show ?thesis using that dbl(2) by (simp add: to_double_small)
  qed
  have scaled: "\<bar>signed_value (format_fixed p (Finite (round_binary64 (r / c)))) * c - of_int x\<bar> \<le> c / 20 + \<bar>of_int x\<bar> / 2 ^ 51"
    if "1 \<le> p" "1 \<le> c" "c \<le> \<bar>r\<bar>" for p c
  proof -
    have "(10 :: rat) ^ 1 \<le> 10 ^ p" using that(1) by (intro power_increasing) simp_all
    then have "1 / (2 * 10 ^ p) \<le> (1 / 20 :: rat)" by (simp add: field_simps)
    then have "\<bar>signed_value (format_fixed p (Finite (round_binary64 (r / c)))) - round_binary64 (r / c)\<bar> \<le> 1 / 20"
      using format_fixed_accurate [of p "round_binary64 (r / c)"] by linarith
    from scaled_error [OF this, of c] divide_round [of c x] that show ?thesis unfolding r_def by linarith
  qed
  have small: "\<bar>signed_value (format_fixed 0 (Finite r)) - of_int x\<bar> \<le> 1 / 20 + \<bar>of_int x\<bar> / 2 ^ 51" if "\<bar>x\<bar> < 1000"
  proof -
    have r: "r = of_int x" unfolding r_def using that by (intro round_binary64_exact representable_of_int) simp
    then show ?thesis by (simp add: signed_value_int del: format_fixed.simps)
  qed
  consider "\<bar>x\<bar> < 1000" | "1000 \<le> \<bar>x\<bar>" "\<bar>x\<bar> < 1000000" | "1000000 \<le> \<bar>x\<bar>" "\<bar>x\<bar> < 1000000000" | "1000000000 \<le> \<bar>x\<bar>"
    by linarith
  then show ?thesis
    unfolding format_duration_ns_def dbl(1) x_def [symmetric]
    by cases (use less small scaled [of 1 1000] scaled [of 1 1000000] scaled [of 2 1000000000] in
      \<open>auto simp: Let_def div duration_unit_def not_less simp del: format_fixed.simps dbl_div.simps\<close>)
qed

end
