(* ===== verification/Rates.thy ===== *)
theory Rates
  imports Format_Numbers Consumer_Stats Shm_Transport
begin

text \<open>
  The floating-point parts of the statistics and of the pacing: the rates of a \<^verbatim>\<open>RateSample\<close> and the
  clock text of \<^verbatim>\<open>common/src/stats.cpp\<close>, the fill ratio of \<^verbatim>\<open>common/include/pc/transport.hpp\<close>, the
  average of \<^verbatim>\<open>consumer/consumer_stats.hpp\<close> and the interval of \<^verbatim>\<open>producer/rate_limiter.cpp\<close>. The lemmas
  bound each of them by the exact quotient, and give the rates for which the interval does not
  exist.
\<close>

section \<open>Rates, averages and ratios\<close>

definition RateSample_seconds :: "RateSample \<Rightarrow> double" where
  "RateSample_seconds s = dbl_div (to_double (of_int (rs_elapsed s))) (Finite 1000000000)"

definition packets_per_second :: "RateSample \<Rightarrow> double" where
  "packets_per_second sample =
     (let s = RateSample_seconds sample
      in if dbl_less (Finite 0) s then dbl_div (dbl_of_u64 (rs_packets sample)) s else Finite 0)"

definition bytes_per_second :: "RateSample \<Rightarrow> double" where
  "bytes_per_second sample =
     (let s = RateSample_seconds sample
      in if dbl_less (Finite 0) s then dbl_div (dbl_of_u64 (rs_bytes sample)) s else Finite 0)"

definition fill_ratio :: "QueueStatus \<Rightarrow> double" where
  "fill_ratio q =
     (if qs_capacity_bytes q = 0 then Finite 0
      else dbl_div (dbl_of_u64 (qs_used_bytes q)) (dbl_of_u64 (qs_capacity_bytes q)))"

definition LatencySample_is_empty :: "LatencySample \<Rightarrow> bool" where
  "LatencySample_is_empty l \<longleftrightarrow> ls_count l = 0"

definition average_ns :: "LatencySample \<Rightarrow> double" where
  "average_ns l = (if ls_count l = 0 then Finite 0 else dbl_div (dbl_of_i64 (ls_sum_ns l)) (dbl_of_u64 (ls_count l)))"

section \<open>Local time\<close>

text \<open>
  The fields of the \<^verbatim>\<open>std::tm\<close> that \<^verbatim>\<open>localtime_r\<close> fills in for the current time, and
  \<^verbatim>\<open>strftime\<close> with \<^verbatim>\<open>%H:%M:%S\<close>; the result of eight characters fits the buffer of sixteen.
\<close>

record tm =
  tm_hour :: nat
  tm_min :: nat
  tm_sec :: nat

definition local_time_hms :: "tm \<Rightarrow> string" where
  "local_time_hms t =
     zero_pad 2 (show_nat (tm_hour t)) @ '':'' @ zero_pad 2 (show_nat (tm_min t)) @ '':'' @ zero_pad 2 (show_nat (tm_sec t))"

section \<open>The interval of a rate\<close>

text \<open>
  The constructor of \<^verbatim>\<open>RateLimiter\<close>: \<^verbatim>\<open>duration_cast\<close> multiplies the seconds by a billion and converts to a
  64-bit integer. None is a conversion that is undefined.
\<close>

definition cast_interval :: "double \<Rightarrow> int option" where
  "cast_interval rate = dbl_to_int (- (2 ^ 63)) (2 ^ 63 - 1) (dbl_mul (dbl_div (Finite 1) rate) (Finite 1000000000))"

definition RateLimiter_of_rate :: "double \<Rightarrow> int \<Rightarrow> RateLimiter option" where
  "RateLimiter_of_rate rate now =
     (if dbl_less (Finite 0) rate
      then (case cast_interval rate of None \<Rightarrow> None | Some i \<Rightarrow> Some (RateLimiter_new (Some i) now))
      else Some (RateLimiter_new None now))"

section \<open>Quotients\<close>

lemma one_not_tiny: "1 \<le> \<bar>q\<bar> \<Longrightarrow> 2 powi (- 1022) \<le> \<bar>q\<bar>" for q :: rat
proof -
  have "(2 :: rat) powi (- 1022) \<le> 2 powi 0" by (rule power_int_increasing) simp_all
  then show "1 \<le> \<bar>q\<bar> \<Longrightarrow> 2 powi (- 1022) \<le> \<bar>q\<bar>" by simp
qed

lemma small_not_tiny: "1 / 2 ^ 70 \<le> \<bar>q\<bar> \<Longrightarrow> 2 powi (- 1022) \<le> \<bar>q\<bar>" for q :: rat
proof -
  have "(2 :: rat) powi (- 1022) \<le> 2 powi (- 70)" by (rule power_int_increasing) simp_all
  also have "(2 :: rat) powi (- 70) = 1 / 2 ^ 70" by (simp add: power_int_minus power_int_numeral inverse_eq_divide)
  finally show "1 / 2 ^ 70 \<le> \<bar>q\<bar> \<Longrightarrow> 2 powi (- 1022) \<le> \<bar>q\<bar>" by simp
qed

text \<open>A relative error, and how errors of this kind compose.\<close>

definition close :: "rat \<Rightarrow> rat \<Rightarrow> rat \<Rightarrow> bool" where
  "close e q x \<longleftrightarrow> \<bar>q - x\<bar> \<le> e * x"

lemma close_round: "0 \<le> x \<Longrightarrow> x = 0 \<or> 1 / 2 ^ 70 \<le> x \<Longrightarrow> close (1 / 2 ^ 53) (round_binary64 x) x"
  using round_binary64_error [of x] small_not_tiny [of x] by (auto simp: close_def)

lemma close_bounds: "close e q x \<longleftrightarrow> (1 - e) * x \<le> q \<and> q \<le> (1 + e) * x"
  by (auto simp: close_def abs_le_iff algebra_simps)

lemma close_half: "close e q x \<Longrightarrow> 0 \<le> x \<Longrightarrow> e \<le> 1 / 2 \<Longrightarrow> x / 2 \<le> q \<and> q \<le> 2 * x"
  using mult_right_mono [of e "1 / 2" x] by (auto simp: close_def abs_le_iff)

lemma close_trans:
  assumes "close a p q" "close b q x" "0 \<le> x" "0 \<le> a" "a + b + a * b \<le> e"
  shows "close e p x"
proof -
  have "\<bar>p - x\<bar> \<le> \<bar>p - q\<bar> + \<bar>q - x\<bar>" by linarith
  also have "\<dots> \<le> a * q + b * x" using assms(1,2) by (simp add: close_def)
  also have "a * q \<le> a * ((1 + b) * x)" using assms(2,4) by (intro mult_left_mono) (simp_all add: close_bounds)
  also have "a * ((1 + b) * x) + b * x = (a + b + a * b) * x" by (simp add: algebra_simps)
  also have "\<dots> \<le> e * x" using assms(3,5) by (intro mult_right_mono)
  finally show ?thesis by (simp add: close_def)
qed

lemma close_divide:
  assumes "close a p x" "close b q y" "0 \<le> x" "0 < y" "0 \<le> a" "0 \<le> b" "b \<le> 1 / 2"
  shows "close (a + 2 * b + 2 * a * b) (p / q) (x / y)"
proof -
  have q: "(1 - b) * y \<le> q" "q \<le> (1 + b) * y" and p: "(1 - a) * x \<le> p" "p \<le> (1 + a) * x"
    using assms(1,2) by (simp_all add: close_bounds)
  have "1 / 2 * y \<le> (1 - b) * y" using assms(4,7) by (intro mult_right_mono) simp_all
  then have pos: "0 < q" using q(1) assms(4) by linarith
  have "\<bar>p / q - x / y\<bar> = \<bar>(p - x) * y + x * (y - q)\<bar> / (q * y)"
    using pos assms(4) by (simp add: field_simps abs_divide abs_mult)
  also have "\<bar>(p - x) * y + x * (y - q)\<bar> \<le> a * x * y + x * (b * y)"
  proof -
    have "\<bar>(p - x) * y\<bar> \<le> a * x * y" using assms(1,4) by (simp add: close_def abs_mult mult_right_mono)
    moreover have "\<bar>x * (y - q)\<bar> \<le> x * (b * y)"
      using assms(2,3) by (simp add: close_def abs_mult mult_left_mono abs_minus_commute)
    ultimately show ?thesis by linarith
  qed
  then have "\<bar>(p - x) * y + x * (y - q)\<bar> / (q * y) \<le> (a * x * y + x * (b * y)) / (q * y)"
    using pos assms(4) by (intro divide_right_mono) simp_all
  also have "(a * x * y + x * (b * y)) / (q * y) = (a + b) * x * (1 / q)" using pos assms(4) by (simp add: field_simps)
  also have "\<dots> \<le> (a + b) * x * ((1 + 2 * b) / y)"
  proof (intro mult_left_mono)
    have "2 * b * b \<le> 1 * b" using assms(6,7) by (intro mult_right_mono) simp_all
    then have "1 * y \<le> (1 - b) * (1 + 2 * b) * y" using assms(4) by (intro mult_right_mono) (simp_all add: algebra_simps)
    also have "\<dots> = (1 - b) * y * (1 + 2 * b)" by (simp add: mult_ac)
    also have "\<dots> \<le> q * (1 + 2 * b)" using q(1) assms(6) by (intro mult_right_mono) simp_all
    finally show "1 / q \<le> (1 + 2 * b) / y" using pos assms(4) by (simp add: field_simps)
    show "0 \<le> (a + b) * x" using assms(3,5,6) by simp
  qed
  also have "\<dots> = ((a + b) * (1 + 2 * b)) * (x / y)" by simp
  also have "\<dots> \<le> (a + 2 * b + 2 * a * b) * (x / y)"
  proof (intro mult_right_mono)
    have "2 * b * b \<le> 1 * b" using assms(6,7) by (intro mult_right_mono) simp_all
    then show "(a + b) * (1 + 2 * b) \<le> a + 2 * b + 2 * a * b" by (simp add: algebra_simps)
    show "0 \<le> x / y" using assms(3,4) by simp
  qed
  finally show ?thesis by (simp add: close_def)
qed

text \<open>The quotient of two rounded integers, rounded.\<close>

lemma quotient_close:
  assumes "close (1 / 2 ^ 51) p x" "close (1 / 2 ^ 51) q y" "0 \<le> x" "0 < y" "x = 0 \<or> y \<le> 2 ^ 64 * x"
  shows "close (1 / 2 ^ 49) (round_binary64 (p / q)) (x / y)"
proof -
  have exact: "close (1 / 2 ^ 51 + 2 * (1 / 2 ^ 51) + 2 * (1 / 2 ^ 51) * (1 / 2 ^ 51)) (p / q) (x / y)"
    using assms(1-4) by (intro close_divide) simp_all
  have "close (1 / 2 ^ 53) (round_binary64 (p / q)) (p / q)"
  proof (cases "x = 0")
    case True
    then have "p = 0" using assms(1) by (simp add: close_def)
    then show ?thesis by (simp add: close_def)
  next
    case False
    then have x: "0 < x" using assms(3) by simp
    have p: "x / 2 \<le> p" and q: "y / 2 \<le> q" "q \<le> 2 * y"
      using close_half [OF assms(1)] close_half [OF assms(2)] assms(4) x by simp_all
    then have q0: "0 < q" using assms(4) by linarith
    have "y \<le> 2 ^ 64 * x" using assms(5) False by blast
    then have "q \<le> 2 ^ 66 * p" using p q by simp
    also have "\<dots> \<le> 2 ^ 70 * p" using p x by (intro mult_right_mono) simp_all
    finally have "q \<le> 2 ^ 70 * p" .
    then have "1 / 2 ^ 70 \<le> p / q" using q0 by (simp add: field_simps)
    then show ?thesis using p q0 x by (intro close_round) simp_all
  qed
  from close_trans [OF this exact, of "1 / 2 ^ 49"] show ?thesis using assms(3,4) by simp
qed

lemma close_int: "0 \<le> k \<Longrightarrow> close (1 / 2 ^ 53) (round_binary64 (of_int k)) (of_int k)"
  using int_round(1) [of k] by (simp add: close_def)

lemma close_weaken: "close a q x \<Longrightarrow> 0 \<le> x \<Longrightarrow> a \<le> b \<Longrightarrow> close b q x"
  using mult_right_mono [of a b x] by (simp add: close_def)

lemma elapsed_rat: "0 < k \<Longrightarrow> 1 \<le> (of_int k :: rat)" "k < 2 ^ 63 \<Longrightarrow> (of_int k :: rat) < 2 ^ 63"
proof -
  show "1 \<le> (of_int k :: rat)" if "0 < k" using that by simp
  show "(of_int k :: rat) < 2 ^ 63" if "k < 2 ^ 63"
  proof -
    have "(of_int k :: rat) < of_int (2 ^ 63)" using that by (simp only: of_int_less_iff)
    then show ?thesis by simp
  qed
qed

lemma seconds_close:
  assumes "0 < rs_elapsed s" "rs_elapsed s < 2 ^ 63"
  obtains t where "RateSample_seconds s = Finite t" "close (1 / 2 ^ 51) t (of_int (rs_elapsed s) / 1000000000)" "0 < t"
proof -
  let ?e = "of_int (rs_elapsed s) :: rat"
  define r where "r = round_binary64 ?e"
  note e = elapsed_rat(1) [OF assms(1)] elapsed_rat(2) [OF assms(2)]
  have r: "close (1 / 2 ^ 53) r ?e" unfolding r_def using assms(1) by (intro close_int) simp
  then have bounds: "1 / 2 \<le> r" "r \<le> 2 ^ 64" using close_half [OF r] e by simp_all
  define t where "t = round_binary64 (r / 1000000000)"
  have "to_double ?e = Finite r" unfolding r_def using e by (intro to_double_small) simp
  moreover have "to_double (r / 1000000000) = Finite t" unfolding t_def using bounds by (intro to_double_small) simp
  ultimately have "RateSample_seconds s = Finite t" by (simp add: RateSample_seconds_def)
  moreover have "close (1 / 2 ^ 53) t (r / 1000000000)" unfolding t_def using bounds by (intro close_round) simp_all
  moreover have "close (1 / 2 ^ 53) (r / 1000000000) (?e / 1000000000)" using r by (simp add: close_def abs_divide flip: diff_divide_distrib)
  ultimately have close: "RateSample_seconds s = Finite t" "close (1 / 2 ^ 51) t (?e / 1000000000)"
    using e close_trans [of "1 / 2 ^ 53" t "r / 1000000000" "1 / 2 ^ 53" "?e / 1000000000" "1 / 2 ^ 51"] by simp_all
  then have "0 < t" using close_half [OF close(2)] e by simp
  with close show thesis by (rule that)
qed

lemma count_per_second_close:
  assumes "0 < rs_elapsed s" "rs_elapsed s < 2 ^ 63" "RateSample_seconds s = Finite t"
  shows "\<exists>q. dbl_div (dbl_of_u64 n) (Finite t) = Finite q \<and>
    close (1 / 2 ^ 49) q (of_nat (unat n) * 1000000000 / of_int (rs_elapsed s))"
proof -
  let ?n = "of_nat (unat n) :: rat"
  define e :: rat where "e = of_int (rs_elapsed s)"
  have e: "1 \<le> e" "e < 2 ^ 63" unfolding e_def using elapsed_rat assms(1,2) by blast+
  define r where "r = round_binary64 ?n"
  note r = u64_round [where n = n, folded r_def]
  have n: "0 \<le> ?n" by (rule of_nat_0_le_iff)
  have t: "close (1 / 2 ^ 51) t (e / 1000000000)" "0 < t"
    using seconds_close [OF assms(1,2)] assms(3) unfolding e_def by auto
  then have "1 / 2 ^ 32 \<le> t" using close_half [OF t(1)] e by simp
  then have "r / t \<le> 2 ^ 64 / (1 / 2 ^ 32)" using r(2,3) t(2) by (intro frac_le) simp_all
  then have "to_double (r / t) = Finite (round_binary64 (r / t))" using r(2) t(2) by (intro to_double_small) simp
  then have div: "dbl_div (dbl_of_u64 n) (Finite t) = Finite (round_binary64 (r / t))"
    using t(2) by (simp only: dbl_of_u64_eq r_def [symmetric]) simp
  have "close (1 / 2 ^ 53) r ?n" using r(4) by (simp only: close_def) simp
  then have "close (1 / 2 ^ 51) r ?n" using n by (rule close_weaken) simp
  moreover have "?n = 0 \<or> e / 1000000000 \<le> 2 ^ 64 * ?n"
  proof (cases "unat n = 0")
    case False
    then have "1 \<le> unat n" by simp
    then have "of_nat 1 \<le> ?n" by (simp only: of_nat_le_iff)
    moreover have "e / 1000000000 \<le> 2 ^ 64" using e by simp
    ultimately have "e / 1000000000 \<le> 2 ^ 64 * ?n" by simp
    then show ?thesis by (rule disjI2)
  next
    case True
    then have "?n = 0" by (simp only: of_nat_0)
    then show ?thesis by (rule disjI1)
  qed
  ultimately have "close (1 / 2 ^ 49) (round_binary64 (r / t)) (?n / (e / 1000000000))"
    using t(1) n e by (intro quotient_close) simp_all
  then show ?thesis using div by (simp add: e_def)
qed

section \<open>Fill ratio and average\<close>

lemma dbl_div_rounded:
  assumes "\<bar>a\<bar> \<le> 2 ^ 64" "1 \<le> b"
  shows "dbl_div (Finite a) (Finite b) = Finite (round_binary64 (a / b))"
proof -
  have "\<bar>a / b\<bar> \<le> \<bar>a\<bar>" using assms(2) by (simp add: abs_divide divide_le_eq mult_le_cancel_left1)
  then show ?thesis using assms by (simp add: to_double_small)
qed

lemma u64_double_pos: "n \<noteq> 0 \<Longrightarrow> 1 \<le> round_binary64 (of_nat (unat n))" for n :: u64
  using u64_round(5) [of 1 n] by (simp add: Suc_le_eq unat_gt_0)

lemma fill_ratio_bounds:
  assumes "qs_used_bytes q \<le> qs_capacity_bytes q"
  obtains r where "fill_ratio q = Finite r" "0 \<le> r" "r \<le> 1"
proof (cases "qs_capacity_bytes q = 0")
  case True
  then show ?thesis using that [of 0] by (simp add: fill_ratio_def)
next
  case False
  define u where "u = round_binary64 (of_nat (unat (qs_used_bytes q)))"
  define c where "c = round_binary64 (of_nat (unat (qs_capacity_bytes q)))"
  have c: "1 \<le> c" unfolding c_def using False by (rule u64_double_pos)
  have u: "0 \<le> u" "u \<le> 2 ^ 64" unfolding u_def using u64_round(2,3) by blast+
  have "unat (qs_used_bytes q) \<le> unat (qs_capacity_bytes q)" using assms by (simp add: word_le_nat_alt)
  then have "u \<le> c" unfolding u_def c_def by (intro round_binary64_mono) (simp only: of_nat_le_iff)
  then have "0 \<le> u / c" "u / c \<le> 1" using u c by simp_all
  then have "0 \<le> round_binary64 (u / c)" "round_binary64 (u / c) \<le> 1"
    using round_binary64_sign(1) round_binary64_le [of 1 "u / c"] representable_of_int [of 1] by simp_all
  moreover have "fill_ratio q = Finite (round_binary64 (u / c))"
    using False dbl_div_rounded [of u c] u c
    by (simp only: fill_ratio_def dbl_of_u64_eq u_def [symmetric] c_def [symmetric]) simp
  ultimately show ?thesis using that by blast
qed

lemma towards_zero_between: "of_int a \<le> q \<Longrightarrow> q \<le> of_int b \<Longrightarrow> a \<le> towards_zero q \<and> towards_zero q \<le> b"
  by (auto simp: towards_zero_def le_floor_iff ceiling_le_iff) linarith+

lemma sint_of_int_small:
  assumes "- (2 ^ 63) \<le> k" "k < 2 ^ 63"
  shows "sint (of_int k :: i64) = k"
  using assms by (simp add: signed_of_int signed_take_bit_int_eq_self)

lemma sum_of_sints: "sum_list ls = (of_int (sum_list (map sint ls)) :: i64)"
  by (induction ls) simp_all

lemma sum_list_bounds:
  fixes ls :: "int list"
  assumes "ls \<noteq> []"
  shows "int (length ls) * Min (set ls) \<le> sum_list ls" "sum_list ls \<le> int (length ls) * Max (set ls)"
proof -
  have "sum_list (map (\<lambda>_. Min (set ls)) ls) \<le> sum_list (map (\<lambda>x. x) ls)" by (intro sum_list_mono) simp
  then show "int (length ls) * Min (set ls) \<le> sum_list ls" by (simp add: sum_list_triv)
  have "sum_list (map (\<lambda>x. x) ls) \<le> sum_list (map (\<lambda>_. Max (set ls)) ls)" by (intro sum_list_mono) simp
  then show "sum_list ls \<le> int (length ls) * Max (set ls)" by (simp add: sum_list_triv)
qed

text \<open>The sample of some latencies, its sum and count free of overflow.\<close>

lemma latency_average:
  fixes ls :: "i64 list"
  assumes "ls \<noteq> []" "\<And>l. l \<in> set ls \<Longrightarrow> \<bar>sint l\<bar> \<le> B" "1 \<le> B" "int (length ls) * B \<le> 2 ^ 53"
  defines "s \<equiv> foldl LatencySample_add LatencySample_empty ls" and "m \<equiv> sum_list (map sint ls)"
  shows "average_ns s = Finite (round_binary64 (of_int m / of_int (int (length ls))))"
proof -
  let ?n = "int (length ls)"
  have n1: "1 \<le> ?n" using assms(1) by (cases ls) simp_all
  have "?n \<le> ?n * B" using mult_left_mono [of 1 B ?n] assms(3) by simp
  then have n: "?n \<le> 2 ^ 53" using assms(4) by (rule order_trans)
  have "\<bar>m\<bar> \<le> sum_list (map (\<lambda>l. \<bar>sint l\<bar>) ls)" unfolding m_def using sum_list_abs [of "map sint ls"] by (simp add: comp_def)
  also have "\<dots> \<le> sum_list (map (\<lambda>_. B) ls)" using assms(2) by (intro sum_list_mono)
  finally have m: "\<bar>m\<bar> \<le> 2 ^ 53" using assms(4) by (simp add: sum_list_triv)
  have "ls_sum_ns s = of_int m" "ls_count s = of_nat (length ls)"
    unfolding s_def m_def by (simp_all add: foldl_latency(3,4) LatencySample_empty_simps sum_of_sints)
  moreover have "unat (of_nat (length ls) :: u64) = length ls" using n by (intro unat_of_nat_small) simp
  ultimately have count: "unat (ls_count s) = length ls" and sum: "sint (ls_sum_ns s) = m"
    using m by (simp_all add: sint_of_int_small abs_le_iff)
  then have nonzero: "ls_count s \<noteq> 0" using assms(1) by auto
  have "dbl_of_u64 (ls_count s) = Finite (of_nat (length ls))"
    using dbl_of_u64_exact [of "ls_count s"] n by (simp only: count) simp
  moreover have "dbl_of_i64 (ls_sum_ns s) = Finite (of_int m)"
    using m by (simp only: dbl_of_i64_eq sum) (simp add: round_binary64_exact representable_of_int)
  moreover have "\<bar>of_int m :: rat\<bar> \<le> 2 ^ 64"
  proof -
    have "of_int \<bar>m\<bar> \<le> (of_int (2 ^ 53) :: rat)" using m by (simp only: of_int_le_iff)
    then show ?thesis by simp
  qed
  ultimately show ?thesis
    using nonzero dbl_div_rounded [of "of_int m" "of_nat (length ls)"] n1 by (simp add: average_ns_def del: dbl_div.simps)
qed

section \<open>Intervals\<close>

lemma towards_zero_floor: "0 \<le> q \<Longrightarrow> towards_zero q = \<lfloor>q\<rfloor>"
  by (simp add: towards_zero_def)

text \<open>\<open>1 / rate\<close> and its multiple, rounded, for a rate of at least \<open>2\<^sup>-\<^sup>3\<^sup>0\<close> packets per second.\<close>

lemma interval_rounded:
  assumes "1 / 2 ^ 30 \<le> r"
  obtains v where "dbl_mul (dbl_div (Finite 1) (Finite r)) (Finite 1000000000) = Finite v" "0 \<le> v" "v \<le> 2 ^ 62"
    "r \<le> 2 ^ 40 \<Longrightarrow> close (1 / 2 ^ 51) v (1000000000 / r)" "2 ^ 40 \<le> r \<Longrightarrow> v < 1"
proof -
  have r: "0 < r" using assms by (rule less_le_trans [rotated]) simp
  define d where "d = round_binary64 (1 / r)"
  define v where "v = round_binary64 (d * 1000000000)"
  have inv: "0 \<le> 1 / r" "1 / r \<le> 2 ^ 30" using assms r by (simp_all add: field_simps)
  have rep: "representable (2 ^ 30)" "representable (2 ^ 62)" "representable (1 / 2 ^ 40)" "representable (1 / 2 ^ 10)"
    using representable_power [of 30] representable_power [of 62] representable_power [of "- 40"] representable_power [of "- 10"]
    by (simp_all add: power_int_minus power_int_numeral inverse_eq_divide)
  have d: "0 \<le> d" "d \<le> 2 ^ 30" unfolding d_def using inv rep(1) by (auto intro: round_binary64_sign round_binary64_le)
  have v: "0 \<le> v" "v \<le> 2 ^ 62" unfolding v_def using d rep(2) by (auto intro!: round_binary64_sign round_binary64_le)
  show thesis
  proof (rule that [of v])
    have "dbl_div (Finite 1) (Finite r) = Finite d" unfolding d_def using r inv by (simp add: to_double_small)
    then show "dbl_mul (dbl_div (Finite 1) (Finite r)) (Finite 1000000000) = Finite v"
      using d by (simp add: v_def to_double_small)
    show "close (1 / 2 ^ 51) v (1000000000 / r)" if "r \<le> 2 ^ 40"
    proof -
      have "1 / 2 ^ 70 \<le> 1 / r" using that r by (simp add: field_simps)
      then have c: "close (1 / 2 ^ 53) d (1 / r)" unfolding d_def using inv by (intro close_round) auto
      have "1 / 2 ^ 40 \<le> 1 / r" using that r by (simp add: field_simps)
      then have "1 / 2 ^ 70 \<le> d * 1000000000" using close_half [OF c] inv by simp
      then have "close (1 / 2 ^ 53) v (d * 1000000000)" unfolding v_def using d by (intro close_round) auto
      moreover have "close (1 / 2 ^ 53) (d * 1000000000) (1000000000 / r)"
        using scaled_error [OF c [unfolded close_def], of 1000000000] by (simp add: close_def)
      ultimately show ?thesis by (rule close_trans) (use r in simp_all)
    qed
    show "v < 1" if "2 ^ 40 \<le> r"
    proof -
      have "1 / r \<le> 1 / 2 ^ 40" using that r by (simp add: field_simps)
      then have "d \<le> 1 / 2 ^ 40" unfolding d_def by (rule round_binary64_le [OF rep(3)])
      then have "v \<le> 1 / 2 ^ 10" unfolding v_def by (intro round_binary64_le [OF rep(4)]) simp
      then show ?thesis by simp
    qed
  qed (use v in auto)
qed

lemma interval_of_rate:
  assumes "1 / 2 ^ 30 \<le> r"
  obtains l where "RateLimiter_of_rate (Finite r) now = Some l" "rl_next l = now" "1 \<le> rl_interval l"
    "\<bar>of_int (rl_interval l) - 1000000000 / r\<bar> \<le> 1 + 1000000000 / r / 2 ^ 51"
proof -
  have r: "0 < r" using assms by (rule less_le_trans [rotated]) simp
  define x where "x = 1000000000 / r"
  have x: "0 \<le> x" unfolding x_def using r by simp
  obtain v where v: "dbl_mul (dbl_div (Finite 1) (Finite r)) (Finite 1000000000) = Finite v" "0 \<le> v" "v \<le> 2 ^ 62"
    "r \<le> 2 ^ 40 \<Longrightarrow> close (1 / 2 ^ 51) v x" "2 ^ 40 \<le> r \<Longrightarrow> v < 1"
    unfolding x_def using interval_rounded [OF assms] by metis
  define i where "i = \<lfloor>v\<rfloor>"
  have i: "0 \<le> i" "of_int i \<le> v" "v < of_int i + 1" unfolding i_def using v(2) by linarith+
  have "of_int i \<le> (of_int (2 ^ 62) :: rat)" using i(2) v(3) by simp
  then have "i \<le> 2 ^ 62" by (simp only: of_int_le_iff)
  then have cast: "cast_interval (Finite r) = Some i"
    unfolding cast_interval_def v(1) using i(1) v(2) by (simp add: dbl_to_int_def towards_zero_floor i_def)
  let ?l = "RateLimiter_new (Some i) now"
  have near: "v - x / 2 ^ 51 \<le> x" "x \<le> v + x / 2 ^ 51" if "r \<le> 2 ^ 40"
    using v(4) [OF that, unfolded close_def abs_le_iff] by simp_all
  have far: "x < 1" if "\<not> r \<le> 2 ^ 40" using that r by (simp add: x_def field_simps)
  have "\<bar>of_int (if i = 0 then 1 else i) - x\<bar> \<le> 1 + x / 2 ^ 51"
  proof (cases "r \<le> 2 ^ 40")
    case True
    then show ?thesis using near i x by (cases "i = 0") (auto simp: abs_le_iff)
  next
    case False
    then have "i = 0" using v(5) i by (simp add: i_def floor_eq_iff)
    then show ?thesis using far [OF False] x by (auto simp: abs_le_iff)
  qed
  then show thesis using that [of ?l] r cast i(1) by (auto simp: RateLimiter_of_rate_def RateLimiter_new_def x_def)
qed

lemma slow_rate_undefined:
  assumes "0 < r" "r \<le> 1 / 10 ^ 10"
  shows "cast_interval (Finite r) = None"
proof -
  have rep: "representable (10 ^ 10)" "representable (2 ^ 63)"
    using representable_of_int [of "10 ^ 10"] representable_power [of 63] by (simp_all add: power_int_numeral)
  have big: "to_double q = PosInf \<or> to_double q = Finite (round_binary64 q)" if "0 \<le> q" for q
    using round_binary64_sign(1) [OF that] by (auto simp: to_double_def Let_def)
  define d where "d = round_binary64 (1 / r)"
  have "10 ^ 10 \<le> 1 / r" using assms by (simp add: field_simps)
  then have d: "10 ^ 10 \<le> d" unfolding d_def by (rule round_binary64_ge [OF rep(1)])
  define v where "v = round_binary64 (d * 1000000000)"
  have "2 ^ 63 \<le> v" unfolding v_def using d by (intro round_binary64_ge [OF rep(2)]) simp
  then have "2 ^ 63 \<le> \<lfloor>v\<rfloor>" "0 \<le> v" by (simp_all add: le_floor_iff)
  then have none: "dbl_to_int (- (2 ^ 63)) (2 ^ 63 - 1) (Finite v) = None"
    by (simp add: dbl_to_int_def towards_zero_floor)
  have "dbl_div (Finite 1) (Finite r) = PosInf \<or> dbl_div (Finite 1) (Finite r) = Finite d"
    using big [of "1 / r"] assms(1) by (auto simp: d_def)
  moreover have "dbl_mul (Finite d) (Finite 1000000000) = PosInf \<or> dbl_mul (Finite d) (Finite 1000000000) = Finite v"
    using big [of "d * 1000000000"] d by (auto simp: v_def)
  ultimately show ?thesis
    unfolding cast_interval_def using none by (auto simp: dbl_to_int_def simp del: dbl_div.simps(1) dbl_mul.simps(1))
qed

section \<open>The figures of the reports are numbers\<close>

text \<open>A positive length of time, in seconds, is at least the \<open>2\<^sup>-\<^sup>3\<^sup>0\<close> of a nanosecond.\<close>

lemma seconds_not_tiny:
  assumes "RateSample_seconds sample = Finite t" "0 < t"
  shows "1 / 2 ^ 30 \<le> t"
proof -
  consider e where "to_double (of_int (rs_elapsed sample)) = Finite e" "e = round_binary64 (of_int (rs_elapsed sample))"
    | "to_double (of_int (rs_elapsed sample)) \<in> {PosInf, NegInf}"
    using to_double_range [of "of_int (rs_elapsed sample)"] by auto
  then show ?thesis
  proof cases
    case (1 e)
    then have "to_double (e / 1000000000) = Finite t" using assms(1) by (simp add: RateSample_seconds_def)
    then have t: "t = round_binary64 (e / 1000000000)" by (auto simp: to_double_def Let_def split: if_splits)
    then have "0 < e" using assms(2) round_binary64_sign(2) [of "e / 1000000000"] by (cases "0 < e") simp_all
    then have "0 < rs_elapsed sample" using 1(2) round_binary64_sign(2) [of "of_int (rs_elapsed sample)"] by (cases "0 < rs_elapsed sample") simp_all
    then have "1 \<le> e" unfolding 1(2) using representable_of_int [of 1] by (intro round_binary64_ge) simp_all
    then have "2 powi (- 30) \<le> e / 1000000000" by (simp add: power_int_minus)
    then have "2 powi (- 30) \<le> t" unfolding t by (intro round_binary64_ge representable_power) simp_all
    then show ?thesis by (simp add: power_int_minus)
  next
    case 2
    then show ?thesis using assms(1) by (auto simp: RateSample_seconds_def)
  qed
qed

lemma per_second_number:
  assumes "dbl_less (Finite 0) (RateSample_seconds sample)"
  shows "is_number (dbl_div (dbl_of_u64 n) (RateSample_seconds sample)) \<and>
    \<not> dbl_less (dbl_div (dbl_of_u64 n) (RateSample_seconds sample)) (Finite 0)"
proof (cases "RateSample_seconds sample")
  case (Finite t)
  define r where "r = round_binary64 (of_nat (unat n))"
  have r: "0 \<le> r" "r \<le> 2 ^ 64" unfolding r_def using u64_round(2,3) by blast+
  have t: "1 / 2 ^ 30 \<le> t" "0 < t" using assms Finite seconds_not_tiny by simp_all
  then have "r / t \<le> 2 ^ 64 / (1 / 2 ^ 30)" using r by (intro frac_le) simp_all
  then have small: "\<bar>r / t\<bar> \<le> 2 ^ 128" using r(1) t(2) by simp
  moreover have "0 \<le> round_binary64 (r / t)" using r(1) t(2) by (intro round_binary64_sign) simp
  ultimately show ?thesis
    unfolding dbl_of_u64_eq r_def [symmetric] Finite using t(2) rounded_number [OF small] by (simp add: to_double_small)
qed (use assms in \<open>simp_all add: dbl_of_u64_eq\<close>)

lemma quotient_number:
  fixes n d :: u64 and k :: i64
  assumes "d \<noteq> 0"
  shows "is_number (dbl_div (dbl_of_u64 n) (dbl_of_u64 d))" "\<not> dbl_less (dbl_div (dbl_of_u64 n) (dbl_of_u64 d)) (Finite 0)"
    "is_number (dbl_div (dbl_of_i64 k) (dbl_of_u64 d))"
proof -
  define c where "c = round_binary64 (of_nat (unat d))"
  have c: "1 \<le> c" unfolding c_def using assms by (rule u64_double_pos)
  have number: "dbl_div (Finite a) (Finite c) = Finite (round_binary64 (a / c)) \<and> is_number (Finite (round_binary64 (a / c)))"
    if "\<bar>a\<bar> \<le> 2 ^ 64" for a
  proof -
    have "\<bar>a / c\<bar> \<le> \<bar>a\<bar>" using c by (simp add: abs_divide divide_le_eq mult_le_cancel_left1)
    then show ?thesis using that dbl_div_rounded [OF that c] rounded_number [of "a / c"] by simp
  qed
  define r where "r = round_binary64 (of_nat (unat n))"
  have r: "0 \<le> r" "\<bar>r\<bar> \<le> 2 ^ 64" unfolding r_def using u64_round(2,3) [of n] by (simp_all add: abs_of_nonneg)
  then have "0 \<le> round_binary64 (r / c)" using c by (intro round_binary64_sign) simp
  with number [OF r(2)] show "is_number (dbl_div (dbl_of_u64 n) (dbl_of_u64 d))"
    "\<not> dbl_less (dbl_div (dbl_of_u64 n) (dbl_of_u64 d)) (Finite 0)"
    unfolding dbl_of_u64_eq c_def [symmetric] r_def [symmetric] by (simp_all del: dbl_div.simps)
  have "\<bar>round_binary64 (of_int (sint k))\<bar> \<le> 2 ^ 64"
    using sint_i64_bound [of k] representable_power [of 64] by (intro round_binary64_bound) (simp_all add: power_int_numeral)
  from number [OF this] show "is_number (dbl_div (dbl_of_i64 k) (dbl_of_u64 d))"
    unfolding dbl_of_u64_eq dbl_of_i64_eq c_def [symmetric] by (simp del: dbl_div.simps)
qed

section \<open>Properties\<close>

text \<open>
  The average latency of a report lies between the smallest and the largest latency of the
  interval: for latencies whose sum stays within \<open>2\<^sup>5\<^sup>3\<close>, the conversion of the average to nanoseconds is
  defined, and neither the division nor the cut of the fraction leaves the range.
\<close>

lemma average_latency_between:
  assumes "ls \<noteq> []" "\<forall>l \<in> set ls. \<bar>sint l\<bar> \<le> B" "1 \<le> B" "int (length ls) * B \<le> 2 ^ 53"
  shows "\<exists>a. dbl_to_i64 (average_ns (foldl LatencySample_add LatencySample_empty ls)) = Some a \<and>
    Min (sint ` set ls) \<le> sint a \<and> sint a \<le> Max (sint ` set ls)"
proof -
  define m where "m = sum_list (map sint ls)"
  define q where "q = round_binary64 (of_int m / of_int (int (length ls)))"
  let ?lo = "Min (sint ` set ls)" and ?hi = "Max (sint ` set ls)"
  have "?lo \<in> sint ` set ls" "?hi \<in> sint ` set ls" using assms(1) by (auto intro: Min_in Max_in)
  moreover have "B \<le> int (length ls) * B" using mult_right_mono [of 1 "int (length ls)" B] assms(1,3) by (cases ls) simp_all
  ultimately have B: "\<bar>?lo\<bar> \<le> 2 ^ 53" "\<bar>?hi\<bar> \<le> 2 ^ 53" using assms(2,4) by fastforce+
  have n: "(0 :: rat) < of_int (int (length ls))" using assms(1) by simp
  have "int (length ls) * ?lo \<le> m" "m \<le> int (length ls) * ?hi"
    using sum_list_bounds [of "map sint ls"] assms(1) by (simp_all add: m_def)
  then have "of_int (int (length ls) * ?lo) \<le> (of_int m :: rat)" "of_int m \<le> (of_int (int (length ls) * ?hi) :: rat)"
    by (simp_all only: of_int_le_iff)
  then have "of_int ?lo \<le> (of_int m / of_int (int (length ls)) :: rat)" "of_int m / of_int (int (length ls)) \<le> (of_int ?hi :: rat)"
    using n by (simp_all add: pos_le_divide_eq pos_divide_le_eq mult.commute)
  then have "of_int ?lo \<le> q" "q \<le> of_int ?hi"
    unfolding q_def using B by (simp_all only: round_binary64_le round_binary64_ge representable_of_int)
  from towards_zero_between [OF this] have z: "?lo \<le> towards_zero q" "towards_zero q \<le> ?hi" by auto
  have "average_ns (foldl LatencySample_add LatencySample_empty ls) = Finite q"
    unfolding q_def m_def using assms by (intro latency_average) auto
  moreover have range: "- (2 ^ 63) \<le> towards_zero q" "towards_zero q < 2 ^ 63" using z B by (auto simp: abs_le_iff)
  ultimately show ?thesis
    using z by (intro exI [of _ "of_int (towards_zero q)"]) (auto simp: dbl_to_i64_def dbl_to_int_def sint_of_int_small)
qed

text \<open>
  The conversion of an average to a 64-bit integer is defined except for a single latency that is rounded
  up to \<open>2\<^sup>6\<^sup>3\<close>.
\<close>

lemma rounds_to_top: "round_binary64 (of_int m) < 2 ^ 63 \<longleftrightarrow> m < 2 ^ 63 - 512"
proof
  have below: "round_binary64 (of_int (2 ^ 63 - 513)) < 2 ^ 63" by code_simp
  have top: "2 ^ 63 \<le> round_binary64 (of_int (2 ^ 63 - 512))" by code_simp
  show "round_binary64 (of_int m) < 2 ^ 63" if "m < 2 ^ 63 - 512"
  proof -
    have "(of_int m :: rat) \<le> of_int (2 ^ 63 - 513)" using that by (simp only: of_int_le_iff)
    from round_binary64_mono [OF this] below show ?thesis by simp
  qed
  show "m < 2 ^ 63 - 512" if "round_binary64 (of_int m) < 2 ^ 63"
  proof (rule ccontr)
    assume "\<not> m < 2 ^ 63 - 512"
    then have "(of_int (2 ^ 63 - 512) :: rat) \<le> of_int m" by (simp only: of_int_le_iff not_less)
    from round_binary64_mono [OF this] top that show False by simp
  qed
qed

lemma average_cast_defined:
  assumes "ls_count l \<noteq> 0"
  shows "dbl_to_i64 (average_ns l) = None \<longleftrightarrow> ls_count l = 1 \<and> 2 ^ 63 - 512 \<le> sint (ls_sum_ns l)"
proof -
  define r where "r = round_binary64 (of_int (sint (ls_sum_ns l)))"
  define c where "c = round_binary64 (of_nat (unat (ls_count l)))"
  have rep: "representable r" "representable (2 ^ 63)" "representable (2 ^ 62)" "representable 1" "representable 2"
    using round_binary64_representable representable_power [of 63] representable_power [of 62] representable_of_int [of 1]
      representable_of_int [of 2] by (simp_all add: r_def power_int_def)
  have bound: "- (2 ^ 63) \<le> r" "r \<le> 2 ^ 63"
    using sint_i64_bound [of "ls_sum_ns l"] rep(2) representable_minus [OF rep(2)]
    by (auto simp: r_def abs_le_iff intro!: round_binary64_le round_binary64_ge)
  have avg: "average_ns l = dbl_div (Finite r) (Finite c)"
    using assms by (simp add: average_ns_def dbl_of_i64_eq dbl_of_u64_eq r_def c_def)
  have n: "unat (ls_count l) \<noteq> 0" using assms by (simp add: unat_eq_zero)
  have cast: "dbl_to_i64 (Finite q) = None \<longleftrightarrow> \<not> (- (2 ^ 63) \<le> towards_zero q \<and> towards_zero q \<le> 2 ^ 63 - 1)" for q
    by (simp add: dbl_to_i64_def dbl_to_int_def)
  show ?thesis
  proof (cases "unat (ls_count l) = 1")
    case True
    then have one: "ls_count l = 1" by (metis unat_1 word_unat_eq_iff)
    have "c = 1" using True rep(4) by (simp add: c_def round_binary64_exact)
    moreover have "\<bar>r\<bar> \<le> 2 ^ 128" using bound by (simp add: abs_le_iff)
    ultimately have q: "average_ns l = Finite r" using rep(1) by (simp add: avg to_double_small round_binary64_exact)
    have "- (2 ^ 63) \<le> towards_zero r" using bound(1) towards_zero_between [of "- (2 ^ 63)" r "2 ^ 63"] bound(2) by simp
    moreover have "towards_zero r \<le> 2 ^ 63 - 1 \<longleftrightarrow> r < 2 ^ 63"
    proof (cases "0 \<le> r")
      case True
      have "\<lfloor>r\<rfloor> < 2 ^ 63 \<longleftrightarrow> r < of_int (2 ^ 63)" by (rule floor_less_iff)
      then show ?thesis using True by (auto simp: towards_zero_floor)
    next
      case False
      then show ?thesis using towards_zero_between [of "- (2 ^ 63)" r 0] bound(1) by simp
    qed
    ultimately show ?thesis using rounds_to_top [of "sint (ls_sum_ns l)"] by (auto simp: q cast one r_def)
  next
    case False
    then have "of_nat 2 \<le> (of_nat (unat (ls_count l)) :: rat)" using n by (simp only: of_nat_le_iff)
    then have c: "2 \<le> c" unfolding c_def using rep(5) by (intro round_binary64_ge) simp_all
    have "\<bar>r / c\<bar> \<le> 2 ^ 63 / 2" unfolding abs_divide using bound c by (intro frac_le) (auto simp: abs_le_iff)
    then have "\<bar>r / c\<bar> \<le> 2 ^ 62" by (simp only: abs_divide) simp
    then have q: "- (2 ^ 62) \<le> r / c" "r / c \<le> 2 ^ 62" "\<bar>r / c\<bar> \<le> 2 ^ 128"
      using order_trans [of "\<bar>r / c\<bar>" "2 ^ 62" "2 ^ 128"] by (simp_all only: abs_le_iff) simp_all
    then have "average_ns l = Finite (round_binary64 (r / c))" using c by (simp add: avg to_double_small)
    moreover have "of_int (- (2 ^ 62)) \<le> round_binary64 (r / c)" "round_binary64 (r / c) \<le> of_int (2 ^ 62)"
      using q rep(3) representable_minus [OF rep(3)] by (auto intro!: round_binary64_le round_binary64_ge)
    ultimately show ?thesis using towards_zero_between [of "- (2 ^ 62)" "round_binary64 (r / c)" "2 ^ 62"] False by (auto simp: cast)
  qed
qed

text \<open>
  C30: the rates of a report are the exact quotients up to a relative error of \<open>2\<^sup>-\<^sup>4\<^sup>9\<close>, for every
  interval that took any time at all.
\<close>

theorem rates_accurate:
  assumes "0 < rs_elapsed s" "rs_elapsed s < 2 ^ 63"
  shows "\<exists>p b. packets_per_second s = Finite p \<and> bytes_per_second s = Finite b \<and>
    \<bar>p - of_nat (unat (rs_packets s)) * 1000000000 / of_int (rs_elapsed s)\<bar>
      \<le> 1 / 2 ^ 49 * (of_nat (unat (rs_packets s)) * 1000000000 / of_int (rs_elapsed s)) \<and>
    \<bar>b - of_nat (unat (rs_bytes s)) * 1000000000 / of_int (rs_elapsed s)\<bar>
      \<le> 1 / 2 ^ 49 * (of_nat (unat (rs_bytes s)) * 1000000000 / of_int (rs_elapsed s))"
proof -
  obtain t where t: "RateSample_seconds s = Finite t" "0 < t" using seconds_close [OF assms] by metis
  then have "packets_per_second s = dbl_div (dbl_of_u64 (rs_packets s)) (Finite t)"
    "bytes_per_second s = dbl_div (dbl_of_u64 (rs_bytes s)) (Finite t)"
    by (simp_all add: packets_per_second_def bytes_per_second_def)
  then show ?thesis using count_per_second_close [OF assms t(1), unfolded close_def] by metis
qed

theorem rates_accurate_witness:
  "\<exists>p b. packets_per_second \<lparr>rs_packets = 3, rs_bytes = 3000, rs_elapsed = 1500000000\<rparr> = Finite p \<and>
     bytes_per_second \<lparr>rs_packets = 3, rs_bytes = 3000, rs_elapsed = 1500000000\<rparr> = Finite b \<and>
     \<bar>p - 2\<bar> \<le> 1 / 2 ^ 48 \<and> \<bar>b - 2000\<bar> \<le> 2000 / 2 ^ 49"
  using rates_accurate [of "\<lparr>rs_packets = 3, rs_bytes = 3000, rs_elapsed = 1500000000\<rparr>"] by simp

lemma rate_limiter_paced:
  assumes "1 \<le> rl_interval l" "\<bar>of_int (rl_interval l) - ns\<bar> \<le> 1 + ns / 2 ^ 51"
    and "grant_times l calls = Some ts" "\<forall>(now, turns) \<in> set calls. \<forall>(stop, c) \<in> set turns. \<not> stop"
  shows "k < length ts \<Longrightarrow> of_int (rl_next l) + of_nat k * (ns - 1 - ns / 2 ^ 51) \<le> (of_int (ts ! k) :: rat)"
    and "j < k \<Longrightarrow> k < length ts \<Longrightarrow> of_int (ts ! j) + of_nat (k - j - 1) * (ns - 1 - ns / 2 ^ 51) < (of_int (ts ! k) :: rat)"
proof -
  have "ns - 1 - ns / 2 ^ 51 \<le> of_int (rl_interval l)" using assms(2) by linarith
  then have scaled: "of_int a + of_nat n * (ns - 1 - ns / 2 ^ 51) \<le> (of_int (a + int n * rl_interval l) :: rat)" for a n
    using mult_left_mono [of "ns - 1 - ns / 2 ^ 51" "of_int (rl_interval l)" "of_nat n"] by simp
  have pos: "0 < rl_interval l" using assms(1) by simp
  show "of_int (rl_next l) + of_nat k * (ns - 1 - ns / 2 ^ 51) \<le> (of_int (ts ! k) :: rat)" if "k < length ts"
    using grant_times_paced [OF assms(3) pos assms(4) that] scaled [of "rl_next l" k] by (meson of_int_le_iff order_trans)
  show "of_int (ts ! j) + of_nat (k - j - 1) * (ns - 1 - ns / 2 ^ 51) < (of_int (ts ! k) :: rat)" if "j < k" "k < length ts"
    using grant_times_window [OF assms(3) pos assms(4) that] scaled [of "ts ! j" "k - j - 1"] by (meson of_int_less_iff order_le_less_trans)
qed

text \<open>
  C25: the rate limiter keeps the requested rate: for every rate of at least one packet in \<open>2\<^sup>3\<^sup>0\<close>
  seconds the limiter exists, and without a stop request, whatever the clock readings are, its k-th slot
  is granted no earlier than k intervals after the first was due; and a stall is not followed by a burst:
  from any granted slot on, late or not, the n-th slot after it comes more than n - 1 intervals later. An interval is
  that of the rate, short by at most a nanosecond and a relative error of \<open>2\<^sup>-\<^sup>5\<^sup>1\<close>. For a positive rate of at most
  \<open>10\<^sup>-\<^sup>1\<^sup>0\<close> the conversion of the interval to an integer is undefined.
\<close>

theorem rate_limiter_keeps_rate:
  "(1 / 2 ^ 30 \<le> r \<longrightarrow>
     (\<exists>l. RateLimiter_of_rate (Finite r) start = Some l \<and>
        (\<forall>calls ts. grant_times l calls = Some ts \<and> (\<forall>(now, turns) \<in> set calls. \<forall>(stop, c) \<in> set turns. \<not> stop) \<longrightarrow>
           (\<forall>k < length ts. of_int start + of_nat k * (1000000000 / r - 1 - 1000000000 / r / 2 ^ 51) \<le> of_int (ts ! k)) \<and>
           (\<forall>j k. j < k \<and> k < length ts \<longrightarrow>
              of_int (ts ! j) + of_nat (k - j - 1) * (1000000000 / r - 1 - 1000000000 / r / 2 ^ 51) < of_int (ts ! k))))) \<and>
   (0 < r \<and> r \<le> 1 / 10 ^ 10 \<longrightarrow> RateLimiter_of_rate (Finite r) start = None)"
proof (intro conjI impI)
  assume "1 / 2 ^ 30 \<le> r"
  then obtain l where l: "RateLimiter_of_rate (Finite r) start = Some l" "rl_next l = start" "1 \<le> rl_interval l"
    "\<bar>of_int (rl_interval l) - 1000000000 / r\<bar> \<le> 1 + 1000000000 / r / 2 ^ 51" by (rule interval_of_rate)
  note paced = rate_limiter_paced [OF l(3,4), unfolded l(2)]
  show "\<exists>l. RateLimiter_of_rate (Finite r) start = Some l \<and>
        (\<forall>calls ts. grant_times l calls = Some ts \<and> (\<forall>(now, turns) \<in> set calls. \<forall>(stop, c) \<in> set turns. \<not> stop) \<longrightarrow>
           (\<forall>k < length ts. of_int start + of_nat k * (1000000000 / r - 1 - 1000000000 / r / 2 ^ 51) \<le> of_int (ts ! k)) \<and>
           (\<forall>j k. j < k \<and> k < length ts \<longrightarrow>
              of_int (ts ! j) + of_nat (k - j - 1) * (1000000000 / r - 1 - 1000000000 / r / 2 ^ 51) < of_int (ts ! k)))"
    using l(1) paced by blast
next
  assume "0 < r \<and> r \<le> 1 / 10 ^ 10"
  then show "RateLimiter_of_rate (Finite r) start = None" by (simp add: RateLimiter_of_rate_def slow_rate_undefined)
qed

lemma thousand_per_second: "RateLimiter_of_rate (Finite 1000) 0 = Some \<lparr>rl_interval = 1000000, rl_next = 0\<rparr>"
  by code_simp

theorem rate_limiter_keeps_rate_witness:
  "\<exists>l ts. RateLimiter_of_rate (Finite 1000) 0 = Some l \<and>
     grant_times l [(0, []), (50000000, []), (50000001, [(False, 51000005)]), (51000006, [(False, 52000007)])] = Some ts \<and>
     999998 \<le> ts ! 1 \<and> ts ! 1 + 999998 < ts ! 3 \<and> RateLimiter_of_rate (Finite (1 / 10 ^ 11)) 0 = None"
proof -
  let ?l = "\<lparr>rl_interval = 1000000, rl_next = 0\<rparr>" and ?calls = "[(0, []), (50000000, []), (50000001, [(False, 51000005)]), (51000006, [(False, 52000007)])] :: (int \<times> (bool \<times> int) list) list"
  let ?i = "1000000000 / 1000 - 1 - 1000000000 / 1000 / 2 ^ 51 :: rat"
  have grant: "grant_times ?l ?calls = Some [0, 50000000, 51000005, 52000007]" by (simp add: wait_for_slot_def RateLimiter_enabled_def)
  have go: "\<forall>(now, turns) \<in> set ?calls. \<forall>(stop, c) \<in> set turns. \<not> stop" by simp
  let ?ts = "[0, 50000000, 51000005, 52000007] :: int list"
  have "1 / 2 ^ 30 \<le> (1000 :: rat)" by simp
  then obtain l where "RateLimiter_of_rate (Finite 1000) 0 = Some l" and paced: "\<forall>calls ts. grant_times l calls = Some ts \<and>
      (\<forall>(now, turns) \<in> set calls. \<forall>(stop, c) \<in> set turns. \<not> stop) \<longrightarrow>
      (\<forall>k < length ts. of_int 0 + of_nat k * ?i \<le> of_int (ts ! k)) \<and>
      (\<forall>j k. j < k \<and> k < length ts \<longrightarrow> of_int (ts ! j) + of_nat (k - j - 1) * ?i < of_int (ts ! k))"
    using rate_limiter_keeps_rate [of 1000 0] by blast
  then have "l = ?l" using thousand_per_second by simp
  then have all: "\<forall>k < length ?ts. of_int 0 + of_nat k * ?i \<le> of_int (?ts ! k)"
    "\<forall>j k. j < k \<and> k < length ?ts \<longrightarrow> of_int (?ts ! j) + of_nat (k - j - 1) * ?i < of_int (?ts ! k)"
    using paced grant go by blast+
  have "of_int 0 + of_nat 1 * ?i \<le> of_int (?ts ! 1)" using all(1) [rule_format, of 1] by simp
  moreover have "of_int (?ts ! 1) + of_nat (3 - 1 - 1) * ?i < of_int (?ts ! 3)"
    using all(2) [rule_format, of 1 3] by simp
  moreover have "RateLimiter_of_rate (Finite (1 / 10 ^ 11)) 0 = None" using rate_limiter_keeps_rate [of "1 / 10 ^ 11" 0] by simp
  ultimately show ?thesis using thousand_per_second grant by simp
qed

text \<open>
  C29: every floating-point figure of a report is a finite number of the binary64 format, for whatever
  counters, elapsed time (zero and negative included) and capacity: no division gives an infinity or
  a NaN. Rates and the fill of the queue are never negative.
\<close>

theorem report_figures_are_numbers:
  "is_number (packets_per_second sample) \<and> is_number (bytes_per_second sample) \<and> is_number (fill_ratio q) \<and> is_number (average_ns l) \<and>
   \<not> dbl_less (packets_per_second sample) (Finite 0) \<and> \<not> dbl_less (bytes_per_second sample) (Finite 0) \<and>
   \<not> dbl_less (fill_ratio q) (Finite 0)"
  using per_second_number [of sample] quotient_number
  by (auto simp: packets_per_second_def bytes_per_second_def Let_def fill_ratio_def average_ns_def simp del: dbl_div.simps)

end
