(* ===== verification/Cli.thy ===== *)
theory Cli
  imports Pc_Prelude
begin

text \<open>
  The command-line parser: \<^verbatim>\<open>common/src/cli.cpp\<close> and \<^verbatim>\<open>common/include/pc/cli.hpp\<close>. A command line is
  a list of arguments after the program name. The lemmas show that the parser accepts exactly
  the argument lists of a grammar of items, with the effect of the items in order, so that the
  last setting of an option wins and every other option keeps its default.
\<close>

section \<open>Descriptions\<close>

record Spec =
  so_name :: string
  so_short_name :: char
  so_value_name :: string
  so_description :: string
  so_default_value :: string

definition is_flag :: "Spec \<Rightarrow> bool" where
  "is_flag spec \<longleftrightarrow> so_value_name spec = []"

record Positional =
  po_name :: string
  po_description :: string

record CommandLine =
  cl_program :: string
  cl_summary :: string
  cl_specs :: "Spec list"
  cl_positionals :: "Positional list"

definition cli_option :: "string \<Rightarrow> char \<Rightarrow> string \<Rightarrow> string \<Rightarrow> string \<Rightarrow> CommandLine \<Rightarrow> CommandLine" where
  "cli_option name short_name value_name description default_value cl =
     cl\<lparr>cl_specs := cl_specs cl @ [\<lparr>so_name = name, so_short_name = short_name, so_value_name = value_name,
       so_description = description, so_default_value = default_value\<rparr>]\<rparr>"

definition cli_flag :: "string \<Rightarrow> char \<Rightarrow> string \<Rightarrow> CommandLine \<Rightarrow> CommandLine" where
  "cli_flag name short_name description cl =
     cl\<lparr>cl_specs := cl_specs cl @ [\<lparr>so_name = name, so_short_name = short_name, so_value_name = [],
       so_description = description, so_default_value = []\<rparr>]\<rparr>"

definition cli_positional :: "string \<Rightarrow> string \<Rightarrow> CommandLine \<Rightarrow> CommandLine" where
  "cli_positional name description cl =
     cl\<lparr>cl_positionals := cl_positionals cl @ [\<lparr>po_name = name, po_description = description\<rparr>]\<rparr>"

definition CommandLine_new :: "string \<Rightarrow> string \<Rightarrow> CommandLine" where
  "CommandLine_new program summary =
     cli_flag ''help'' (CHR ''h'') ''Show this help and exit''
       \<lparr>cl_program = program, cl_summary = summary, cl_specs = [], cl_positionals = []\<rparr>"

fun find_long :: "string \<Rightarrow> Spec list \<Rightarrow> Spec option" where
  "find_long name [] = None"
| "find_long name (spec # specs) = (if so_name spec = name then Some spec else find_long name specs)"

fun find_short :: "char \<Rightarrow> Spec list \<Rightarrow> Spec option" where
  "find_short name [] = None"
| "find_short name (spec # specs) =
     (if so_short_name spec \<noteq> CHR 0x00 \<and> so_short_name spec = name then Some spec else find_short name specs)"

section \<open>Parsing\<close>

record Entry =
  en_name :: string
  en_value :: string
  en_explicit_value :: bool

record Parsed =
  pd_entries :: "Entry list"
  pd_positionals :: "string list"

fun entry_value :: "string \<Rightarrow> Entry list \<Rightarrow> string option" where
  "entry_value name [] = None"
| "entry_value name (e # es) = (if en_name e = name then Some (en_value e) else entry_value name es)"

definition Parsed_value :: "string \<Rightarrow> Parsed \<Rightarrow> string option" where
  "Parsed_value name parsed = entry_value name (pd_entries parsed)"

definition Parsed_given :: "string \<Rightarrow> Parsed \<Rightarrow> bool" where
  "Parsed_given name parsed = list_ex (\<lambda>e. en_name e = name \<and> en_explicit_value e) (pd_entries parsed)"

fun assign_entry :: "string \<Rightarrow> string \<Rightarrow> Entry list \<Rightarrow> Entry list" where
  "assign_entry name v [] = [\<lparr>en_name = name, en_value = v, en_explicit_value = True\<rparr>]"
| "assign_entry name v (e # es) =
     (if en_name e = name then e\<lparr>en_value := v, en_explicit_value := True\<rparr> # es else e # assign_entry name v es)"

definition assign :: "Spec \<Rightarrow> string \<Rightarrow> Parsed \<Rightarrow> Parsed" where
  "assign spec v parsed = parsed\<lparr>pd_entries := assign_entry (so_name spec) v (pd_entries parsed)\<rparr>"

definition default_entries :: "Spec list \<Rightarrow> Entry list" where
  "default_entries specs =
     map (\<lambda>spec. \<lparr>en_name = so_name spec, en_value = so_default_value spec, en_explicit_value = False\<rparr>)
       (filter (\<lambda>spec. \<not> is_flag spec) specs)"

text \<open>The option an argument names, and a value given in the same argument.\<close>

definition named_option :: "Spec list \<Rightarrow> string \<Rightarrow> (Spec \<times> string option) result" where
  "named_option specs arg =
     (if take 2 arg = ''--'' then
        let name = drop 2 arg;
            (name, inline_value) = (if CHR ''='' \<in> set name
              then (takeWhile (\<lambda>c. c \<noteq> CHR ''='') name, Some (drop 1 (dropWhile (\<lambda>c. c \<noteq> CHR ''='') name)))
              else (name, None))
        in case find_long name specs of
             None \<Rightarrow> Inl (UsageError (''unknown option '' @ quoted (''--'' @ name)))
           | Some spec \<Rightarrow> Inr (spec, inline_value)
      else case find_short (arg ! 1) specs of
             None \<Rightarrow> Inl (UsageError (''unknown option '' @ quoted [CHR ''-'', arg ! 1]))
           | Some spec \<Rightarrow> Inr (spec, if 2 < length arg then Some (drop 2 arg) else None))"

fun parse_args :: "Spec list \<Rightarrow> bool \<Rightarrow> string list \<Rightarrow> Parsed \<Rightarrow> Parsed result" where
  "parse_args specs only_positionals [] parsed = Inr parsed"
| "parse_args specs only_positionals (arg # args) parsed =
     (if only_positionals \<or> length arg < 2 \<or> arg ! 0 \<noteq> CHR ''-''
      then parse_args specs only_positionals args (parsed\<lparr>pd_positionals := pd_positionals parsed @ [arg]\<rparr>)
      else if arg = ''--'' then parse_args specs True args parsed
      else case named_option specs arg of
             Inl e \<Rightarrow> Inl e
           | Inr (spec, inline_value) \<Rightarrow>
               if is_flag spec then
                 (case inline_value of
                    Some v \<Rightarrow> Inl (UsageError (''option '' @ quoted (''--'' @ so_name spec) @ '' does not take a value''))
                  | None \<Rightarrow> parse_args specs only_positionals args (assign spec ''true'' parsed))
               else
                 (case inline_value of
                    Some v \<Rightarrow> parse_args specs only_positionals args (assign spec v parsed)
                  | None \<Rightarrow>
                      (case args of
                         v # args \<Rightarrow> parse_args specs only_positionals args (assign spec v parsed)
                       | [] \<Rightarrow> Inl (UsageError (''option '' @ quoted (''--'' @ so_name spec) @ '' requires a value'')))))"

definition parse :: "CommandLine \<Rightarrow> string list \<Rightarrow> Parsed result" where
  "parse cl argv =
     (case parse_args (cl_specs cl) False (drop 1 argv) \<lparr>pd_entries = default_entries (cl_specs cl), pd_positionals = []\<rparr> of
        Inl e \<Rightarrow> Inl e
      | Inr parsed \<Rightarrow>
          if length (cl_positionals cl) < length (pd_positionals parsed)
          then Inl (UsageError (''unexpected argument '' @ quoted (pd_positionals parsed ! length (cl_positionals cl))))
          else Inr parsed)"

section \<open>Help\<close>

text \<open>The \<^verbatim>\<open>{:<26}\<close> format of a string, and a newline.\<close>

definition pad26 :: "string \<Rightarrow> string" where
  "pad26 s = s @ replicate (26 - length s) (CHR '' '')"

definition newline :: string where
  "newline = [CHR 0x0A]"

definition help_spec :: "Spec \<Rightarrow> string" where
  "help_spec spec =
     (let left = (if so_short_name spec \<noteq> CHR 0x00 then ''-'' @ [so_short_name spec] @ '', --'' @ so_name spec
                  else ''    --'' @ so_name spec);
          left = (if \<not> is_flag spec then left @ '' <'' @ so_value_name spec @ ''>'' else left);
          right = so_description spec;
          right = (if so_default_value spec \<noteq> [] then right @ '' (default: '' @ so_default_value spec @ '')'' else right)
      in ''  '' @ pad26 left @ '' '' @ right @ newline)"

definition CommandLine_help :: "CommandLine \<Rightarrow> string" where
  "CommandLine_help cl =
     ''Usage: '' @ cl_program cl @ '' [options]'' @
     concat (map (\<lambda>p. '' ['' @ po_name p @ '']'') (cl_positionals cl)) @
     newline @ newline @ cl_summary cl @ newline @
     (if cl_positionals cl \<noteq> []
      then newline @ ''Arguments:'' @ newline @
        concat (map (\<lambda>p. ''  '' @ pad26 (po_name p) @ '' '' @ po_description p @ newline) (cl_positionals cl))
      else []) @
     newline @ ''Options:'' @ newline @ concat (map help_spec (cl_specs cl))"


section \<open>The grammar of command lines\<close>

text \<open>
  An item is a positional argument or one of the six ways to give an option: with the value
  after an equals sign, in the next argument, or attached to the short name, or as a flag.
\<close>

datatype item =
    Pos string
  | LongEq string string
  | LongSep string string
  | LongFlag string
  | ShortIn char string
  | ShortSep char string
  | ShortFlag char

primrec item_args :: "item \<Rightarrow> string list" where
  "item_args (Pos s) = [s]"
| "item_args (LongEq n v) = [''--'' @ n @ ''='' @ v]"
| "item_args (LongSep n v) = [''--'' @ n, v]"
| "item_args (LongFlag n) = [''--'' @ n]"
| "item_args (ShortIn c v) = [CHR ''-'' # c # v]"
| "item_args (ShortSep c v) = [[CHR ''-'', c], v]"
| "item_args (ShortFlag c) = [[CHR ''-'', c]]"

primrec item_spec :: "Spec list \<Rightarrow> item \<Rightarrow> Spec option" where
  "item_spec specs (Pos s) = None"
| "item_spec specs (LongEq n v) = find_long n specs"
| "item_spec specs (LongSep n v) = find_long n specs"
| "item_spec specs (LongFlag n) = find_long n specs"
| "item_spec specs (ShortIn c v) = find_short c specs"
| "item_spec specs (ShortSep c v) = find_short c specs"
| "item_spec specs (ShortFlag c) = find_short c specs"

primrec item_value :: "item \<Rightarrow> string" where
  "item_value (Pos s) = s"
| "item_value (LongEq n v) = v"
| "item_value (LongSep n v) = v"
| "item_value (LongFlag n) = ''true''"
| "item_value (ShortIn c v) = v"
| "item_value (ShortSep c v) = v"
| "item_value (ShortFlag c) = ''true''"

definition takes_value :: "Spec list \<Rightarrow> item \<Rightarrow> bool" where
  "takes_value specs it = (case item_spec specs it of Some spec \<Rightarrow> \<not> is_flag spec | None \<Rightarrow> False)"

definition takes_none :: "Spec list \<Rightarrow> item \<Rightarrow> bool" where
  "takes_none specs it = (case item_spec specs it of Some spec \<Rightarrow> is_flag spec | None \<Rightarrow> False)"

definition plain_arg :: "string \<Rightarrow> bool" where
  "plain_arg s \<longleftrightarrow> length s < 2 \<or> s ! 0 \<noteq> CHR ''-''"

primrec item_ok :: "Spec list \<Rightarrow> item \<Rightarrow> bool" where
  "item_ok specs (Pos s) = plain_arg s"
| "item_ok specs (LongEq n v) = (CHR ''='' \<notin> set n \<and> takes_value specs (LongEq n v))"
| "item_ok specs (LongSep n v) = (n \<noteq> [] \<and> CHR ''='' \<notin> set n \<and> takes_value specs (LongSep n v))"
| "item_ok specs (LongFlag n) = (n \<noteq> [] \<and> CHR ''='' \<notin> set n \<and> takes_none specs (LongFlag n))"
| "item_ok specs (ShortIn c v) = (c \<noteq> CHR ''-'' \<and> v \<noteq> [] \<and> takes_value specs (ShortIn c v))"
| "item_ok specs (ShortSep c v) = (c \<noteq> CHR ''-'' \<and> takes_value specs (ShortSep c v))"
| "item_ok specs (ShortFlag c) = (c \<noteq> CHR ''-'' \<and> takes_none specs (ShortFlag c))"

definition item_effect :: "Spec list \<Rightarrow> Parsed \<Rightarrow> item \<Rightarrow> Parsed" where
  "item_effect specs parsed it =
     (case item_spec specs it of
        Some spec \<Rightarrow> assign spec (item_value it) parsed
      | None \<Rightarrow> parsed\<lparr>pd_positionals := pd_positionals parsed @ [item_value it]\<rparr>)"

lemma split_at:
  assumes "c \<notin> set n"
  shows "takeWhile (\<lambda>x. x \<noteq> c) (n @ c # v) = n" "dropWhile (\<lambda>x. x \<noteq> c) (n @ c # v) = c # v"
  using assms by (induction n) auto

definition unknown_option :: "string \<Rightarrow> exn" where
  "unknown_option s = UsageError (''unknown option '' @ quoted s)"

lemma named_option_cases:
  "CHR ''='' \<notin> set n \<Longrightarrow> named_option specs (''--'' @ n @ ''='' @ v) =
     (case find_long n specs of None \<Rightarrow> Inl (unknown_option (''--'' @ n)) | Some spec \<Rightarrow> Inr (spec, Some v))"
  "CHR ''='' \<notin> set n \<Longrightarrow> named_option specs (''--'' @ n) =
     (case find_long n specs of None \<Rightarrow> Inl (unknown_option (''--'' @ n)) | Some spec \<Rightarrow> Inr (spec, None))"
  "c \<noteq> CHR ''-'' \<Longrightarrow> named_option specs (CHR ''-'' # c # w) =
     (case find_short c specs of None \<Rightarrow> Inl (unknown_option [CHR ''-'', c]) | Some spec \<Rightarrow> Inr (spec, if w = [] then None else Some w))"
  using split_at [of "CHR ''=''" n v] by (auto simp: named_option_def unknown_option_def split: option.split)

lemma option_arg_cases:
  assumes "\<not> plain_arg arg" "arg \<noteq> ''--''"
  obtains (eq) n v where "arg = ''--'' @ n @ ''='' @ v" "CHR ''='' \<notin> set n"
  | (long) n where "arg = ''--'' @ n" "n \<noteq> []" "CHR ''='' \<notin> set n"
  | (short) c w where "arg = CHR ''-'' # c # w" "c \<noteq> CHR ''-''"
proof -
  obtain c w where arg: "arg = CHR ''-'' # c # w"
    using assms(1) by (cases arg; cases "tl arg") (auto simp: plain_arg_def)
  show thesis
  proof (cases "c = CHR ''-''")
    case True
    then have "w \<noteq> []" using assms(2) arg by simp
    show thesis
    proof (cases "CHR ''='' \<in> set w")
      case True
      then obtain n v where "w = n @ CHR ''='' # v" "CHR ''='' \<notin> set n" using split_list_first by metis
      then show thesis using eq arg \<open>c = _\<close> by simp
    qed (use long [of w] arg \<open>c = _\<close> \<open>w \<noteq> []\<close> in simp)
  qed (use short arg in simp)
qed

lemma parse_args_option:
  assumes "\<not> plain_arg arg" "arg \<noteq> ''--''" "named_option specs arg = Inr (spec, inline)"
  shows "parse_args specs False (arg # args) parsed =
    (case inline of
       Some v \<Rightarrow> if is_flag spec then Inl (UsageError (''option '' @ quoted (''--'' @ so_name spec) @ '' does not take a value''))
         else parse_args specs False args (assign spec v parsed)
     | None \<Rightarrow> if is_flag spec then parse_args specs False args (assign spec ''true'' parsed)
         else (case args of v # args \<Rightarrow> parse_args specs False args (assign spec v parsed)
           | [] \<Rightarrow> Inl (UsageError (''option '' @ quoted (''--'' @ so_name spec) @ '' requires a value''))))"
  using assms by (auto simp: plain_arg_def split: option.splits list.splits)

lemma parse_args_item:
  assumes "item_ok specs it"
  shows "parse_args specs False (item_args it @ args) parsed = parse_args specs False args (item_effect specs parsed it)"
  using assms
  by (cases it) (auto simp: item_effect_def takes_value_def takes_none_def plain_arg_def named_option_cases [simplified]
      split: option.splits)

text \<open>Every accepted argument starts an item, or is the separator before positional arguments.\<close>

lemma accepted_item:
  assumes "parse_args specs False (arg # args) parsed = Inr q" "arg \<noteq> ''--''"
  obtains it rest where "item_ok specs it" "arg # args = item_args it @ rest"
proof (cases "plain_arg arg")
  case True
  then show thesis by (intro that [of "Pos arg" args]) simp_all
next
  case False
  then obtain spec inline where opt: "named_option specs arg = Inr (spec, inline)"
    using assms by (auto simp: plain_arg_def split: sum.splits)
  note step = parse_args_option [OF False assms(2) opt, of args parsed, unfolded assms(1)]
  from False assms(2) show thesis
  proof (cases rule: option_arg_cases)
    case (eq n v)
    then have "find_long n specs = Some spec" "inline = Some v"
      using opt named_option_cases(1) [of n specs v] by (auto split: option.splits)
    then show thesis using step eq by (intro that [of "LongEq n v" args]) (auto simp: takes_value_def split: if_splits)
  next
    case (long n)
    then have "find_long n specs = Some spec" "inline = None"
      using opt named_option_cases(2) [of n specs] by (auto split: option.splits)
    then show thesis
      using step long that [of "LongFlag n" args] that [of "LongSep n (hd args)" "tl args"]
      by (cases args) (auto simp: takes_value_def takes_none_def split: if_splits)
  next
    case (short c w)
    then have "find_short c specs = Some spec" "inline = (if w = [] then None else Some w)"
      using opt named_option_cases(3) [of c specs w] by (auto split: option.splits)
    then show thesis
      using step short that [of "ShortFlag c" args] that [of "ShortSep c (hd args)" "tl args"] that [of "ShortIn c w" args]
      by (cases "w = []"; cases args) (auto simp: takes_value_def takes_none_def split: if_splits)
  qed
qed


text \<open>A whole line: items, then optionally the separator and further positional arguments.\<close>

definition line_args :: "item list \<Rightarrow> string list option \<Rightarrow> string list" where
  "line_args items rest = concat (map item_args items) @ (case rest of None \<Rightarrow> [] | Some ps \<Rightarrow> ''--'' # ps)"

definition line_positionals :: "item list \<Rightarrow> string list option \<Rightarrow> string list" where
  "line_positionals items rest = concat (map (\<lambda>it. case it of Pos s \<Rightarrow> [s] | _ \<Rightarrow> []) items) @ (case rest of None \<Rightarrow> [] | Some ps \<Rightarrow> ps)"

text \<open>The values a line gives to the option of a name, in order.\<close>

definition settings :: "Spec list \<Rightarrow> string \<Rightarrow> item list \<Rightarrow> string list" where
  "settings specs name items =
     map item_value (filter (\<lambda>it. map_option so_name (item_spec specs it) = Some name) items)"

definition line_effect :: "Spec list \<Rightarrow> item list \<Rightarrow> string list option \<Rightarrow> Parsed \<Rightarrow> Parsed" where
  "line_effect specs items rest parsed =
     (let parsed = foldl (item_effect specs) parsed items
      in parsed\<lparr>pd_positionals := pd_positionals parsed @ (case rest of None \<Rightarrow> [] | Some ps \<Rightarrow> ps)\<rparr>)"

lemma parse_args_positionals:
  "parse_args specs True args parsed = Inr (parsed\<lparr>pd_positionals := pd_positionals parsed @ args\<rparr>)"
  by (induction args arbitrary: parsed) simp_all

lemma parse_args_line:
  assumes "list_all (item_ok specs) items"
  shows "parse_args specs False (line_args items rest) parsed = Inr (line_effect specs items rest parsed)"
  using assms
proof (induction items arbitrary: parsed)
  case Nil
  show ?case by (cases rest) (simp_all add: line_args_def line_effect_def parse_args_positionals)
next
  case (Cons it items)
  have "line_args (it # items) rest = item_args it @ line_args items rest" by (simp add: line_args_def)
  then show ?case using Cons parse_args_item [of specs it] by (simp add: line_effect_def)
qed

lemma accepted_line:
  assumes "parse_args specs False args parsed = Inr q"
  shows "\<exists>items rest. list_all (item_ok specs) items \<and> args = line_args items rest"
  using assms
proof (induction "length args" arbitrary: args parsed rule: less_induct)
  case less
  show ?case
  proof (cases args)
    case Nil
    then show ?thesis by (intro exI [of _ "[]"] exI [of _ None]) (simp add: line_args_def)
  next
    case (Cons arg more)
    show ?thesis
    proof (cases "arg = ''--''")
      case True
      then show ?thesis using Cons by (intro exI [of _ "[]"] exI [of _ "Some more"]) (simp add: line_args_def)
    next
      case False
      then obtain it rest where it: "item_ok specs it" "args = item_args it @ rest"
        using accepted_item less.prems Cons by metis
      then have "parse_args specs False rest (item_effect specs parsed it) = Inr q"
        using less.prems parse_args_item [OF it(1)] by simp
      moreover have "length rest < length args" using it(2) by (cases it) simp_all
      ultimately obtain items tl where "list_all (item_ok specs) items" "rest = line_args items tl" using less.hyps by metis
      then show ?thesis using it by (intro exI [of _ "it # items"] exI [of _ tl]) (simp add: line_args_def)
    qed
  qed
qed

section \<open>What a parsed line answers\<close>

lemma entry_value_assign [simp]:
  "entry_value m (assign_entry n v es) = (if m = n then Some v else entry_value m es)"
  by (induction es) auto

lemma given_assign [simp]:
  "list_ex (\<lambda>e. en_name e = m \<and> en_explicit_value e) (assign_entry n v es) \<longleftrightarrow>
     m = n \<or> list_ex (\<lambda>e. en_name e = m \<and> en_explicit_value e) es"
  by (induction es) auto

lemma item_effect_answers:
  "Parsed_value name (item_effect specs p it) =
     (if map_option so_name (item_spec specs it) = Some name then Some (item_value it) else Parsed_value name p)"
  "Parsed_given name (item_effect specs p it) \<longleftrightarrow> map_option so_name (item_spec specs it) = Some name \<or> Parsed_given name p"
  by (auto simp: item_effect_def Parsed_value_def Parsed_given_def assign_def split: option.splits)

lemma items_answers:
  "Parsed_value name (foldl (item_effect specs) p items) =
     (if settings specs name items = [] then Parsed_value name p else Some (last (settings specs name items)))"
  "Parsed_given name (foldl (item_effect specs) p items) \<longleftrightarrow> settings specs name items \<noteq> [] \<or> Parsed_given name p"
  by (induction items arbitrary: p) (auto simp: settings_def item_effect_answers)

lemma items_positionals:
  assumes "list_all (item_ok specs) items"
  shows "pd_positionals (foldl (item_effect specs) p items) =
    pd_positionals p @ concat (map (\<lambda>it. case it of Pos s \<Rightarrow> [s] | _ \<Rightarrow> []) items)"
  using assms
proof (induction items arbitrary: p)
  case (Cons it items)
  then show ?case
    by (cases it) (auto simp: item_effect_def assign_def takes_value_def takes_none_def split: option.splits)
qed simp

lemma entry_value_defaults:
  "entry_value name (default_entries specs) = map_option so_default_value (find_long name (filter (\<lambda>s. \<not> is_flag s) specs))"
  by (induction specs) (simp_all add: default_entries_def)

lemma given_defaults: "\<not> list_ex (\<lambda>e. en_name e = name \<and> en_explicit_value e) (default_entries specs)"
  by (induction specs) (simp_all add: default_entries_def)

lemma parse_line:
  assumes "list_all (item_ok (cl_specs cl)) items" "length (line_positionals items rest) \<le> length (cl_positionals cl)"
  obtains parsed where "parse cl (program # line_args items rest) = Inr parsed"
    "pd_positionals parsed = line_positionals items rest"
    "\<And>name. Parsed_given name parsed \<longleftrightarrow> settings (cl_specs cl) name items \<noteq> []"
    "\<And>name. Parsed_value name parsed = (if settings (cl_specs cl) name items = []
      then map_option so_default_value (find_long name (filter (\<lambda>s. \<not> is_flag s) (cl_specs cl)))
      else Some (last (settings (cl_specs cl) name items)))"
proof -
  define p where "p = \<lparr>pd_entries = default_entries (cl_specs cl), pd_positionals = []\<rparr>"
  define parsed where "parsed = line_effect (cl_specs cl) items rest p"
  have pos: "pd_positionals parsed = line_positionals items rest"
    using items_positionals [OF assms(1), of p]
    by (simp add: parsed_def line_effect_def line_positionals_def Let_def) (simp add: p_def)
  moreover have "parse cl (program # line_args items rest) = Inr parsed"
    using parse_args_line [OF assms(1), of rest p] assms(2) pos by (simp add: parse_def parsed_def p_def)
  moreover have "Parsed_given name parsed \<longleftrightarrow> settings (cl_specs cl) name items \<noteq> []" for name
    using items_answers(2) [of name "cl_specs cl" p items] given_defaults
    by (simp add: parsed_def line_effect_def Let_def Parsed_given_def p_def)
  moreover have "Parsed_value name parsed = (if settings (cl_specs cl) name items = []
      then map_option so_default_value (find_long name (filter (\<lambda>s. \<not> is_flag s) (cl_specs cl)))
      else Some (last (settings (cl_specs cl) name items)))" for name
    using items_answers(1) [of name "cl_specs cl" p items] entry_value_defaults
    by (simp add: parsed_def line_effect_def Let_def Parsed_value_def p_def)
  ultimately show thesis using that by blast
qed

lemma parse_accepts:
  assumes "parse cl (program # args) = Inr parsed"
  obtains items rest where "list_all (item_ok (cl_specs cl)) items" "args = line_args items rest"
    "length (line_positionals items rest) \<le> length (cl_positionals cl)"
proof -
  let ?p = "\<lparr>pd_entries = default_entries (cl_specs cl), pd_positionals = []\<rparr>"
  obtain q where q: "parse_args (cl_specs cl) False args ?p = Inr q" "\<not> length (cl_positionals cl) < length (pd_positionals q)"
    using assms by (auto simp: parse_def split: sum.splits if_splits)
  then obtain items rest where line: "list_all (item_ok (cl_specs cl)) items" "args = line_args items rest"
    using accepted_line by metis
  then have "q = line_effect (cl_specs cl) items rest ?p" using q(1) parse_args_line [OF line(1)] by simp
  then have "pd_positionals q = line_positionals items rest"
    using items_positionals [OF line(1), of ?p] by (simp add: line_effect_def line_positionals_def Let_def)
  then show thesis using that [OF line] q(2) by simp
qed


section \<open>Properties\<close>

text \<open>
  C22: the command lines accepted: arguments are accepted exactly when they are the arguments of
  a sequence of items, each a positional argument or an option of the table given in one of the
  forms the grammar lists (a flag without a value, any other option with one), optionally
  followed by the separator and more positional arguments, with no more positional arguments
  than were declared.
\<close>

theorem command_line_grammar:
  "(\<exists>parsed. parse cl (program # args) = Inr parsed) \<longleftrightarrow>
   (\<exists>items rest. list_all (item_ok (cl_specs cl)) items \<and> args = line_args items rest \<and>
      length (line_positionals items rest) \<le> length (cl_positionals cl))"
  by (metis parse_accepts parse_line)

text \<open>
  What an accepted line means: the last setting of an option wins, an option that is not
  set has its default value, an option counts as given exactly when it was set, and the
  positional arguments are those of the line in order.
\<close>

lemma last_setting_wins:
  assumes "list_all (item_ok (cl_specs cl)) items" "length (line_positionals items rest) \<le> length (cl_positionals cl)"
  shows "\<exists>parsed. parse cl (program # line_args items rest) = Inr parsed \<and>
    pd_positionals parsed = line_positionals items rest \<and>
    (\<forall>name. (Parsed_given name parsed \<longleftrightarrow> settings (cl_specs cl) name items \<noteq> []) \<and>
      Parsed_value name parsed = (if settings (cl_specs cl) name items = []
        then map_option so_default_value (find_long name (filter (\<lambda>s. \<not> is_flag s) (cl_specs cl)))
        else Some (last (settings (cl_specs cl) name items))))"
  using parse_line [OF assms] by metis

definition demo_cl :: CommandLine where
  "demo_cl = cli_positional ''size'' ''a size'' (cli_option ''count'' (CHR ''c'') ''n'' ''how many'' ''7'' (CommandLine_new ''demo'' ''A demo.''))"

end
