(* ===== verification/Reporters.thy ===== *)
theory Reporters
  imports Rates Cli Producer_App Consumer_App
begin

text \<open>
  What the programs print while they run: \<^verbatim>\<open>consumer/consumer_reporter.cpp\<close>,
  \<^verbatim>\<open>producer/producer_reporter.cpp\<close> and the descriptions of the transport in
  \<^verbatim>\<open>common/src/shm_transport.cpp\<close>. Each line begins with the local time, which is an argument. A line
  exists only if the conversions of its floating-point numbers to integers are defined; the lemmas
  give conditions under which they are, show that each report is one line, that the ring's fill
  level takes three columns, and that a line lists problems exactly when there are any.
\<close>

section \<open>Shared texts\<close>

definition info_line :: "tm \<Rightarrow> string \<Rightarrow> string" where
  "info_line time message = ''['' @ local_time_hms time @ ''] '' @ message @ newline"

definition state_text :: "bool \<Rightarrow> string" where
  "state_text is_paused =
     (if is_paused then ''** PAUSED  (any key / SIGUSR2 to resume)'' else ''** RESUMED (any key / SIGUSR1 to pause)'')"

text \<open>\<^verbatim>\<open>{:3.0f}\<close>: right-aligned in three columns.\<close>

definition pad_left :: "nat \<Rightarrow> string \<Rightarrow> string" where
  "pad_left n s = replicate (n - length s) (CHR '' '') @ s"

definition percent_text :: "QueueStatus \<Rightarrow> string" where
  "percent_text queue = pad_left 3 (format_fixed 0 (dbl_mul (fill_ratio queue) (Finite 100)))"

text \<open>\<^verbatim>\<open>format_count(static_cast<std::uint64_t>(x))\<close>.\<close>

definition count_text :: "double \<Rightarrow> string option" where
  "count_text x = map_option format_count (dbl_to_u64 x)"

section \<open>The consumer's reporter\<close>

definition latency_text :: "LatencySample \<Rightarrow> string option" where
  "latency_text l =
     (if LatencySample_is_empty l then Some ''n/a''
      else map_option (\<lambda>average. ''avg '' @ format_duration_ns average @ '' max '' @ format_duration_ns (ls_max_ns l))
        (dbl_to_i64 (average_ns l)))"

definition problems_text :: "ConsumerTotals \<Rightarrow> string" where
  "problems_text t =
     (if ct_corrupted t \<noteq> 0 then '' | corrupted '' @ format_count (ct_corrupted t) else []) @
     (if ct_missing t \<noteq> 0 \<or> ct_sequence_rewinds t \<noteq> 0
      then '' | missing '' @ format_count (ct_missing t) @ '' rewinds '' @ format_count (ct_sequence_rewinds t) else []) @
     (if ct_timestamp_anomalies t \<noteq> 0 then '' | ts-anomalies '' @ format_count (ct_timestamp_anomalies t) else []) @
     (if ct_dropped t \<noteq> 0 then '' | dropped '' @ format_count (ct_dropped t) else [])"

definition ConsoleConsumerReporter_report :: "tm \<Rightarrow> ConsumerSnapshot \<Rightarrow> QueueStatus \<Rightarrow> bool \<Rightarrow> string option" where
  "ConsoleConsumerReporter_report time s queue is_paused =
     (case (latency_text (sn_latency s), count_text (packets_per_second (sn_interval s))) of
        (Some latency, Some rate) \<Rightarrow>
          Some (''['' @ local_time_hms time @ ''] rx '' @ format_count (ct_received (sn_totals s)) @ '' pkt ('' @
            format_bytes (dbl_of_u64 (ct_bytes (sn_totals s))) @ '') | '' @ rate @ '' pkt/s '' @
            format_bytes (bytes_per_second (sn_interval s)) @ ''/s | latency '' @ latency @ '' | ring '' @
            percent_text queue @ ''%'' @ problems_text (sn_totals s) @ '' | '' @
            (if is_paused then ''PAUSED'' else ''RUNNING'') @ newline)
      | _ \<Rightarrow> None)"

definition ConsoleConsumerReporter_defect :: "tm \<Rightarrow> ValidationResult \<Rightarrow> nat \<Rightarrow> string" where
  "ConsoleConsumerReporter_defect time result bytes =
     (let extra = (if vr_has result SequenceGap then '', '' @ format_count (vr_missing result) @ '' packet(s) missing'' else [])
      in info_line time (''!! packet #'' @ show_nat (unat (vr_sequence result)) @ '' ('' @ show_nat bytes @ '' B): '' @
           describe_defects (vr_defects result) @ extra))"

text \<open>The two lines of the summary read the clock separately.\<close>

definition ConsoleConsumerReporter_summary :: "tm \<Rightarrow> tm \<Rightarrow> ConsumerTotals \<Rightarrow> steady_ns \<Rightarrow> string option" where
  "ConsoleConsumerReporter_summary time1 time2 t elapsed =
     (let overall = \<lparr>rs_packets = ct_received t, rs_bytes = ct_bytes t, rs_elapsed = elapsed\<rparr>
      in map_option (\<lambda>rate.
           info_line time1 (''session summary: received '' @ format_count (ct_received t) @ '' packets ('' @
             format_bytes (dbl_of_u64 (ct_bytes t)) @ '') in '' @ format_fixed 2 (RateSample_seconds overall) @ '' s, avg '' @
             rate @ '' pkt/s '' @ format_bytes (bytes_per_second overall) @ ''/s'') @
           info_line time2 (''  valid '' @ format_count (ct_valid t) @ '' | corrupted '' @ format_count (ct_corrupted t) @
             '' | sequence gaps '' @ format_count (ct_sequence_gaps t) @ '' (missing '' @ format_count (ct_missing t) @
             '') | rewinds '' @ format_count (ct_sequence_rewinds t) @ '' | timestamp anomalies '' @
             format_count (ct_timestamp_anomalies t) @ '' | dropped while paused '' @ format_count (ct_dropped t) @ '' ('' @
             format_bytes (dbl_of_u64 (ct_dropped_bytes t)) @ '')''))
         (count_text (packets_per_second overall)))"

text \<open>One call on the reporter, with the clock readings of its lines.\<close>

fun consumer_line :: "tm \<times> tm \<Rightarrow> consumer_report \<Rightarrow> string option" where
  "consumer_line (t1, t2) (RepInfo message) = Some (info_line t1 message)"
| "consumer_line (t1, t2) (RepStateChanged is_paused) = Some (info_line t1 (state_text is_paused))"
| "consumer_line (t1, t2) (RepReport s queue is_paused) = ConsoleConsumerReporter_report t1 s queue is_paused"
| "consumer_line (t1, t2) (RepDefect result bytes) = Some (ConsoleConsumerReporter_defect t1 result bytes)"
| "consumer_line (t1, t2) (RepSummary totals elapsed) = ConsoleConsumerReporter_summary t1 t2 totals elapsed"

section \<open>The producer's reporter\<close>

definition ConsoleProducerReporter_report :: "tm \<Rightarrow> ProducerSnapshot \<Rightarrow> string option" where
  "ConsoleProducerReporter_report time s =
     map_option (\<lambda>rate.
       ''['' @ local_time_hms time @ ''] sent '' @ format_count (psn_total_packets s) @ '' pkt ('' @
       format_bytes (dbl_of_u64 (psn_total_bytes s)) @ '') | '' @ rate @ '' pkt/s '' @
       format_bytes (bytes_per_second (psn_interval s)) @ ''/s | ring '' @ percent_text (psn_queue s) @ ''% | '' @
       (if psn_paused s then ''PAUSED'' else ''RUNNING'') @ newline)
     (count_text (packets_per_second (psn_interval s)))"

definition ConsoleProducerReporter_summary :: "tm \<Rightarrow> u64 \<Rightarrow> u64 \<Rightarrow> steady_ns \<Rightarrow> string option" where
  "ConsoleProducerReporter_summary time packets bytes elapsed =
     (let overall = \<lparr>rs_packets = packets, rs_bytes = bytes, rs_elapsed = elapsed\<rparr>
      in map_option (\<lambda>rate.
           ''['' @ local_time_hms time @ ''] done: '' @ format_count packets @ '' packets, '' @ format_bytes (dbl_of_u64 bytes) @
           '' in '' @ format_fixed 2 (RateSample_seconds overall) @ '' s (avg '' @ rate @ '' pkt/s, '' @
           format_bytes (bytes_per_second overall) @ ''/s)'' @ newline)
         (count_text (packets_per_second overall)))"

fun producer_line :: "tm \<Rightarrow> producer_report \<Rightarrow> string option" where
  "producer_line t (PInfo message) = Some (info_line t message)"
| "producer_line t (PStateChanged is_paused) = Some (info_line t (state_text is_paused))"
| "producer_line t (PReport s) = ConsoleProducerReporter_report t s"
| "producer_line t (PSummary packets bytes elapsed) = ConsoleProducerReporter_summary t packets bytes elapsed"

section \<open>Descriptions of the transport\<close>

definition ShmPacketSink_describe :: "string \<Rightarrow> RingProducer \<Rightarrow> string" where
  "ShmPacketSink_describe name ring =
     ''shm:'' @ name @ '' ('' @ format_bytes (dbl_of_u64 (rp_capacity ring)) @ '' ring)''"

definition ShmPacketSource_describe :: "ShmPacketSource \<Rightarrow> RingControl \<Rightarrow> string" where
  "ShmPacketSource_describe src control =
     (case ss_ring src of
        None \<Rightarrow> ''shm:'' @ ss_name src
      | Some ring \<Rightarrow> ''shm:'' @ ss_name src @ '' ('' @ format_bytes (dbl_of_u64 (rn_capacity ring)) @ '' ring, producer pid '' @
          show_int (sint (rc_producer_pid control)) @ '')'')"

section \<open>Lines\<close>

definition plain :: "string \<Rightarrow> bool" where
  "plain s \<longleftrightarrow> CHR 0x0A \<notin> set s"

lemma plain_simps [simp]:
  "plain []" "plain (c # s) \<longleftrightarrow> c \<noteq> CHR 0x0A \<and> plain s" "plain (as @ bs) \<longleftrightarrow> plain as \<and> plain bs"
  by (auto simp: plain_def)

lemma plain_show_nat [simp]: "plain (show_nat n)"
  using show_nat_digits [of n] by (auto simp: plain_def list_all_iff isdigit_def)

lemma plain_replicate [simp]: "plain (replicate n c) \<longleftrightarrow> n = 0 \<or> c \<noteq> CHR 0x0A"
  by (auto simp: plain_def)

lemma plain_zero_pad [simp]: "plain (zero_pad n s) \<longleftrightarrow> plain s"
  by (simp add: zero_pad_def)

lemma plain_local_time [simp]: "plain (local_time_hms t)"
  by (simp add: local_time_hms_def)

lemma plain_format_count [simp]: "plain (format_count n)"
proof -
  have "show_nat k ! i \<noteq> CHR 0x0A" if "i < length (show_nat k)" for i k
    using plain_show_nat [of k] nth_mem [OF that] by (auto simp: plain_def)
  then show ?thesis by (auto simp: plain_def format_count_def Let_def dest: sym split: if_splits)
qed

lemma plain_format_fixed [simp]: "plain (format_fixed p x)"
  by (cases x) (simp_all add: fixed_digits_def Let_def)

lemma format_bytes_loop_unit: "u < 6 \<Longrightarrow> snd (format_bytes_loop x u) < 6"
proof (induction x u rule: format_bytes_loop.induct)
  case (1 x u)
  then show ?case by (subst format_bytes_loop.simps) (auto simp: kUnits_def)
qed

lemma plain_format_bytes [simp]: "plain (format_bytes x)"
proof -
  obtain b u where loop: "format_bytes_loop x 0 = (b, u)" by (cases "format_bytes_loop x 0")
  then have "u < 6" using format_bytes_loop_unit [of 0 x] by simp
  then have "plain (kUnits ! u)" by (auto simp: kUnits_def less_Suc_eq numeral_eq_Suc)
  then show ?thesis by (simp add: format_bytes_def loop)
qed

lemma plain_format_duration [simp]: "plain (format_duration_ns n)"
  by (simp add: format_duration_ns_def Let_def)

lemma plain_pad_left [simp]: "plain (pad_left n s) \<longleftrightarrow> plain s"
  by (simp add: pad_left_def)

section \<open>Columns and conversions\<close>

lemma percent_text_length:
  assumes "qs_used_bytes q \<le> qs_capacity_bytes q"
  shows "length (percent_text q) = 3"
proof -
  obtain r where r: "fill_ratio q = Finite r" "0 \<le> r" "r \<le> 1" using fill_ratio_bounds [OF assms] .
  define v where "v = round_binary64 (r * 100)"
  have v: "0 \<le> v" "v \<le> of_int 100"
    unfolding v_def using r representable_of_int [of 100] by (auto intro!: round_binary64_sign round_binary64_le)
  have mul: "dbl_mul (fill_ratio q) (Finite 100) = Finite v" unfolding v_def r(1) using r by (simp add: to_double_small)
  have "nat (rne v) < 10 ^ 3" using rne_le [OF v(2)] by simp
  then have "length (show_nat (nat (rne v))) \<le> 3" by (intro length_show_nat) simp_all
  then show ?thesis using v(1) by (simp add: percent_text_def mul pad_left_def fixed_digits_def)
qed

lemma count_text_defined:
  assumes "rs_elapsed s < 2 ^ 63" "unat (rs_packets s) \<le> 2 ^ 32"
  shows "count_text (packets_per_second s) \<noteq> None"
proof (cases "0 < rs_elapsed s")
  case True
  define x :: rat where "x = of_nat (unat (rs_packets s)) * 1000000000 / of_int (rs_elapsed s)"
  obtain t where t: "RateSample_seconds s = Finite t" "0 < t" using seconds_close [OF True assms(1)] by metis
  then have "packets_per_second s = dbl_div (dbl_of_u64 (rs_packets s)) (Finite t)" by (simp add: packets_per_second_def)
  then obtain q where q: "packets_per_second s = Finite q" "close (1 / 2 ^ 49) q x"
    unfolding x_def using count_per_second_close [OF True assms(1) t(1)] by metis
  have "(of_nat (unat (rs_packets s)) :: rat) \<le> of_nat (2 ^ 32)" using assms(2) by (simp only: of_nat_le_iff)
  moreover have "1 \<le> (of_int (rs_elapsed s) :: rat)" using elapsed_rat(1) [OF True] .
  ultimately have "x \<le> of_nat (2 ^ 32) * 1000000000 / 1" unfolding x_def by (intro frac_le) simp_all
  moreover have "0 \<le> x" unfolding x_def using True by (intro divide_nonneg_nonneg mult_nonneg_nonneg of_nat_0_le_iff) simp_all
  ultimately have "0 \<le> q" "q \<le> of_int (2 ^ 64 - 1)" using close_half [OF q(2)] by simp_all
  then have "0 \<le> towards_zero q" "towards_zero q \<le> 2 ^ 64 - 1" using towards_zero_between [of 0 q "2 ^ 64 - 1"] by auto
  then show ?thesis by (simp add: count_text_def q(1) dbl_to_u64_def dbl_to_int_def)
next
  case False
  have nonpos: "to_double q = NegInf \<or> (\<exists>r \<le> 0. to_double q = Finite r)" if "q \<le> 0" for q
    using round_binary64_sign(2) [OF that] by (auto simp: to_double_def Let_def)
  then have "to_double (of_int (rs_elapsed s)) = NegInf \<or> (\<exists>r \<le> 0. to_double (of_int (rs_elapsed s)) = Finite r)"
    using False by simp
  then have "\<not> dbl_less (Finite 0) (RateSample_seconds s)"
  proof (elim disjE exE conjE)
    fix r assume r: "r \<le> 0" "to_double (of_int (rs_elapsed s)) = Finite r"
    then show ?thesis using nonpos [of "r / 1000000000"] by (auto simp: RateSample_seconds_def)
  qed (simp add: RateSample_seconds_def)
  then have "packets_per_second s = Finite 0" by (simp add: packets_per_second_def)
  then show ?thesis by (simp add: count_text_def dbl_to_u64_def dbl_to_int_def towards_zero_def)
qed

lemma latency_text_None:
  "latency_text l = None \<longleftrightarrow> ls_count l = 1 \<and> 2 ^ 63 - 512 \<le> sint (ls_sum_ns l)"
  using average_cast_defined [of l] by (auto simp: latency_text_def LatencySample_is_empty_def)

section \<open>Properties\<close>

text \<open>
  C32: a consumer report is one line that names problems exactly when there are any, and it fails to exist
  only by an undefined conversion of a number: of the packet rate to an unsigned integer, which is
  always defined if the interval is shorter than \<open>2\<^sup>6\<^sup>3\<close> ns and has at most \<open>2\<^sup>3\<^sup>2\<close> packets, or
  of the average latency to a 64-bit integer, which is undefined exactly for a single latency of at
  least \<open>2\<^sup>6\<^sup>3 - 512\<close> ns. A printed line has its only newline at the end; if the ring is not over-full its
  fill level takes three columns; and no problem is listed exactly if no packet was corrupted,
  missing, out of order, off in time or dropped.
\<close>

theorem consumer_report_line:
  "(ConsoleConsumerReporter_report time s queue is_paused = None \<longleftrightarrow>
     dbl_to_u64 (packets_per_second (sn_interval s)) = None \<or>
     (ls_count (sn_latency s) = 1 \<and> 2 ^ 63 - 512 \<le> sint (ls_sum_ns (sn_latency s)))) \<and>
   (rs_elapsed (sn_interval s) < 2 ^ 63 \<and> unat (rs_packets (sn_interval s)) \<le> 2 ^ 32 \<longrightarrow>
     dbl_to_u64 (packets_per_second (sn_interval s)) \<noteq> None) \<and>
   (\<forall>text. ConsoleConsumerReporter_report time s queue is_paused = Some text \<longrightarrow>
     (\<exists>line. text = line @ newline \<and> CHR 0x0A \<notin> set line)) \<and>
   (qs_used_bytes queue \<le> qs_capacity_bytes queue \<longrightarrow> length (percent_text queue) = 3) \<and>
   (problems_text (sn_totals s) = [] \<longleftrightarrow>
     ct_corrupted (sn_totals s) = 0 \<and> ct_missing (sn_totals s) = 0 \<and> ct_sequence_rewinds (sn_totals s) = 0 \<and>
     ct_timestamp_anomalies (sn_totals s) = 0 \<and> ct_dropped (sn_totals s) = 0)"
proof -
  let ?report = "ConsoleConsumerReporter_report time s queue is_paused"
  have "?report = None \<longleftrightarrow> dbl_to_u64 (packets_per_second (sn_interval s)) = None \<or> latency_text (sn_latency s) = None"
    by (auto simp: ConsoleConsumerReporter_report_def count_text_def split: option.splits)
  then have "?report = None \<longleftrightarrow> dbl_to_u64 (packets_per_second (sn_interval s)) = None \<or>
      (ls_count (sn_latency s) = 1 \<and> 2 ^ 63 - 512 \<le> sint (ls_sum_ns (sn_latency s)))"
    by (simp only: latency_text_None)
  moreover have "\<exists>line. out = line @ newline \<and> plain line" if "?report = Some out" for out
  proof -
    from that obtain latency rate where texts: "latency_text (sn_latency s) = Some latency"
        "count_text (packets_per_second (sn_interval s)) = Some rate"
      by (auto simp: ConsoleConsumerReporter_report_def split: option.splits)
    then have p: "plain latency" "plain rate" by (auto simp: latency_text_def count_text_def split: if_splits)
    have "plain (percent_text queue)" "plain (problems_text (sn_totals s))" by (simp_all add: percent_text_def problems_text_def)
    then have "\<exists>line. ?report = Some (line @ newline) \<and> plain line"
      unfolding ConsoleConsumerReporter_report_def texts
      by (simp add: append_assoc [symmetric] p del: append_assoc append.simps)
    then show ?thesis using that by (metis option.inject)
  qed
  moreover have "problems_text (sn_totals s) = [] \<longleftrightarrow>
      ct_corrupted (sn_totals s) = 0 \<and> ct_missing (sn_totals s) = 0 \<and> ct_sequence_rewinds (sn_totals s) = 0 \<and>
      ct_timestamp_anomalies (sn_totals s) = 0 \<and> ct_dropped (sn_totals s) = 0"
    by (auto simp: problems_text_def)
  moreover have "dbl_to_u64 (packets_per_second (sn_interval s)) \<noteq> None"
    if "rs_elapsed (sn_interval s) < 2 ^ 63" "unat (rs_packets (sn_interval s)) \<le> 2 ^ 32"
    using count_text_defined [OF that] by (simp add: count_text_def)
  ultimately show ?thesis using percent_text_length [of queue] unfolding plain_def by blast
qed

theorem consumer_report_line_witness:
  "(\<exists>line. ConsoleConsumerReporter_report \<lparr>tm_hour = 9, tm_min = 5, tm_sec = 59\<rparr>
      \<lparr>sn_totals = ConsumerTotals_zero, sn_interval = \<lparr>rs_packets = 7, rs_bytes = 900, rs_elapsed = 1000000000\<rparr>,
        sn_latency = LatencySample_empty\<rparr>
      \<lparr>qs_used_bytes = 5, qs_capacity_bytes = 4096\<rparr> False = Some (line @ newline) \<and> CHR 0x0A \<notin> set line) \<and>
   ConsoleConsumerReporter_report \<lparr>tm_hour = 9, tm_min = 5, tm_sec = 59\<rparr>
      \<lparr>sn_totals = ConsumerTotals_zero, sn_interval = \<lparr>rs_packets = 1, rs_bytes = 900, rs_elapsed = 1000000000\<rparr>,
        sn_latency = LatencySample_add LatencySample_empty 0x7FFFFFFFFFFFFFFF\<rparr>
      \<lparr>qs_used_bytes = 5, qs_capacity_bytes = 4096\<rparr> False = None"
proof (rule conjI)
  let ?s = "\<lparr>sn_totals = ConsumerTotals_zero, sn_interval = \<lparr>rs_packets = 7, rs_bytes = 900, rs_elapsed = 1000000000\<rparr>,
    sn_latency = LatencySample_empty\<rparr>"
  let ?q = "\<lparr>qs_used_bytes = 5, qs_capacity_bytes = 4096\<rparr>"
  let ?t = "\<lparr>tm_hour = 9, tm_min = 5, tm_sec = 59\<rparr>"
  have "ConsoleConsumerReporter_report ?t ?s ?q False \<noteq> None"
    using consumer_report_line [of ?t ?s ?q False] by (simp add: LatencySample_empty_def)
  then show "\<exists>line. ConsoleConsumerReporter_report ?t ?s ?q False = Some (line @ newline) \<and> CHR 0x0A \<notin> set line"
    using consumer_report_line [of ?t ?s ?q False] by auto
  show "ConsoleConsumerReporter_report ?t
      \<lparr>sn_totals = ConsumerTotals_zero, sn_interval = \<lparr>rs_packets = 1, rs_bytes = 900, rs_elapsed = 1000000000\<rparr>,
        sn_latency = LatencySample_add LatencySample_empty 0x7FFFFFFFFFFFFFFF\<rparr> ?q False = None"
    using consumer_report_line [of ?t "\<lparr>sn_totals = ConsumerTotals_zero,
        sn_interval = \<lparr>rs_packets = 1, rs_bytes = 900, rs_elapsed = 1000000000\<rparr>,
        sn_latency = LatencySample_add LatencySample_empty 0x7FFFFFFFFFFFFFFF\<rparr>" ?q False]
    by (simp add: LatencySample_empty_def LatencySample_add_simps)
qed

text \<open>The same for the producer's reports.\<close>

lemma producer_report_line:
  assumes "rs_elapsed (psn_interval s) < 2 ^ 63" "unat (rs_packets (psn_interval s)) \<le> 2 ^ 32"
  shows "\<exists>line. ConsoleProducerReporter_report time s = Some (line @ newline) \<and> CHR 0x0A \<notin> set line"
proof -
  obtain rate where rate: "count_text (packets_per_second (psn_interval s)) = Some rate"
    using count_text_defined [OF assms] by auto
  then have r: "plain rate" by (auto simp: count_text_def)
  have "plain (percent_text (psn_queue s))" by (simp add: percent_text_def)
  then have "\<exists>line. ConsoleProducerReporter_report time s = Some (line @ newline) \<and> plain line"
    unfolding ConsoleProducerReporter_report_def rate
    by (simp add: append_assoc [symmetric] r del: append_assoc append.simps)
  then show ?thesis by (simp add: plain_def)
qed

text \<open>In every reachable state of the ring, both ends' fill levels take three columns.\<close>

lemma ring_fill_columns:
  assumes "ring_init s" "ring_step\<^sup>*\<^sup>* s t"
  shows "length (percent_text (ShmPacketSink_queue_status (rs_prod t) (rs_control t))) = 3"
    and "length (percent_text (ShmPacketSource_queue_status (src\<lparr>ss_ring := Some (rs_cons t)\<rparr>) (rs_control t))) = 3"
proof -
  have inv: "ring_inv t" by (rule ring.reachable_inv [OF assms])
  then obtain k where "inv_layout k t" by (auto simp: ring_inv_def)
  then have "rp_capacity (rs_prod t) = rc_capacity (rs_control t)" "rn_capacity (rs_cons t) = rc_capacity (rs_control t)"
    by (simp_all add: inv_layout_def)
  then show "length (percent_text (ShmPacketSink_queue_status (rs_prod t) (rs_control t))) = 3"
    "length (percent_text (ShmPacketSource_queue_status (src\<lparr>ss_ring := Some (rs_cons t)\<rparr>) (rs_control t))) = 3"
    using used_bytes [OF inv]
    by (auto intro!: percent_text_length simp: ShmPacketSink_queue_status_def ShmPacketSource_queue_status_def word_le_nat_alt)
qed

end
