(* ===== verification/Consumer_Run.thy ===== *)
theory Consumer_Run
  imports Consumer_App
begin

text \<open>
  Runs of the consumer: \<^verbatim>\<open>ConsumerApp::run\<close> as a sequence of sessions. The lemmas show that the
  totals of a session do not depend on the sessions before it, which calls on the packet source
  a session makes, and, by induction over the turns of the run, when the run returns, how it
  pairs \<^verbatim>\<open>connect\<close> with \<^verbatim>\<open>release\<close> and \<^verbatim>\<open>disconnect\<close>, and what it summarises.
\<close>

section \<open>Sessions of a run\<close>

text \<open>A validator without a baseline behaves like a new one with its tolerance.\<close>

definition same_tracking :: "PacketValidator \<Rightarrow> PacketValidator \<Rightarrow> bool" where
  "same_tracking v w \<longleftrightarrow> pv_future_tolerance_ns v = pv_future_tolerance_ns w \<and>
     (v = w \<or> \<not> pv_has_baseline v \<and> \<not> pv_has_baseline w)"

lemma same_tracking_resync: "same_tracking v w \<Longrightarrow> same_tracking (resync v) (resync w)"
  by (auto simp: same_tracking_def resync_def)

lemma same_tracking_validate:
  assumes "same_tracking v w"
  shows "same_tracking (fst (validate reg v rec now)) (fst (validate reg w rec now))"
    and "snd (validate reg v rec now) = snd (validate reg w rec now)"
  using assms
  by (cases v; cases w; auto simp: same_tracking_def validate_def check_tracking_def Let_def)+

lemma event_results_tracking:
  "same_tracking v w \<Longrightarrow> snd (event_results reg v es) = snd (event_results reg w es)"
proof (induction es arbitrary: v w)
  case (Cons e es)
  then show ?case
    by (cases e) (simp_all add: split_beta Let_def same_tracking_resync same_tracking_validate)
qed simp

definition session_totals :: "registry \<Rightarrow> i64 \<Rightarrow> IPausePolicy \<Rightarrow> session_turn list \<Rightarrow> ConsumerTotals" where
  "session_totals reg tolerance pol turns =
     (let es = session_events pol turns False
      in totals_of (snd (event_results reg (PacketValidator_new tolerance) es)) (event_drops es))"

fun summaries :: "consumer_report list \<Rightarrow> ConsumerTotals list" where
  "summaries [] = []"
| "summaries (RepSummary totals elapsed # rs) = totals # summaries rs"
| "summaries (r # rs) = summaries rs"

lemma summaries_append [simp]: "summaries (as @ bs) = summaries as @ summaries bs"
  by (induction as rule: summaries.induct) simp_all

definition in_session :: "ConsumerApp \<Rightarrow> ConsumerApp \<Rightarrow> bool" where
  "in_session app0 app \<longleftrightarrow> ca_config app = ca_config app0 \<and> ca_policy app = ca_policy app0 \<and>
     pv_future_tolerance_ns (ca_validator app) = pv_future_tolerance_ns (ca_validator app0) \<and>
     summaries (ca_reports app) = summaries (ca_reports app0) \<and>
     (\<exists>cs. ca_calls app = ca_calls app0 @ cs \<and> CallConnect \<notin> set cs \<and> CallDisconnect \<notin> set cs)"

lemma validate_tolerance [simp]: "pv_future_tolerance_ns (fst (validate reg v rec now)) = pv_future_tolerance_ns v"
  by (simp add: validate_def Let_def)

lemma in_session_call:
  "in_session app0 app \<Longrightarrow> c \<noteq> CallConnect \<Longrightarrow> c \<noteq> CallDisconnect \<Longrightarrow> in_session app0 (call c app)"
  by (auto simp: in_session_def call_def)

lemma in_session_keep:
  assumes "in_session app0 app"
  shows "in_session app0 (report (RepInfo msg) app)" "in_session app0 (enter_turn t wp app)"
    "in_session app0 (process reg now rec app)" "in_session app0 (while_paused t app)"
    "in_session app0 (fst (report_if_due t wp (app, timer)))"
  using assms
  by (auto simp: in_session_def report_def enter_turn_def on_resume_def resync_def process_def while_paused_def call_def
      report_if_due_def Let_def split_beta split: IPausePolicy.splits option.splits)

lemma session_loop_in_session:
  assumes "session_loop reg ts wp x = Some app'" "in_session app0 (fst x)"
  shows "\<exists>b. in_session app0 b \<and> app' = call CallRelease b"
  using assms
proof (induction ts arbitrary: wp x)
  case Nil
  then show ?case by (cases x) simp
next
  case (Cons t ts)
  obtain app timer where x: "x = (app, timer)" by (cases x)
  have release: "\<exists>b'. in_session app0 b' \<and> call CallRelease b = call CallRelease b'" if "in_session app0 b" for b
    using that by blast
  have "in_session app0 app" using Cons.prems(2) x by simp
  then show ?case
    using Cons.prems(1) unfolding x
    by (auto simp: Let_def release in_session_keep in_session_call split: if_splits option.splits dest!: Cons.IH)
qed

lemma run_session_in_session:
  assumes "run_session reg reset_clock timer_clock turns app = Some app'"
  obtains b where "in_session app b" "app' = call CallRelease b"
proof -
  note loop = session_loop_in_session [OF assms [unfolded run_session_def Let_def], of app]
  have "\<exists>b. in_session app b \<and> app' = call CallRelease b"
    by (rule loop) (simp add: in_session_def resync_def)
  then show ?thesis using that by blast
qed

lemma run_session_summary:
  assumes "run_session reg reset_clock timer_clock turns app = Some app'"
  shows "cs_totals (ca_stats app') = session_totals reg (pv_future_tolerance_ns (ca_validator app)) (ca_policy app) turns"
proof -
  have "same_tracking (resync (ca_validator app)) (PacketValidator_new (pv_future_tolerance_ns (ca_validator app)))"
    by (simp add: same_tracking_def resync_def PacketValidator_new_def)
  from event_results_tracking [OF this] show ?thesis
    by (simp add: run_session_totals [OF assms] session_totals_def Let_def)
qed

text \<open>The turns of a run that end it, the sessions before them having ended.\<close>

fun run_ends :: "bool \<Rightarrow> run_turn list \<Rightarrow> bool" where
  "run_ends once [] = False"
| "run_ends once (t # ts) = (rt_stop t \<or> rt_connect t \<noteq> Inr True \<or>
     list_ex ends_session (rt_session t) \<and> (once \<or> run_ends once ts))"

definition session_calls :: "source_call list \<Rightarrow> source_call list" where
  "session_calls cs = CallConnect # cs @ [CallRelease, CallDisconnect]"

definition run_history :: "registry \<Rightarrow> run_turn list \<Rightarrow> ConsumerApp \<Rightarrow> ConsumerApp \<Rightarrow> bool" where
  "run_history reg turns app app' \<longleftrightarrow> (\<exists>sessions trailing.
     ca_calls app' = ca_calls app @ concat (map session_calls sessions) @ trailing \<and>
     trailing \<in> {[], [CallConnect]} \<and>
     (\<forall>cs \<in> set sessions. CallConnect \<notin> set cs \<and> CallDisconnect \<notin> set cs) \<and>
     length sessions \<le> (if cc_once (ca_config app) then 1 else length turns) \<and>
     summaries (ca_reports app') = summaries (ca_reports app) @
       map (session_totals reg (pv_future_tolerance_ns (ca_validator app)) (ca_policy app) \<circ> rt_session) (take (length sessions) turns))"

lemma run_history_end:
  assumes "summaries (ca_reports app') = summaries (ca_reports app)"
    and "ca_calls app' = ca_calls app \<or> ca_calls app' = ca_calls app @ [CallConnect]"
  shows "run_history reg turns app app'"
  unfolding run_history_def
  by (rule exI [of _ "[]"], rule exI [of _ "drop (length (ca_calls app)) (ca_calls app')"]) (use assms in auto)

lemma run_history_session:
  assumes "run_history reg ts b app'" "\<not> cc_once (ca_config app) \<or> app' = b"
    and "ca_calls b = ca_calls app @ session_calls cs" "CallConnect \<notin> set cs" "CallDisconnect \<notin> set cs"
    and "ca_config b = ca_config app" "ca_policy b = ca_policy app"
    and "pv_future_tolerance_ns (ca_validator b) = pv_future_tolerance_ns (ca_validator app)"
    and "summaries (ca_reports b) = summaries (ca_reports app) @
      [session_totals reg (pv_future_tolerance_ns (ca_validator app)) (ca_policy app) (rt_session t)]"
  shows "run_history reg (t # ts) app app'"
proof (cases "app' = b")
  case True
  then show ?thesis
    unfolding run_history_def
    by (intro exI [of _ "[cs]"] exI [of _ "[]"]) (use assms in \<open>simp add: True\<close>)
next
  case False
  from assms(1) obtain sessions trailing where h:
    "ca_calls app' = ca_calls b @ concat (map session_calls sessions) @ trailing" "trailing \<in> {[], [CallConnect]}"
    "\<forall>cs \<in> set sessions. CallConnect \<notin> set cs \<and> CallDisconnect \<notin> set cs"
    "length sessions \<le> (if cc_once (ca_config b) then 1 else length ts)"
    "summaries (ca_reports app') = summaries (ca_reports b) @
       map (session_totals reg (pv_future_tolerance_ns (ca_validator b)) (ca_policy b) \<circ> rt_session) (take (length sessions) ts)"
    unfolding run_history_def by blast
  show ?thesis
    unfolding run_history_def
    by (intro exI [of _ "cs # sessions"] exI [of _ trailing]) (use assms h False in simp)
qed

text \<open>The application before the outcome of \<^verbatim>\<open>connect\<close>, at the start of the session, and after it.\<close>

definition waiting_app :: "run_turn \<Rightarrow> ConsumerApp \<Rightarrow> ConsumerApp" where
  "waiting_app t app = call CallConnect (report (RepInfo (''Waiting for a producer on '' @ rt_describe t @ '' ...'')) app)"

definition connected_app :: "run_turn \<Rightarrow> ConsumerApp \<Rightarrow> ConsumerApp" where
  "connected_app t app = report (RepInfo (''Connected to '' @ rt_describe_connected t)) (waiting_app t app)"

definition closed_app :: "run_turn \<Rightarrow> ConsumerApp \<Rightarrow> ConsumerApp" where
  "closed_app t b = report (RepSummary (cs_totals (ca_stats b)) (ConsumerStats_elapsed (ca_stats b) (rt_elapsed_clock t))) (call CallDisconnect b)"

abbreviation turn_session :: "registry \<Rightarrow> run_turn \<Rightarrow> ConsumerApp \<Rightarrow> ConsumerApp option" where
  "turn_session reg t app \<equiv> run_session reg (rt_reset_clock t) (rt_timer_clock t) (rt_session t) (connected_app t app)"

lemma run_loop_turn:
  "rt_stop t \<Longrightarrow> run_loop reg (t # ts) app = Some (Inr 0, app)"
  "\<not> rt_stop t \<Longrightarrow> rt_connect t = Inl e \<Longrightarrow> run_loop reg (t # ts) app = Some (Inl e, waiting_app t app)"
  "\<not> rt_stop t \<Longrightarrow> rt_connect t = Inr False \<Longrightarrow> run_loop reg (t # ts) app = Some (Inr 0, waiting_app t app)"
  "\<not> rt_stop t \<Longrightarrow> rt_connect t = Inr True \<Longrightarrow> turn_session reg t app = None \<Longrightarrow> run_loop reg (t # ts) app = None"
  "\<not> rt_stop t \<Longrightarrow> rt_connect t = Inr True \<Longrightarrow> turn_session reg t app = Some b \<Longrightarrow>
     run_loop reg (t # ts) app =
       (if cc_once (ca_config b) then Some (Inr 0, closed_app t b) else run_loop reg ts (closed_app t b))"
  by (simp_all add: Let_def waiting_app_def connected_app_def closed_app_def)

lemma run_turn_cases:
  obtains "rt_stop t" | e where "\<not> rt_stop t" "rt_connect t = Inl e" | "\<not> rt_stop t" "rt_connect t = Inr False"
    | "\<not> rt_stop t" "rt_connect t = Inr True" "turn_session reg t app = None"
    | b where "\<not> rt_stop t" "rt_connect t = Inr True" "turn_session reg t app = Some b"
  by (cases "rt_connect t"; cases "turn_session reg t app") (auto split: bool.splits)

lemma turn_session_end:
  assumes "turn_session reg t app = Some b"
  shows "ca_config b = ca_config app" "ca_policy b = ca_policy app"
    "pv_future_tolerance_ns (ca_validator b) = pv_future_tolerance_ns (ca_validator app)"
    "summaries (ca_reports b) = summaries (ca_reports app)"
    "\<exists>cs. ca_calls (closed_app t b) = ca_calls app @ session_calls cs \<and> CallConnect \<notin> set cs \<and> CallDisconnect \<notin> set cs"
    "cs_totals (ca_stats b) = session_totals reg (pv_future_tolerance_ns (ca_validator app)) (ca_policy app) (rt_session t)"
proof -
  obtain c where c: "in_session (connected_app t app) c" "b = call CallRelease c"
    using run_session_in_session [OF assms] .
  then show "ca_config b = ca_config app" "ca_policy b = ca_policy app"
    "pv_future_tolerance_ns (ca_validator b) = pv_future_tolerance_ns (ca_validator app)"
    "summaries (ca_reports b) = summaries (ca_reports app)"
    "\<exists>cs. ca_calls (closed_app t b) = ca_calls app @ session_calls cs \<and> CallConnect \<notin> set cs \<and> CallDisconnect \<notin> set cs"
    by (auto simp: in_session_def connected_app_def waiting_app_def closed_app_def report_def call_def session_calls_def)
  show "cs_totals (ca_stats b) = session_totals reg (pv_future_tolerance_ns (ca_validator app)) (ca_policy app) (rt_session t)"
    using run_session_summary [OF assms] by (simp add: connected_app_def waiting_app_def)
qed

lemma run_session_history:
  assumes "turn_session reg t app = Some b" "run_history reg ts (closed_app t b) app'"
    and "\<not> cc_once (ca_config app) \<or> app' = closed_app t b"
  shows "run_history reg (t # ts) app app'"
proof -
  note b = turn_session_end [OF assms(1)]
  from b(5) obtain cs where "ca_calls (closed_app t b) = ca_calls app @ session_calls cs"
    "CallConnect \<notin> set cs" "CallDisconnect \<notin> set cs" by blast
  then show ?thesis
    by (rule run_history_session [OF assms(2,3)]) (simp_all add: closed_app_def b)
qed

lemma run_loop_returns_iff: "run_loop reg ts app \<noteq> None \<longleftrightarrow> run_ends (cc_once (ca_config app)) ts"
proof (induction ts arbitrary: app)
  case (Cons t ts)
  have session: "turn_session reg t app \<noteq> None \<longleftrightarrow> list_ex ends_session (rt_session t)"
    by (simp only: run_session_def Let_def session_loop_returns_iff list_ex_iff)
  show ?case
  proof (cases rule: run_turn_cases [where t = t and reg = reg and app = app])
    case (5 b)
    then show ?thesis
      using session Cons.IH [of "closed_app t b"] turn_session_end(1) [OF 5(3)]
      by (simp add: run_loop_turn(5) closed_app_def del: run_loop.simps)
  qed (use session in \<open>simp_all add: run_loop_turn del: run_loop.simps\<close>)
qed simp

lemma run_loop_history:
  "run_loop reg ts app = Some (r, app') \<Longrightarrow>
     run_history reg ts app app' \<and> (r = Inr 0 \<or> (\<exists>t \<in> set ts. \<exists>e. rt_connect t = Inl e \<and> r = Inl e))"
proof (induction ts arbitrary: app)
  case (Cons t ts)
  have waiting: "run_history reg (t # ts) app (waiting_app t app)"
    by (rule run_history_end) (simp_all add: waiting_app_def report_def call_def)
  show ?case
  proof (cases rule: run_turn_cases [where t = t and reg = reg and app = app])
    case (5 b)
    then have "run_history reg ts (closed_app t b) app' \<and> (\<not> cc_once (ca_config app) \<or> app' = closed_app t b) \<and>
        (r = Inr 0 \<or> (\<exists>t \<in> set ts. \<exists>e. rt_connect t = Inl e \<and> r = Inl e))"
      using Cons.prems Cons.IH [of "closed_app t b"] turn_session_end(1) [OF 5(3)]
      by (auto simp: run_loop_turn(5) run_history_end simp del: run_loop.simps split: if_splits)
    then show ?thesis using run_session_history [OF 5(3)] by auto
  qed (use Cons.prems waiting in \<open>auto simp: run_loop_turn run_history_end simp del: run_loop.simps\<close>)
qed simp

section \<open>Properties\<close>

text \<open>
  C11: a run of the consumer returns exactly when, all sessions before having ended, a stop is
  requested, connecting fails, or with \<^verbatim>\<open>--once\<close> the first session ends. The exit code is 0, or an
  exception of \<^verbatim>\<open>connect\<close>. Either way its history is a sequence of sessions: each
  connects, makes calls other than \<^verbatim>\<open>connect\<close> and \<^verbatim>\<open>disconnect\<close>, releases its last packet and
  disconnects, before the next one connects; at most one last \<^verbatim>\<open>connect\<close> that failed follows; with
  \<^verbatim>\<open>--once\<close> there is at most one session; and there is one summary per session, in order, whose
  totals are those of that session's own packets, counted with a new validator.
\<close>

theorem consumer_run_sessions:
  "(ConsumerApp_run reg turns app \<noteq> None \<longleftrightarrow> run_ends (cc_once (ca_config app)) turns) \<and>
   (\<forall>r app'. ConsumerApp_run reg turns app = Some (r, app') \<longrightarrow> run_history reg turns app app' \<and>
      (r = Inr 0 \<or> (\<exists>t \<in> set turns. \<exists>e. rt_connect t = Inl e \<and> r = Inl e)))"
proof -
  have same: "run_history reg turns (report (RepInfo msg) app) app' = run_history reg turns app app'" for msg app'
    by (simp add: run_history_def) (simp add: report_def)
  show ?thesis
    unfolding ConsumerApp_run_def run_loop_returns_iff
    using run_loop_history same by (metis report_simps(1))
qed

definition demo_run_turn :: "session_turn list \<Rightarrow> run_turn" where
  "demo_run_turn turns = \<lparr>rt_stop = False, rt_describe = ''/ring'', rt_connect = Inr True, rt_describe_connected = ''/ring'',
     rt_reset_clock = 0, rt_timer_clock = 0, rt_session = turns, rt_elapsed_clock = 5\<rparr>"

theorem consumer_run_sessions_witness:
  "\<exists>app'. ConsumerApp_run (\<lambda>_. None) [demo_run_turn [packet_turn False [4], stop_turn]] (demo_app BlockingPausePolicy) = Some (Inr 0, app') \<and>
     run_history (\<lambda>_. None) [demo_run_turn [packet_turn False [4], stop_turn]] (demo_app BlockingPausePolicy) app'"
proof -
  let ?turns = "[demo_run_turn [packet_turn False [4], stop_turn]]" and ?app = "demo_app BlockingPausePolicy"
  note run = consumer_run_sessions [of "\<lambda>_. None" ?turns ?app]
  have "run_ends (cc_once (ca_config ?app)) ?turns"
    by (simp add: demo_run_turn_def demo_app_def ends_session_def stop_turn_def)
  then obtain r app' where r: "ConsumerApp_run (\<lambda>_. None) ?turns ?app = Some (r, app')" using run by auto
  moreover have "r = Inr 0" using run r by (auto simp: demo_run_turn_def)
  ultimately show ?thesis using run by blast
qed

end
