(* ===== verification/Options.thy ===== *)
theory Options
  imports Byte_Size Cli Shm_Transport
begin

text \<open>
  The options of the two programs: \<^verbatim>\<open>producer/producer_options.cpp\<close>,
  \<^verbatim>\<open>consumer/consumer_options.cpp\<close> and their headers, over the command-line parser and the number
  parsers. The floating-point \<^verbatim>\<open>from_chars\<close> used for the rate is a parameter, as is the test for
  a negative value. The help text, written to a stream before returning no options, is part of
  the result.
\<close>

section \<open>Typed options\<close>

text \<open>An exception ends the function; otherwise it goes on with the value.\<close>

definition and_then :: "'a result \<Rightarrow> ('a \<Rightarrow> 'b result) \<Rightarrow> 'b result" where
  "and_then r f = (case r of Inl e \<Rightarrow> Inl e | Inr x \<Rightarrow> f x)"

definition value_or_empty :: "Parsed \<Rightarrow> string \<Rightarrow> string" where
  "value_or_empty parsed name = (case Parsed_value name parsed of Some v \<Rightarrow> v | None \<Rightarrow> [])"

definition byte_size_option :: "Parsed \<Rightarrow> string \<Rightarrow> u64 result" where
  "byte_size_option parsed name =
     (let v = value_or_empty parsed name
      in case parse_byte_size v of
           None \<Rightarrow> Inl (UsageError (''--'' @ name @ '': '' @ quoted v @ '' is not a byte size (e.g. 4096, 64K, 16M)''))
         | Some n \<Rightarrow> Inr n)"

definition uint_option :: "Parsed \<Rightarrow> string \<Rightarrow> u64 result" where
  "uint_option parsed name =
     (let v = value_or_empty parsed name
      in case parse_uint v of
           None \<Rightarrow> Inl (UsageError (''--'' @ name @ '': '' @ quoted v @ '' is not a non-negative integer''))
         | Some n \<Rightarrow> Inr n)"

text \<open>\<open>from_chars_double\<close> gives the value and the rest of the text, or None on an error.\<close>

definition double_option :: "(string \<Rightarrow> ('d \<times> string) option) \<Rightarrow> ('d \<Rightarrow> bool) \<Rightarrow> Parsed \<Rightarrow> string \<Rightarrow> 'd result" where
  "double_option from_chars_double negative parsed name =
     (let v = value_or_empty parsed name;
          error = Inl (UsageError (''--'' @ name @ '': '' @ quoted v @ '' is not a non-negative number''))
      in case from_chars_double v of
           None \<Rightarrow> error
         | Some (d, rest) \<Rightarrow> if rest \<noteq> [] \<or> negative d then error else Inr d)"

text \<open>A \<^verbatim>\<open>uint64_t\<close> as the signed count of a \<^verbatim>\<open>chrono\<close> duration.\<close>

definition milliseconds :: "u64 \<Rightarrow> int" where
  "milliseconds n = sint n"

definition report_interval_option :: "Parsed \<Rightarrow> int result" where
  "report_interval_option parsed =
     (case uint_option parsed ''report-interval'' of
        Inl e \<Rightarrow> Inl e
      | Inr interval \<Rightarrow> if interval = 0 then Inl (UsageError ''--report-interval must be positive'') else Inr (milliseconds interval))"

text \<open>What a program does with its command line: print the help and end, or run with options.\<close>

datatype 'o parsed_options = ShowHelp string | RunWith 'o

section \<open>The producer\<close>

record 'd ProducerOptions =
  pp_payload_size :: u64
  pp_shm_name :: string
  pp_ring_size :: u64
  pp_generator :: string
  pp_checksum :: string
  pp_seed :: u64
  pp_rate :: 'd
  pp_count :: u64
  pp_report_interval :: int
  pp_keyboard :: bool
  pp_wait_for_consumer :: bool

definition producer_cli :: CommandLine where
  "producer_cli =
     (let cli = CommandLine_new ''producer''
            (''Generates packets (header + payload) and streams them to the consumer through'' @ newline @
             ''a shared-memory ring buffer. Any key toggles pause; '' @ quoted ''q'' @ '' or Ctrl-C quits.'' @ newline @
             ''Signals: SIGUSR1 pause, SIGUSR2 resume, SIGINT/SIGTERM stop.'');
          cli = cli_positional ''payload-size'' ''Payload size in bytes (same as --payload-size)'' cli;
          cli = cli_option ''payload-size'' (CHR ''s'') ''bytes'' ''Payload size per packet, e.g. 1024 or 4K'' [] cli;
          cli = cli_option ''shm-name'' (CHR ''n'') ''name'' ''POSIX shared memory object name'' kDefaultShmName cli;
          cli = cli_option ''ring-size'' (CHR ''r'') ''bytes'' ''Ring buffer capacity (rounded up to a power of two)'' ''64M'' cli;
          cli = cli_option ''generator'' (CHR ''g'') ''kind'' ''Payload generator: random | sequential'' ''random'' cli;
          cli = cli_option ''checksum'' (CHR ''k'') ''algo'' ''Checksum: crc32c (CPU-accelerated where available) | crc32'' ''crc32c'' cli;
          cli = cli_option ''seed'' (CHR 0x00) ''n'' ''Seed for the random generator'' ''1'' cli;
          cli = cli_option ''rate'' (CHR 0x00) ''pps'' ''Packets per second, 0 = as fast as possible'' ''0'' cli;
          cli = cli_option ''count'' (CHR ''c'') ''n'' ''Stop after this many packets, 0 = unlimited'' ''0'' cli;
          cli = cli_option ''report-interval'' (CHR 0x00) ''ms'' ''Statistics report period in milliseconds'' ''1000'' cli;
          cli = cli_flag ''wait-for-consumer'' (CHR ''w'') ''Do not start until a consumer attaches'' cli
      in cli_flag ''no-keyboard'' (CHR 0x00) ''Do not read keys from the terminal'' cli)"

definition payload_text :: "Parsed \<Rightarrow> string result" where
  "payload_text parsed =
     (case pd_positionals parsed of
        p # ps \<Rightarrow>
          if Parsed_given ''payload-size'' parsed
          then Inl (UsageError ''payload size given both as an argument and as --payload-size'')
          else Inr p
      | [] \<Rightarrow>
          (case Parsed_value ''payload-size'' parsed of
             None \<Rightarrow> Inl (UsageError (''payload size is required (e.g. '' @ quoted ''producer 1024'' @ '' or '' @ quoted ''producer --payload-size 4K'' @ '')''))
           | Some v \<Rightarrow> Inr v))"

text \<open>The options from the parsed line; the checks are in the order of the code.\<close>

definition producer_options_of ::
  "(string \<Rightarrow> ('d \<times> string) option) \<Rightarrow> ('d \<Rightarrow> bool) \<Rightarrow> Parsed \<Rightarrow> 'd ProducerOptions result" where
  "producer_options_of from_chars_double negative parsed =
     and_then (payload_text parsed) (\<lambda>v.
     and_then (case parse_byte_size v of
           None \<Rightarrow> Inl (UsageError (quoted v @ '' is not a byte size (e.g. 4096, 64K, 16M)''))
         | Some n \<Rightarrow> Inr n) (\<lambda>payload.
     and_then (byte_size_option parsed ''ring-size'') (\<lambda>ring.
     and_then (uint_option parsed ''seed'') (\<lambda>seed.
     and_then (double_option from_chars_double negative parsed ''rate'') (\<lambda>rate.
     and_then (uint_option parsed ''count'') (\<lambda>count.
     and_then (report_interval_option parsed) (\<lambda>interval.
       Inr \<lparr>pp_payload_size = payload,
            pp_shm_name = (case Parsed_value ''shm-name'' parsed of Some s \<Rightarrow> s | None \<Rightarrow> kDefaultShmName),
            pp_ring_size = ring,
            pp_generator = (case Parsed_value ''generator'' parsed of Some s \<Rightarrow> s | None \<Rightarrow> ''random''),
            pp_checksum = (case Parsed_value ''checksum'' parsed of Some s \<Rightarrow> s | None \<Rightarrow> ''crc32c''),
            pp_seed = seed, pp_rate = rate, pp_count = count, pp_report_interval = interval,
            pp_keyboard = (\<not> Parsed_given ''no-keyboard'' parsed),
            pp_wait_for_consumer = Parsed_given ''wait-for-consumer'' parsed\<rparr>)))))))"

definition parse_producer_options ::
  "(string \<Rightarrow> ('d \<times> string) option) \<Rightarrow> ('d \<Rightarrow> bool) \<Rightarrow> string list \<Rightarrow> 'd ProducerOptions parsed_options result" where
  "parse_producer_options from_chars_double negative argv =
     and_then (parse producer_cli argv) (\<lambda>parsed.
       if Parsed_given ''help'' parsed then Inr (ShowHelp (CommandLine_help producer_cli))
       else and_then (producer_options_of from_chars_double negative parsed) (\<lambda>options. Inr (RunWith options)))"

section \<open>The consumer\<close>

record ConsumerOptions =
  cp_shm_name :: string
  cp_pause_policy :: string
  cp_report_interval :: int
  cp_max_defect_logs :: u32
  cp_keyboard :: bool
  cp_once :: bool

definition consumer_cli :: CommandLine where
  "consumer_cli =
     (let cli = CommandLine_new ''consumer''
            (''Receives packets from the producer through a shared-memory ring buffer, verifies'' @ newline @
             ''their metadata and checksum and prints statistics once per report interval.'' @ newline @
             ''Any key toggles pause; '' @ quoted ''q'' @ '' or Ctrl-C quits.'' @ newline @
             ''Signals: SIGUSR1 pause, SIGUSR2 resume, SIGINT/SIGTERM stop.'');
          cli = cli_option ''shm-name'' (CHR ''n'') ''name'' ''POSIX shared memory object name'' kDefaultShmName cli;
          cli = cli_option ''pause-policy'' (CHR ''p'') ''policy''
            ''What happens while paused: block (producer blocks, nothing lost) | discard (drop packets)'' ''block'' cli;
          cli = cli_option ''report-interval'' (CHR 0x00) ''ms'' ''Statistics report period in milliseconds'' ''1000'' cli;
          cli = cli_option ''log-defects'' (CHR 0x00) ''n'' ''Print details for at most n defective packets per session'' ''10'' cli;
          cli = cli_flag ''once'' (CHR ''1'') ''Exit when the producer finishes instead of waiting for the next one'' cli
      in cli_flag ''no-keyboard'' (CHR 0x00) ''Do not read keys from the terminal'' cli)"

definition consumer_options_of :: "Parsed \<Rightarrow> ConsumerOptions result" where
  "consumer_options_of parsed =
     and_then (report_interval_option parsed) (\<lambda>interval.
     and_then (uint_option parsed ''log-defects'') (\<lambda>logs.
       Inr \<lparr>cp_shm_name = (case Parsed_value ''shm-name'' parsed of Some s \<Rightarrow> s | None \<Rightarrow> kDefaultShmName),
            cp_pause_policy = (case Parsed_value ''pause-policy'' parsed of Some s \<Rightarrow> s | None \<Rightarrow> ''block''),
            cp_report_interval = interval, cp_max_defect_logs = ucast logs,
            cp_keyboard = (\<not> Parsed_given ''no-keyboard'' parsed), cp_once = Parsed_given ''once'' parsed\<rparr>))"

definition parse_consumer_options :: "string list \<Rightarrow> ConsumerOptions parsed_options result" where
  "parse_consumer_options argv =
     and_then (parse consumer_cli argv) (\<lambda>parsed.
       if Parsed_given ''help'' parsed then Inr (ShowHelp (CommandLine_help consumer_cli))
       else and_then (consumer_options_of parsed) (\<lambda>options. Inr (RunWith options)))"


section \<open>Options of an accepted line\<close>

text \<open>The value of an option on a line: its last setting, or the default.\<close>

definition setting :: "CommandLine \<Rightarrow> string \<Rightarrow> string \<Rightarrow> item list \<Rightarrow> string" where
  "setting cl name dflt items = last (dflt # settings (cl_specs cl) name items)"

definition flag_set :: "CommandLine \<Rightarrow> string \<Rightarrow> item list \<Rightarrow> bool" where
  "flag_set cl name items \<longleftrightarrow> settings (cl_specs cl) name items \<noteq> []"

definition line_ok :: "CommandLine \<Rightarrow> item list \<Rightarrow> string list option \<Rightarrow> bool" where
  "line_ok cl items rest \<longleftrightarrow> list_all (item_ok (cl_specs cl)) items \<and>
     length (line_positionals items rest) \<le> length (cl_positionals cl)"

lemma parse_settings:
  assumes "line_ok cl items rest"
  obtains parsed where "parse cl (program # line_args items rest) = Inr parsed"
    "pd_positionals parsed = line_positionals items rest"
    "\<And>name. Parsed_given name parsed = flag_set cl name items"
    "\<And>name spec. find_long name (filter (\<lambda>s. \<not> is_flag s) (cl_specs cl)) = Some spec \<Longrightarrow>
       Parsed_value name parsed = Some (setting cl name (so_default_value spec) items)"
proof -
  obtain parsed where p: "parse cl (program # line_args items rest) = Inr parsed"
    "pd_positionals parsed = line_positionals items rest"
    "\<And>name. Parsed_given name parsed \<longleftrightarrow> settings (cl_specs cl) name items \<noteq> []"
    "\<And>name. Parsed_value name parsed = (if settings (cl_specs cl) name items = []
      then map_option so_default_value (find_long name (filter (\<lambda>s. \<not> is_flag s) (cl_specs cl)))
      else Some (last (settings (cl_specs cl) name items)))"
    using parse_line assms unfolding line_ok_def by metis
  then show thesis by (intro that [OF p(1,2)]) (auto simp: flag_set_def setting_def)
qed

lemmas cli_builders = cli_positional_def cli_option_def cli_flag_def CommandLine_new_def is_flag_def

lemma producer_specs:
  "\<exists>spec. find_long ''payload-size'' (filter (\<lambda>s. \<not> is_flag s) (cl_specs producer_cli)) = Some spec \<and> so_default_value spec = []"
  "\<exists>spec. find_long ''shm-name'' (filter (\<lambda>s. \<not> is_flag s) (cl_specs producer_cli)) = Some spec \<and> so_default_value spec = kDefaultShmName"
  "\<exists>spec. find_long ''ring-size'' (filter (\<lambda>s. \<not> is_flag s) (cl_specs producer_cli)) = Some spec \<and> so_default_value spec = ''64M''"
  "\<exists>spec. find_long ''generator'' (filter (\<lambda>s. \<not> is_flag s) (cl_specs producer_cli)) = Some spec \<and> so_default_value spec = ''random''"
  "\<exists>spec. find_long ''checksum'' (filter (\<lambda>s. \<not> is_flag s) (cl_specs producer_cli)) = Some spec \<and> so_default_value spec = ''crc32c''"
  "\<exists>spec. find_long ''seed'' (filter (\<lambda>s. \<not> is_flag s) (cl_specs producer_cli)) = Some spec \<and> so_default_value spec = ''1''"
  "\<exists>spec. find_long ''rate'' (filter (\<lambda>s. \<not> is_flag s) (cl_specs producer_cli)) = Some spec \<and> so_default_value spec = ''0''"
  "\<exists>spec. find_long ''count'' (filter (\<lambda>s. \<not> is_flag s) (cl_specs producer_cli)) = Some spec \<and> so_default_value spec = ''0''"
  "\<exists>spec. find_long ''report-interval'' (filter (\<lambda>s. \<not> is_flag s) (cl_specs producer_cli)) = Some spec \<and> so_default_value spec = ''1000''"
  by (simp_all add: producer_cli_def cli_builders Let_def)

lemma consumer_specs:
  "\<exists>spec. find_long ''shm-name'' (filter (\<lambda>s. \<not> is_flag s) (cl_specs consumer_cli)) = Some spec \<and> so_default_value spec = kDefaultShmName"
  "\<exists>spec. find_long ''pause-policy'' (filter (\<lambda>s. \<not> is_flag s) (cl_specs consumer_cli)) = Some spec \<and> so_default_value spec = ''block''"
  "\<exists>spec. find_long ''report-interval'' (filter (\<lambda>s. \<not> is_flag s) (cl_specs consumer_cli)) = Some spec \<and> so_default_value spec = ''1000''"
  "\<exists>spec. find_long ''log-defects'' (filter (\<lambda>s. \<not> is_flag s) (cl_specs consumer_cli)) = Some spec \<and> so_default_value spec = ''10''"
  by (simp_all add: consumer_cli_def cli_builders Let_def)

lemma and_then_Inr: "and_then r f = Inr y \<longleftrightarrow> (\<exists>x. r = Inr x \<and> f x = Inr y)"
  by (simp add: and_then_def split: sum.split)

lemma option_results:
  "byte_size_option parsed name = Inr n \<longleftrightarrow> parse_byte_size (value_or_empty parsed name) = Some n"
  "uint_option parsed name = Inr n \<longleftrightarrow> parse_uint (value_or_empty parsed name) = Some n"
  "double_option f neg parsed name = Inr d \<longleftrightarrow> f (value_or_empty parsed name) = Some (d, []) \<and> \<not> neg d"
  "report_interval_option parsed = Inr i \<longleftrightarrow> (\<exists>n. parse_uint (value_or_empty parsed ''report-interval'') = Some n \<and> n \<noteq> 0 \<and> i = sint n)"
  by (auto simp: byte_size_option_def uint_option_def double_option_def report_interval_option_def milliseconds_def Let_def split: option.splits)


lemma producer_values:
  assumes "line_ok producer_cli items rest"
  obtains parsed where "parse producer_cli (program # line_args items rest) = Inr parsed"
    "pd_positionals parsed = line_positionals items rest"
    "\<And>name. Parsed_given name parsed = flag_set producer_cli name items"
    "\<And>name d. (name, d) \<in> {(''payload-size'', []), (''shm-name'', kDefaultShmName), (''ring-size'', ''64M''), (''generator'', ''random''),
        (''checksum'', ''crc32c''), (''seed'', ''1''), (''rate'', ''0''), (''count'', ''0''), (''report-interval'', ''1000'')} \<Longrightarrow>
      Parsed_value name parsed = Some (setting producer_cli name d items)"
proof (rule parse_settings [OF assms, of program])
  fix parsed
  assume p: "parse producer_cli (program # line_args items rest) = Inr parsed" "pd_positionals parsed = line_positionals items rest"
    "\<And>name. Parsed_given name parsed = flag_set producer_cli name items"
    "\<And>name spec. find_long name (filter (\<lambda>s. \<not> is_flag s) (cl_specs producer_cli)) = Some spec \<Longrightarrow>
       Parsed_value name parsed = Some (setting producer_cli name (so_default_value spec) items)"
  show thesis
  proof (rule that [OF p(1,2,3)])
    fix name d
    assume "(name, d) \<in> {(''payload-size'', []), (''shm-name'', kDefaultShmName), (''ring-size'', ''64M''), (''generator'', ''random''),
        (''checksum'', ''crc32c''), (''seed'', ''1''), (''rate'', ''0''), (''count'', ''0''), (''report-interval'', ''1000'')}"
    then have "\<exists>spec. find_long name (filter (\<lambda>s. \<not> is_flag s) (cl_specs producer_cli)) = Some spec \<and> so_default_value spec = d"
      using producer_specs by blast
    then show "Parsed_value name parsed = Some (setting producer_cli name d items)" using p(4) by blast
  qed
qed

lemma consumer_values:
  assumes "line_ok consumer_cli items rest"
  obtains parsed where "parse consumer_cli (program # line_args items rest) = Inr parsed"
    "\<And>name. Parsed_given name parsed = flag_set consumer_cli name items"
    "\<And>name d. (name, d) \<in> {(''shm-name'', kDefaultShmName), (''pause-policy'', ''block''), (''report-interval'', ''1000''), (''log-defects'', ''10'')} \<Longrightarrow>
      Parsed_value name parsed = Some (setting consumer_cli name d items)"
proof (rule parse_settings [OF assms, of program])
  fix parsed
  assume p: "parse consumer_cli (program # line_args items rest) = Inr parsed"
    "\<And>name. Parsed_given name parsed = flag_set consumer_cli name items"
    "\<And>name spec. find_long name (filter (\<lambda>s. \<not> is_flag s) (cl_specs consumer_cli)) = Some spec \<Longrightarrow>
       Parsed_value name parsed = Some (setting consumer_cli name (so_default_value spec) items)"
  show thesis
  proof (rule that [OF p(1,2)])
    fix name d
    assume "(name, d) \<in> {(''shm-name'', kDefaultShmName), (''pause-policy'', ''block''), (''report-interval'', ''1000''), (''log-defects'', ''10'')}"
    then have "\<exists>spec. find_long name (filter (\<lambda>s. \<not> is_flag s) (cl_specs consumer_cli)) = Some spec \<and> so_default_value spec = d"
      using consumer_specs by blast
    then show "Parsed_value name parsed = Some (setting consumer_cli name d items)" using p(3) by blast
  qed
qed

lemma producer_options_of_iff:
  "producer_options_of f neg parsed = Inr opts \<longleftrightarrow>
    (\<exists>v. payload_text parsed = Inr v \<and> parse_byte_size v = Some (pp_payload_size opts)) \<and>
    pp_shm_name opts = (case Parsed_value ''shm-name'' parsed of Some s \<Rightarrow> s | None \<Rightarrow> kDefaultShmName) \<and>
    parse_byte_size (value_or_empty parsed ''ring-size'') = Some (pp_ring_size opts) \<and>
    pp_generator opts = (case Parsed_value ''generator'' parsed of Some s \<Rightarrow> s | None \<Rightarrow> ''random'') \<and>
    pp_checksum opts = (case Parsed_value ''checksum'' parsed of Some s \<Rightarrow> s | None \<Rightarrow> ''crc32c'') \<and>
    parse_uint (value_or_empty parsed ''seed'') = Some (pp_seed opts) \<and>
    f (value_or_empty parsed ''rate'') = Some (pp_rate opts, []) \<and> \<not> neg (pp_rate opts) \<and>
    parse_uint (value_or_empty parsed ''count'') = Some (pp_count opts) \<and>
    (\<exists>n. parse_uint (value_or_empty parsed ''report-interval'') = Some n \<and> n \<noteq> 0 \<and> pp_report_interval opts = sint n) \<and>
    pp_keyboard opts = (\<not> Parsed_given ''no-keyboard'' parsed) \<and>
    pp_wait_for_consumer opts = Parsed_given ''wait-for-consumer'' parsed"
proof -
  have size: "(case parse_byte_size v of None \<Rightarrow> Inl e | Some n \<Rightarrow> Inr n) = Inr m \<longleftrightarrow> parse_byte_size v = Some m" for v m and e :: exn
    by (simp split: option.split)
  show ?thesis
    by (cases opts) (auto simp: producer_options_of_def and_then_Inr size option_results)
qed

section \<open>Properties\<close>

text \<open>
  C38: the producer's options: on a well-formed line without --help the program runs with options
  exactly when the payload size comes from one place (the positional argument or the option) and
  is a byte size, the ring size is a byte size, seed and count are 64-bit numbers, the rate is a
  complete number that is not negative, and the report interval is a number other than zero; each
  option is then the last value given for it or its documented default.
\<close>

theorem producer_options_meaning:
  assumes "line_ok producer_cli items rest" "\<not> flag_set producer_cli ''help'' items"
  defines "get \<equiv> \<lambda>name dflt. setting producer_cli name dflt items"
  shows "parse_producer_options from_chars_double negative (program # line_args items rest) = Inr (RunWith opts) \<longleftrightarrow>
    \<not> (line_positionals items rest \<noteq> [] \<and> flag_set producer_cli ''payload-size'' items) \<and>
    parse_byte_size (hd (line_positionals items rest @ [get ''payload-size'' []])) = Some (pp_payload_size opts) \<and>
    pp_shm_name opts = get ''shm-name'' kDefaultShmName \<and>
    parse_byte_size (get ''ring-size'' ''64M'') = Some (pp_ring_size opts) \<and>
    pp_generator opts = get ''generator'' ''random'' \<and> pp_checksum opts = get ''checksum'' ''crc32c'' \<and>
    parse_uint (get ''seed'' ''1'') = Some (pp_seed opts) \<and>
    from_chars_double (get ''rate'' ''0'') = Some (pp_rate opts, []) \<and> \<not> negative (pp_rate opts) \<and>
    parse_uint (get ''count'' ''0'') = Some (pp_count opts) \<and>
    (\<exists>n. parse_uint (get ''report-interval'' ''1000'') = Some n \<and> n \<noteq> 0 \<and> pp_report_interval opts = sint n) \<and>
    pp_keyboard opts = (\<not> flag_set producer_cli ''no-keyboard'' items) \<and>
    pp_wait_for_consumer opts = flag_set producer_cli ''wait-for-consumer'' items"
proof (rule producer_values [OF assms(1), of program])
  fix parsed
  assume p: "parse producer_cli (program # line_args items rest) = Inr parsed" "pd_positionals parsed = line_positionals items rest"
    "\<And>name. Parsed_given name parsed = flag_set producer_cli name items"
    "\<And>name d. (name, d) \<in> {(''payload-size'', []), (''shm-name'', kDefaultShmName), (''ring-size'', ''64M''), (''generator'', ''random''),
        (''checksum'', ''crc32c''), (''seed'', ''1''), (''rate'', ''0''), (''count'', ''0''), (''report-interval'', ''1000'')} \<Longrightarrow>
      Parsed_value name parsed = Some (setting producer_cli name d items)"
  note vals = p(4) [of "''payload-size''" "[]", simplified] p(4) [of "''shm-name''" kDefaultShmName, simplified]
    p(4) [of "''ring-size''" "''64M''", simplified] p(4) [of "''generator''" "''random''", simplified]
    p(4) [of "''checksum''" "''crc32c''", simplified] p(4) [of "''seed''" "''1''", simplified] p(4) [of "''rate''" "''0''", simplified]
    p(4) [of "''count''" "''0''", simplified] p(4) [of "''report-interval''" "''1000''", simplified]
  have payload: "payload_text parsed = Inr v \<longleftrightarrow>
      \<not> (line_positionals items rest \<noteq> [] \<and> flag_set producer_cli ''payload-size'' items) \<and>
      v = hd (line_positionals items rest @ [get ''payload-size'' []])" for v
    by (auto simp: payload_text_def p(2,3) vals get_def split: list.split)
  have "parse_producer_options from_chars_double negative (program # line_args items rest) = Inr (RunWith opts) \<longleftrightarrow>
      producer_options_of from_chars_double negative parsed = Inr opts"
    using assms(2) by (simp add: parse_producer_options_def p(1,3) and_then_Inr and_then_Inr [of "Inr parsed"])
  then show ?thesis
    unfolding producer_options_of_iff payload by (simp add: p(3) value_or_empty_def vals get_def)
qed


text \<open>A rate parser for the witness: plain integers only.\<close>

definition integer_rates :: "string \<Rightarrow> (nat \<times> string) option" where
  "integer_rates s = map_option (\<lambda>n. (unat n, [])) (parse_uint s)"

theorem producer_options_meaning_witness:
  "\<exists>opts. parse_producer_options integer_rates (\<lambda>d. False) [''producer'', ''4K'', ''-c'', ''5''] = Inr (RunWith opts) \<and>
     pp_payload_size opts = 4096 \<and> pp_count opts = 5 \<and> pp_generator opts = ''random''"
proof -
  let ?items = "[Pos ''4K'', ShortSep (CHR ''c'') ''5'']"
  note defs = producer_cli_def cli_builders Let_def line_ok_def line_positionals_def line_args_def setting_def flag_set_def settings_def
    plain_arg_def takes_value_def
  have ok: "line_ok producer_cli ?items None" "\<not> flag_set producer_cli ''help'' ?items" by (simp_all add: defs)
  have units: "tolower (CHR ''K'') = CHR ''k''" "tolower (CHR ''M'') = CHR ''m''" by code_simp+
  have sizes: "parse_byte_size ''4K'' = Some 4096" "parse_byte_size ''64M'' = Some 67108864"
    by (simp_all add: parse_byte_size_def parse_uint_eq isdigit_def decimal_def digit_value_def suffix_multiplier_def unit_multiplier_def
        units word_less_nat_alt unat_div)
  have nums: "parse_uint ''1'' = Some 1" "parse_uint ''0'' = Some 0" "parse_uint ''5'' = Some 5" "parse_uint ''1000'' = Some 1000"
    by (simp_all add: parse_uint_eq isdigit_def decimal_def digit_value_def)
  define opts where "opts = \<lparr>pp_payload_size = 4096, pp_shm_name = kDefaultShmName, pp_ring_size = 67108864, pp_generator = ''random'',
    pp_checksum = ''crc32c'', pp_seed = 1, pp_rate = (0 :: nat), pp_count = 5, pp_report_interval = 1000, pp_keyboard = True,
    pp_wait_for_consumer = False\<rparr>"
  have "parse_producer_options integer_rates (\<lambda>d. False) (''producer'' # line_args ?items None) = Inr (RunWith opts)"
    by (subst producer_options_meaning [OF ok]) (simp add: defs opts_def nums sizes integer_rates_def)
  then show ?thesis by (simp add: opts_def line_args_def)
qed

text \<open>
  The consumer's options: on a well-formed line without --help the program runs with options
  exactly when the report interval is a number other than zero and the number of logged defects
  is a 64-bit number; the latter is kept modulo 2^32, and every other option is the last value
  given for it or its documented default.
\<close>

lemma consumer_options_meaning:
  assumes "line_ok consumer_cli items rest" "\<not> flag_set consumer_cli ''help'' items"
  defines "get \<equiv> \<lambda>name dflt. setting consumer_cli name dflt items"
  shows "parse_consumer_options (program # line_args items rest) = Inr (RunWith opts) \<longleftrightarrow>
    cp_shm_name opts = get ''shm-name'' kDefaultShmName \<and> cp_pause_policy opts = get ''pause-policy'' ''block'' \<and>
    (\<exists>n. parse_uint (get ''report-interval'' ''1000'') = Some n \<and> n \<noteq> 0 \<and> cp_report_interval opts = sint n) \<and>
    (\<exists>n. parse_uint (get ''log-defects'' ''10'') = Some n \<and> unat (cp_max_defect_logs opts) = unat n mod 2 ^ 32) \<and>
    cp_keyboard opts = (\<not> flag_set consumer_cli ''no-keyboard'' items) \<and> cp_once opts = flag_set consumer_cli ''once'' items"
proof (rule consumer_values [OF assms(1), of program])
  fix parsed
  assume p: "parse consumer_cli (program # line_args items rest) = Inr parsed"
    "\<And>name. Parsed_given name parsed = flag_set consumer_cli name items"
    "\<And>name d. (name, d) \<in> {(''shm-name'', kDefaultShmName), (''pause-policy'', ''block''), (''report-interval'', ''1000''), (''log-defects'', ''10'')} \<Longrightarrow>
      Parsed_value name parsed = Some (setting consumer_cli name d items)"
  note vals = p(3) [of "''shm-name''" kDefaultShmName, simplified] p(3) [of "''pause-policy''" "''block''", simplified]
    p(3) [of "''report-interval''" "''1000''", simplified] p(3) [of "''log-defects''" "''10''", simplified]
  have low: "c = ucast n \<longleftrightarrow> unat c = unat n mod 2 ^ 32" for c :: u32 and n :: u64
    by (simp add: word_unat_eq_iff unsigned_ucast_eq take_bit_eq_mod)
  have "parse_consumer_options (program # line_args items rest) = Inr (RunWith opts) \<longleftrightarrow> consumer_options_of parsed = Inr opts"
    using assms(2) by (simp add: parse_consumer_options_def p(1,2) and_then_Inr and_then_Inr [of "Inr parsed"])
  also have "\<dots> \<longleftrightarrow> (\<exists>i n. report_interval_option parsed = Inr i \<and> uint_option parsed ''log-defects'' = Inr n \<and>
      opts = \<lparr>cp_shm_name = get ''shm-name'' kDefaultShmName, cp_pause_policy = get ''pause-policy'' ''block'', cp_report_interval = i,
        cp_max_defect_logs = ucast n, cp_keyboard = (\<not> flag_set consumer_cli ''no-keyboard'' items),
        cp_once = flag_set consumer_cli ''once'' items\<rparr>)"
    by (auto simp: consumer_options_of_def and_then_Inr p(2) vals get_def)
  finally show ?thesis
    by (cases opts) (auto simp: option_results value_or_empty_def vals get_def low)
qed

text \<open>
  Without any argument the producer does not report that a payload size is required: the option
  always has a value, if only the empty default, and the empty text is not a byte size.
\<close>

lemma missing_payload_size_message:
  "parse_producer_options from_chars_double negative [program] =
     Inl (UsageError (quoted [] @ '' is not a byte size (e.g. 4096, 64K, 16M)''))"
proof (rule producer_values [of "[]" None program])
  show "line_ok producer_cli [] None" by (simp add: line_ok_def line_positionals_def)
next
  fix parsed
  assume p: "parse producer_cli (program # line_args [] None) = Inr parsed" "pd_positionals parsed = line_positionals [] None"
    "\<And>name. Parsed_given name parsed = flag_set producer_cli name []"
    "\<And>name d. (name, d) \<in> {(''payload-size'', []), (''shm-name'', kDefaultShmName), (''ring-size'', ''64M''), (''generator'', ''random''),
        (''checksum'', ''crc32c''), (''seed'', ''1''), (''rate'', ''0''), (''count'', ''0''), (''report-interval'', ''1000'')} \<Longrightarrow>
      Parsed_value name parsed = Some (setting producer_cli name d [])"
  have "Parsed_value ''payload-size'' parsed = Some []" using p(4) [of "''payload-size''" "[]"] by (simp add: setting_def settings_def)
  then have "payload_text parsed = Inr []" by (simp add: payload_text_def p(2) line_positionals_def)
  moreover have "parse_byte_size [] = None" by (simp add: parse_byte_size_def)
  ultimately show ?thesis
    using p(1,3) by (simp add: parse_producer_options_def producer_options_of_def and_then_def line_args_def flag_set_def settings_def)
qed

end
