(* ===== verification/Control_Sources.thy ===== *)
theory Control_Sources
  imports Run_Control
begin

text \<open>
  Construction and destruction of the control sources: the terminal mode and the thread of
  \<^verbatim>\<open>common/src/keyboard_source.cpp\<close>, the signal mask and the thread of \<^verbatim>\<open>common/src/signal_source.cpp\<close>.
  The state is what they change of the process: the settings of the terminal, the blocked signals
  and which of the two threads run; what the operating system answers, and what the two threads meet,
  are arguments. A thread has ended when its own loop, run on what it meets after the destructor has
  asked it to stop, returns; a join of a thread that does not is None. The lemmas show that both joins
  return, which settings the raw mode changes, and that they come back unless the \<^verbatim>\<open>tcsetattr\<close> that
  restores them fails: the destructor ignores its result.
\<close>

section \<open>The terminal\<close>

text \<open>\<^verbatim>\<open>struct termios\<close> and the constants of \<^verbatim>\<open><termios.h>\<close> on Linux.\<close>

record termios =
  c_iflag :: u32
  c_oflag :: u32
  c_cflag :: u32
  c_lflag :: u32
  c_cc :: "u8 list"

definition ISIG :: u32 where
  "ISIG = 0x1"

definition ICANON :: u32 where
  "ICANON = 0x2"

definition ECHO :: u32 where
  "ECHO = 0x8"

definition VTIME :: nat where
  "VTIME = 5"

definition VMIN :: nat where
  "VMIN = 6"

text \<open>
  What the terminal and the thread library answer; false is a failure. \<open>ch_tcsetattr\<close> is the call of the
  constructor, \<open>ch_tcrestore\<close> that of the destructor; the last two fields are the turns the threads
  complete before they notice that they are to stop.
\<close>

record console_host =
  ch_isatty :: int
  ch_tcgetpgrp :: int
  ch_getpgrp :: int
  ch_tcgetattr :: bool
  ch_tcsetattr :: bool
  ch_keyboard_thread :: bool
  ch_sigmask :: bool
  ch_signal_thread :: bool
  ch_tcrestore :: bool
  ch_key_turns :: "key_turn list"
  ch_signal_turns :: "(posix_signal option \<times> bool) list"

record os_process =
  pr_tty :: termios
  pr_blocked :: "posix_signal list"
  pr_keyboard_thread :: bool
  pr_signal_thread :: bool

definition raw_mode :: "termios \<Rightarrow> termios" where
  "raw_mode saved = saved\<lparr>c_lflag := c_lflag saved AND NOT (ICANON OR ECHO), c_cc := (c_cc saved)[VMIN := 1, VTIME := 0]\<rparr>"

text \<open>
  \<^verbatim>\<open>RawTerminal\<close>: the constructor returns the saved settings; the destructor sets them again and ignores
  a failure, after which the settings are as they were.
\<close>

definition RawTerminal_new :: "console_host \<Rightarrow> os_process \<Rightarrow> termios result \<times> os_process" where
  "RawTerminal_new host p =
     (if \<not> ch_tcgetattr host then (Inl (SystemError ''tcgetattr''), p)
      else if \<not> ch_tcsetattr host then (Inl (SystemError ''tcsetattr''), p)
      else (Inr (pr_tty p), p\<lparr>pr_tty := raw_mode (pr_tty p)\<rparr>))"

definition RawTerminal_drop :: "console_host \<Rightarrow> termios \<Rightarrow> os_process \<Rightarrow> os_process" where
  "RawTerminal_drop host saved p = (if ch_tcrestore host then p\<lparr>pr_tty := saved\<rparr> else p)"

section \<open>The sources\<close>

text \<open>
  A thread that cannot be started is an exception; the members constructed before it are
  destroyed. \<^verbatim>\<open>jthread\<close> asks its thread to stop and joins it, before the terminal is given back.
\<close>

definition KeyboardControlSource_new :: "console_host \<Rightarrow> os_process \<Rightarrow> termios result \<times> os_process" where
  "KeyboardControlSource_new host p =
     (case RawTerminal_new host p of
        (Inl e, p) \<Rightarrow> (Inl e, p)
      | (Inr saved, p) \<Rightarrow>
          if ch_keyboard_thread host then (Inr saved, p\<lparr>pr_keyboard_thread := True\<rparr>)
          else (Inl (SystemError ''thread''), RawTerminal_drop host saved p))"

text \<open>
  The join returns if the thread's loop does: \<open>turns\<close> are the turns it completes, from the control state
  \<open>c\<close>, before its stop token reads true.
\<close>

definition stop_token_set :: key_turn where
  "stop_token_set = \<lparr>kt_stop = True, kt_poll = 0, kt_revents_bad = False, kt_read = 0, kt_key = CHR ''q''\<rparr>"

definition KeyboardControlSource_drop ::
  "console_host \<Rightarrow> key_turn list \<Rightarrow> RunControl \<Rightarrow> termios \<Rightarrow> os_process \<Rightarrow> (RunControl \<times> os_process) option" where
  "KeyboardControlSource_drop host turns c saved p =
     (case KeyboardControlSource_run (turns @ [stop_token_set]) c of
        (c, ended) \<Rightarrow> if ended then Some (c, RawTerminal_drop host saved (p\<lparr>pr_keyboard_thread := False\<rparr>)) else None)"

definition SignalControlSource_new :: "console_host \<Rightarrow> os_process \<Rightarrow> unit result \<times> os_process" where
  "SignalControlSource_new host p =
     (if \<not> ch_sigmask host then (Inl (SystemError ''pthread_sigmask''), p)
      else let p = p\<lparr>pr_blocked := signal_set @ pr_blocked p\<rparr>
           in if ch_signal_thread host then (Inr (), p\<lparr>pr_signal_thread := True\<rparr>) else (Inl (SystemError ''thread''), p))"

text \<open>
  The destructor sets \<^verbatim>\<open>stopping_\<close>, sends SIGUSR2 to the thread and joins it: \<open>turns\<close> are the turns the
  thread completes before it receives that signal.
\<close>

definition SignalControlSource_drop ::
  "(posix_signal option \<times> bool) list \<Rightarrow> RunControl \<Rightarrow> os_process \<Rightarrow> (RunControl \<times> os_process) option" where
  "SignalControlSource_drop turns c p =
     (case SignalControlSource_run (turns @ [(Some SIGUSR2, True)]) c of
        (c, ended) \<Rightarrow> if ended then Some (c, p\<lparr>pr_signal_thread := False\<rparr>) else None)"

section \<open>Properties of the sources\<close>

lemma signal_run_append:
  "SignalControlSource_run (as @ bs) c =
     (let (c, ended) = SignalControlSource_run as c in if ended then (c, True) else SignalControlSource_run bs c)"
  by (induction as c rule: SignalControlSource_run.induct) simp_all

lemma keyboard_run_append:
  "KeyboardControlSource_run (as @ bs) c =
     (let (c, ended) = KeyboardControlSource_run as c in if ended then (c, True) else KeyboardControlSource_run bs c)"
  by (induction as c rule: KeyboardControlSource_run.induct) simp_all

text \<open>
  Both joins return; the signal that wakes the thread does not resume the application, and the
  keyboard thread reads no key once it is asked to stop.
\<close>

lemma signal_source_drop:
  "SignalControlSource_drop turns c p = Some (fst (SignalControlSource_run turns c), p\<lparr>pr_signal_thread := False\<rparr>)"
  by (auto simp: SignalControlSource_drop_def signal_run_append split_beta)

lemma keyboard_source_drop:
  "KeyboardControlSource_drop host turns c saved p =
     Some (fst (KeyboardControlSource_run turns c), RawTerminal_drop host saved (p\<lparr>pr_keyboard_thread := False\<rparr>))"
  by (auto simp: KeyboardControlSource_drop_def keyboard_run_append stop_token_set_def split_beta)

lemma keyboard_new_eq:
  "KeyboardControlSource_new host p =
     (if \<not> ch_tcgetattr host then (Inl (SystemError ''tcgetattr''), p)
      else if \<not> ch_tcsetattr host then (Inl (SystemError ''tcsetattr''), p)
      else if \<not> ch_keyboard_thread host
      then (Inl (SystemError ''thread''), if ch_tcrestore host then p else p\<lparr>pr_tty := raw_mode (pr_tty p)\<rparr>)
      else (Inr (pr_tty p), p\<lparr>pr_tty := raw_mode (pr_tty p), pr_keyboard_thread := True\<rparr>))"
  by (simp add: KeyboardControlSource_new_def RawTerminal_new_def RawTerminal_drop_def)

lemma keyboard_new_cases:
  assumes "KeyboardControlSource_new host p = (r, p')"
  obtains e where "r = Inl e" "p' = p"
  | e where "r = Inl e" "p' = p\<lparr>pr_tty := raw_mode (pr_tty p)\<rparr>" "ch_tcgetattr host" "ch_tcsetattr host"
      "\<not> ch_keyboard_thread host" "\<not> ch_tcrestore host"
  | "r = Inr (pr_tty p)" "p' = p\<lparr>pr_tty := raw_mode (pr_tty p), pr_keyboard_thread := True\<rparr>"
proof -
  have "(\<exists>e. r = Inl e) \<and> p' = p \<or>
    (\<exists>e. r = Inl e) \<and> p' = p\<lparr>pr_tty := raw_mode (pr_tty p)\<rparr> \<and> ch_tcgetattr host \<and> ch_tcsetattr host \<and>
      \<not> ch_keyboard_thread host \<and> \<not> ch_tcrestore host \<or>
    r = Inr (pr_tty p) \<and> p' = p\<lparr>pr_tty := raw_mode (pr_tty p), pr_keyboard_thread := True\<rparr>"
    using assms unfolding keyboard_new_eq by (simp split: if_splits; blast)
  then show thesis using that by (elim disjE conjE exE)
qed

lemma raw_mode_lflag:
  "bit (c_lflag (raw_mode t)) n = (bit (c_lflag t) n \<and> \<not> bit ICANON n \<and> \<not> bit ECHO n)"
  "c_lflag (raw_mode t) AND ISIG = c_lflag t AND ISIG"
proof -
  have flags: "c_lflag (raw_mode t) = c_lflag t AND NOT (ICANON OR ECHO)" by (simp add: raw_mode_def)
  show "bit (c_lflag (raw_mode t)) n = (bit (c_lflag t) n \<and> \<not> bit ICANON n \<and> \<not> bit ECHO n)"
    unfolding flags by (auto simp: bit_simps dest: bit_imp_le_length)
  have "NOT (ICANON OR ECHO) AND ISIG = ISIG" by (simp add: ISIG_def ICANON_def ECHO_def)
  then show "c_lflag (raw_mode t) AND ISIG = c_lflag t AND ISIG" unfolding flags by (simp only: and.assoc)
qed

lemma raw_mode_rest:
  assumes "VMIN < length (c_cc t)"
  shows "c_cc (raw_mode t) ! VMIN = 1" "c_cc (raw_mode t) ! VTIME = 0"
    "i \<noteq> VMIN \<Longrightarrow> i \<noteq> VTIME \<Longrightarrow> c_cc (raw_mode t) ! i = c_cc t ! i"
    "c_iflag (raw_mode t) = c_iflag t" "c_oflag (raw_mode t) = c_oflag t" "c_cflag (raw_mode t) = c_cflag t"
  using assms by (simp_all add: raw_mode_def VMIN_def VTIME_def)

text \<open>
  C33: the keyboard source borrows the terminal: while it exists keys arrive one by one and are not
  echoed, Ctrl-C still raises a signal and no other setting differs. Whatever its thread meets, destroying
  it returns with the thread ended, the keys read until then acted upon, and the settings of before
  if the \<^verbatim>\<open>tcsetattr\<close> of the destructor succeeds; if that fails the terminal stays in raw mode. A
  construction that fails changes nothing, except that the terminal stays raw if the thread cannot be started
  and restoring fails too.
\<close>

theorem keyboard_borrows_terminal:
  assumes "KeyboardControlSource_new host p = (r, p')" "VMIN < length (c_cc (pr_tty p))"
  shows "case r of
      Inl e \<Rightarrow> p'\<lparr>pr_tty := pr_tty p\<rparr> = p \<and>
        (pr_tty p' = pr_tty p \<or>
         ch_tcgetattr host \<and> ch_tcsetattr host \<and> \<not> ch_keyboard_thread host \<and> \<not> ch_tcrestore host)
    | Inr saved \<Rightarrow>
        (\<forall>n. bit (c_lflag (pr_tty p')) n = (bit (c_lflag (pr_tty p)) n \<and> \<not> bit ICANON n \<and> \<not> bit ECHO n)) \<and>
        (c_lflag (pr_tty p') AND ISIG = c_lflag (pr_tty p) AND ISIG) \<and>
        c_cc (pr_tty p') ! VMIN = 1 \<and> c_cc (pr_tty p') ! VTIME = 0 \<and>
        (\<forall>i. i \<noteq> VMIN \<and> i \<noteq> VTIME \<longrightarrow> c_cc (pr_tty p') ! i = c_cc (pr_tty p) ! i) \<and>
        c_iflag (pr_tty p') = c_iflag (pr_tty p) \<and> c_oflag (pr_tty p') = c_oflag (pr_tty p) \<and>
        c_cflag (pr_tty p') = c_cflag (pr_tty p) \<and> pr_keyboard_thread p' \<and>
        p'\<lparr>pr_tty := pr_tty p, pr_keyboard_thread := pr_keyboard_thread p\<rparr> = p \<and>
        (\<forall>turns c. \<exists>p''. KeyboardControlSource_drop host turns c saved p' = Some (fst (KeyboardControlSource_run turns c), p'') \<and>
           \<not> pr_keyboard_thread p'' \<and> pr_tty p'' = (if ch_tcrestore host then pr_tty p else pr_tty p'))"
  using assms(1)
proof (cases rule: keyboard_new_cases)
  case 3
  then show ?thesis
    using raw_mode_lflag raw_mode_rest [OF assms(2)] by (simp add: keyboard_source_drop RawTerminal_drop_def)
qed simp_all

definition demo_tty :: termios where
  "demo_tty = \<lparr>c_iflag = 0x500, c_oflag = 5, c_cflag = 0xBF, c_lflag = 0x8A3B, c_cc = replicate 32 0\<rparr>"

definition demo_process :: os_process where
  "demo_process = \<lparr>pr_tty = demo_tty, pr_blocked = [], pr_keyboard_thread = False, pr_signal_thread = False\<rparr>"

definition demo_console :: console_host where
  "demo_console = \<lparr>ch_isatty = 1, ch_tcgetpgrp = 7, ch_getpgrp = 7, ch_tcgetattr = True, ch_tcsetattr = True,
     ch_keyboard_thread = True, ch_sigmask = True, ch_signal_thread = True, ch_tcrestore = True,
     ch_key_turns = [\<lparr>kt_stop = False, kt_poll = 1, kt_revents_bad = False, kt_read = 1, kt_key = CHR ''p''\<rparr>],
     ch_signal_turns = [(None, False), (Some SIGUSR1, False)]\<rparr>"

theorem keyboard_borrows_terminal_witness:
  "\<exists>saved p' p''. KeyboardControlSource_new demo_console demo_process = (Inr saved, p') \<and> c_cc (pr_tty p') ! VMIN = 1 \<and>
     KeyboardControlSource_drop demo_console (ch_key_turns demo_console) RunControl_new saved p'
       = Some (\<lparr>ctl_stop = False, ctl_paused = 1\<rparr>, p'') \<and> pr_tty p'' = demo_tty"
proof -
  obtain r p' where new: "KeyboardControlSource_new demo_console demo_process = (r, p')"
    by (cases "KeyboardControlSource_new demo_console demo_process")
  then obtain saved where r: "r = Inr saved" by (auto simp: keyboard_new_eq demo_console_def)
  have "VMIN < length (c_cc (pr_tty demo_process))" by (simp add: VMIN_def demo_process_def demo_tty_def)
  note borrowed = keyboard_borrows_terminal [OF new this]
  have "fst (KeyboardControlSource_run (ch_key_turns demo_console) RunControl_new) = \<lparr>ctl_stop = False, ctl_paused = 1\<rparr>"
    and "ch_tcrestore demo_console" "pr_tty demo_process = demo_tty" by code_simp+
  with borrowed new show ?thesis unfolding r by (auto simp del: One_nat_def) metis
qed

end
