(* ===== verification/Programs.thy ===== *)
theory Programs
  imports Reporters Consumer_Run Options Control_Sources Transport_Lifetime
begin

text \<open>
  The two programs as a whole: \<^verbatim>\<open>consumer/main.cpp\<close> and \<^verbatim>\<open>producer/main.cpp\<close>. Each parses its options,
  constructs the control sources, the factories' products, the transport and the application, runs
  it, and turns exceptions into exit codes; destructors run in reverse order on every path. The
  inputs of the applications and the answers of the system are arguments. The lemmas give the
  exit codes, and show that both programs end their threads and leave the terminal (unless the
  system refuses to restore it) and, if they created one, the ring in order whatever happens.
\<close>

section \<open>Exceptions and exit codes\<close>

text \<open>\<^verbatim>\<open>what()\<close>; a system error ends with the text of its error number, which is an argument.\<close>

fun exn_what :: "string \<Rightarrow> exn \<Rightarrow> string" where
  "exn_what errno_text (InvalidArgument s) = s"
| "exn_what errno_text (RuntimeError s) = s"
| "exn_what errno_text (UsageError s) = s"
| "exn_what errno_text (SystemError s) = s @ '': '' @ errno_text"

text \<open>The two handlers of \<^verbatim>\<open>main\<close>: the exit code and the text on standard error.\<close>

fun handle_exception :: "string \<Rightarrow> string \<Rightarrow> exn \<Rightarrow> int \<times> string" where
  "handle_exception program errno_text (UsageError s) =
     (1, program @ '': '' @ s @ newline @ ''Try '' @ quoted (program @ '' --help'') @ '' for usage.'' @ newline)"
| "handle_exception program errno_text e = (2, program @ '': fatal: '' @ exn_what errno_text e @ newline)"

definition keyboard_text :: "bool \<Rightarrow> string" where
  "keyboard_text has_keyboard =
     (if has_keyboard then ''Keyboard: any key = pause/resume, q = quit''
      else ''Keyboard: not available (stdin is not an interactive terminal)'')"

section \<open>Control sources around the rest of a program\<close>

text \<open>
  The signal source comes first, then the keyboard source if it is wanted and available; \<open>body\<close> is the
  rest of the program, given whether there is a keyboard source. Both are destroyed afterwards,
  also when the rest throws; None is a body, or a join of one of the threads, that does not return. The
  two threads share the control state; each is run on what itself does to it, since the end
  of neither depends on its contents.
\<close>

definition with_keyboard :: "console_host \<Rightarrow> bool \<Rightarrow> (bool \<Rightarrow> ('r result \<times> 's) option) \<Rightarrow> 's \<Rightarrow> os_process \<Rightarrow> (('r result \<times> 's) \<times> os_process) option" where
  "with_keyboard host wanted body nothing p =
     (if wanted \<and> KeyboardControlSource_available (ch_isatty host) (ch_tcgetpgrp host) (ch_getpgrp host)
      then case KeyboardControlSource_new host p of
             (Inl e, p) \<Rightarrow> Some ((Inl e, nothing), p)
           | (Inr saved, p) \<Rightarrow>
               (case body True of
                  None \<Rightarrow> None
                | Some r \<Rightarrow> map_option (\<lambda>(c, p). (r, p)) (KeyboardControlSource_drop host (ch_key_turns host) RunControl_new saved p))
      else map_option (\<lambda>r. (r, p)) (body False))"

definition with_controls :: "console_host \<Rightarrow> bool \<Rightarrow> (bool \<Rightarrow> ('r result \<times> 's) option) \<Rightarrow> 's \<Rightarrow> os_process \<Rightarrow> (('r result \<times> 's) \<times> os_process) option" where
  "with_controls host wanted body nothing p =
     (case SignalControlSource_new host p of
        (Inl e, p) \<Rightarrow> Some ((Inl e, nothing), p)
      | (Inr _, p) \<Rightarrow>
          (case with_keyboard host wanted body nothing p of
             None \<Rightarrow> None
           | Some (r, p) \<Rightarrow> map_option (\<lambda>(c, p). (r, p)) (SignalControlSource_drop (ch_signal_turns host) RunControl_new p)))"

text \<open>What a program leaves behind: exit code, standard error, its reports (or the help text), and the process.\<close>

record 'r outcome =
  oc_exit :: int
  oc_stderr :: string
  oc_help :: string
  oc_output :: 'r
  oc_process :: os_process

definition finish :: "string \<Rightarrow> string \<Rightarrow> (int result \<times> 's) \<times> os_process \<Rightarrow> 's outcome" where
  "finish program errno_text x =
     (case x of ((Inr code, out), p) \<Rightarrow> \<lparr>oc_exit = code, oc_stderr = [], oc_help = [], oc_output = out, oc_process = p\<rparr>
      | ((Inl e, out), p) \<Rightarrow>
          (let (code, err) = handle_exception program errno_text e
           in \<lparr>oc_exit = code, oc_stderr = err, oc_help = [], oc_output = out, oc_process = p\<rparr>))"

section \<open>The consumer\<close>

definition consumer_config :: "ConsumerOptions \<Rightarrow> ConsumerConfig" where
  "consumer_config options =
     \<lparr>cc_report_interval = cp_report_interval options, cc_receive_timeout = 50,
      cc_max_defect_logs = cp_max_defect_logs options, cc_once = cp_once options\<rparr>"

text \<open>From the registry of checksums to \<^verbatim>\<open>app.run()\<close>; \<open>stats_clock\<close> is the reading of the statistics' constructor.\<close>

definition consumer_body :: "crc_cpu \<Rightarrow> steady_ns \<Rightarrow> run_turn list \<Rightarrow> ConsumerOptions \<Rightarrow> bool \<Rightarrow> (int result \<times> consumer_report list) option" where
  "consumer_body cpu stats_clock turns options has_keyboard =
     (case make_pause_policy (cp_pause_policy options) of
        Inl e \<Rightarrow> Some (Inl e, [])
      | Inr policy \<Rightarrow>
          (let infos = [RepInfo (keyboard_text has_keyboard),
                 RepInfo (''Checksums: crc32 (software), crc32c ('' @ (if hardware_available cpu then ''hardware'' else ''software'') @ '')'')];
               app = \<lparr>ca_config = consumer_config options, ca_validator = PacketValidator_new 1000000000, ca_policy = policy,
                 ca_stats = ConsumerStats_new stats_clock, ca_defect_logs = 0, ca_calls = [], ca_reports = infos\<rparr>
           in map_option (\<lambda>(r, app). (r, ca_reports app)) (ConsumerApp_run (ChecksumRegistry_find cpu) turns app)))"

definition consumer_main ::
  "console_host \<Rightarrow> string \<Rightarrow> crc_cpu \<Rightarrow> steady_ns \<Rightarrow> run_turn list \<Rightarrow> string list \<Rightarrow> os_process \<Rightarrow> consumer_report list outcome option" where
  "consumer_main host errno_text cpu stats_clock turns argv p =
     (case parse_consumer_options argv of
        Inl e \<Rightarrow> Some (finish ''consumer'' errno_text ((Inl e, []), p))
      | Inr (ShowHelp help) \<Rightarrow> Some \<lparr>oc_exit = 0, oc_stderr = [], oc_help = help, oc_output = [], oc_process = p\<rparr>
      | Inr (RunWith options) \<Rightarrow>
          map_option (finish ''consumer'' errno_text)
            (with_controls host (cp_keyboard options) (consumer_body cpu stats_clock turns options) [] p))"

section \<open>The producer\<close>

definition producer_config :: "double ProducerOptions \<Rightarrow> ProducerConfig" where
  "producer_config options =
     \<lparr>pc_payload_size = pp_payload_size options, pc_max_packets = pp_count options,
      pc_report_interval = pp_report_interval options, pc_reserve_timeout = 50,
      pc_wait_for_consumer = pp_wait_for_consumer options\<rparr>"

text \<open>
  What the producer's parts meet: the processes, the system calls, the contents of mapped regions, the
  control block when the sink is destroyed, and the inputs of the application.
\<close>

record producer_host =
  ph_cpu :: crc_cpu
  ph_avx2 :: bool
  ph_kill :: "i32 \<Rightarrow> kill_result"
  ph_getpid :: i32
  ph_os :: os
  ph_memory :: memory
  ph_control :: RingControl
  ph_limiter_clock :: int
  ph_inputs :: producer_inputs

text \<open>What the producer leaves behind: the control block of its ring, if it created one, its reports and its system calls.\<close>

record producer_output =
  po_control :: "RingControl option"
  po_reports :: "producer_report list"
  po_trace :: trace

definition no_ring :: "trace \<Rightarrow> producer_output" where
  "no_ring tr = \<lparr>po_control = None, po_reports = [], po_trace = tr\<rparr>"

text \<open>
  From the sink's construction on; the sink is destroyed afterwards, whatever happened. None: the loop
  does not end, or the interval of the rate is undefined.
\<close>

definition producer_with_sink ::
  "producer_host \<Rightarrow> double ProducerOptions \<Rightarrow> bool \<Rightarrow> IChecksum \<Rightarrow> IPayloadGenerator \<Rightarrow> ShmPacketSink \<Rightarrow> trace
     \<Rightarrow> (int result \<times> producer_output) option" where
  "producer_with_sink host options has_keyboard checksum generator sink tr =
     (case RateLimiter_of_rate (pp_rate options) (ph_limiter_clock host) of
        None \<Rightarrow> None
      | Some limiter \<Rightarrow>
          (let infos = [PInfo (keyboard_text has_keyboard),
                 PInfo (''Checksum: '' @ ck_name checksum @ '', payload generator: '' @ generator_name generator)];
               app = \<lparr>pa_config = producer_config options, pa_builder = \<lparr>pb_generator = generator, pb_checksum = checksum\<rparr>,
                 pa_limiter = limiter, pa_calls = [], pa_reports = infos\<rparr>;
               inputs = (ph_inputs host)\<lparr>pi_max_packet_size := ShmPacketSink_max_packet_size (sk_ring sink),
                 pi_describe := ShmPacketSink_describe (pp_shm_name options) (sk_ring sink)\<rparr>;
               leave = (\<lambda>reports. let (control, tr) = ShmPacketSink_drop (ph_os host) (sink\<lparr>sk_control := ph_control host\<rparr>) tr
                 in \<lparr>po_control = Some control, po_reports = reports, po_trace = tr\<rparr>)
           in case ProducerApp_run inputs app of
                None \<Rightarrow> None
              | Some (Inl e) \<Rightarrow> Some (Inl e, leave infos)
              | Some (Inr (code, app)) \<Rightarrow> Some (Inr code, leave (pa_reports app))))"

definition producer_body ::
  "producer_host \<Rightarrow> double ProducerOptions \<Rightarrow> bool \<Rightarrow> (int result \<times> producer_output) option" where
  "producer_body host options has_keyboard =
     (case make_checksum (ph_cpu host) (pp_checksum options) of
        Inl e \<Rightarrow> Some (Inl e, no_ring [])
      | Inr checksum \<Rightarrow>
          (case make_payload_generator (ph_avx2 host) (pp_generator options) (pp_seed options) of
             Inl e \<Rightarrow> Some (Inl e, no_ring [])
           | Inr generator \<Rightarrow>
               (case ShmPacketSink_new (ph_os host) (ph_memory host) (ph_kill host) (ph_getpid host) (pp_shm_name options)
                       (pp_ring_size options) [] of
                  None \<Rightarrow> None
                | Some (Inl e, tr) \<Rightarrow> Some (Inl e, no_ring tr)
                | Some (Inr sink, tr) \<Rightarrow> producer_with_sink host options has_keyboard checksum generator sink tr)))"

text \<open>\<^verbatim>\<open>from_chars\<close> for a double is an argument; a value is refused if it is below zero.\<close>

definition producer_main ::
  "console_host \<Rightarrow> string \<Rightarrow> (string \<Rightarrow> (double \<times> string) option) \<Rightarrow> producer_host \<Rightarrow> string list \<Rightarrow> os_process
     \<Rightarrow> producer_output outcome option" where
  "producer_main console errno_text from_chars_double host argv p =
     (case parse_producer_options from_chars_double (\<lambda>x. dbl_less x (Finite 0)) argv of
        Inl e \<Rightarrow> Some (finish ''producer'' errno_text ((Inl e, no_ring []), p))
      | Inr (ShowHelp help) \<Rightarrow> Some \<lparr>oc_exit = 0, oc_stderr = [], oc_help = help, oc_output = no_ring [], oc_process = p\<rparr>
      | Inr (RunWith options) \<Rightarrow>
          map_option (finish ''producer'' errno_text)
            (with_controls console (pp_keyboard options) (producer_body host options) (no_ring []) p))"

section \<open>Errors of the command line\<close>

definition usage_error :: "exn \<Rightarrow> bool" where
  "usage_error e \<longleftrightarrow> (\<exists>m. e = UsageError m)"

lemma usage_error_simps [simp]:
  "usage_error (UsageError m)" "\<not> usage_error (InvalidArgument m)" "\<not> usage_error (RuntimeError m)" "\<not> usage_error (SystemError m)"
  by (simp_all add: usage_error_def)

text \<open>Results whose only exceptions are usage errors.\<close>

definition usage_only :: "'a result \<Rightarrow> bool" where
  "usage_only r \<longleftrightarrow> (\<forall>e. r = Inl e \<longrightarrow> usage_error e)"

lemma usage_only_simps [simp]: "usage_only (Inr x)" "usage_only (Inl e) = usage_error e"
  by (simp_all add: usage_only_def)

lemma usage_only_and_then: "usage_only r \<Longrightarrow> (\<And>x. usage_only (f x)) \<Longrightarrow> usage_only (and_then r f)"
  by (cases r) (simp_all add: and_then_def)

lemma named_option_usage: "usage_only (named_option specs arg)"
  by (simp add: named_option_def Let_def split: option.split)

lemma parse_args_usage: "usage_only (parse_args specs only_positionals args parsed)"
proof (induction specs only_positionals args parsed rule: parse_args.induct)
  case (2 specs only_positionals arg args parsed)
  have "usage_error e" if "named_option specs arg = Inl e" for e
    using named_option_usage [of specs arg] that by simp
  with 2 show ?case by (auto split: sum.splits option.splits list.splits prod.splits)
qed simp

lemma parse_usage: "usage_only (parse cl argv)"
  using parse_args_usage [of "cl_specs cl" False "drop 1 argv"] by (auto simp: parse_def usage_only_def split: sum.splits if_splits)

lemma option_usage:
  "usage_only (byte_size_option parsed name)" "usage_only (uint_option parsed name)"
  "usage_only (double_option fc neg parsed name)" "usage_only (report_interval_option parsed)" "usage_only (payload_text parsed)"
proof -
  show u: "usage_only (uint_option parsed name)" for name by (simp add: uint_option_def Let_def split: option.split)
  show "usage_only (byte_size_option parsed name)" by (simp add: byte_size_option_def Let_def split: option.split)
  show "usage_only (double_option fc neg parsed name)" by (simp add: double_option_def Let_def split: option.split)
  show "usage_only (report_interval_option parsed)"
    using u [of "''report-interval''"] by (auto simp: report_interval_option_def split: sum.split)
  show "usage_only (payload_text parsed)" by (simp add: payload_text_def split: list.split option.split)
qed

lemma consumer_options_usage: "usage_only (parse_consumer_options argv)"
  unfolding parse_consumer_options_def consumer_options_of_def
  by (intro usage_only_and_then parse_usage) (simp add: usage_only_and_then option_usage)

lemma usage_only_case: "usage_only (case x of None \<Rightarrow> Inl (UsageError m) | Some n \<Rightarrow> Inr n)"
  by (simp split: option.split)

lemma producer_options_usage: "usage_only (parse_producer_options fc neg argv)"
  unfolding parse_producer_options_def producer_options_of_def
  by (intro usage_only_and_then parse_usage) (simp add: usage_only_and_then usage_only_case option_usage)

section \<open>What the control sources leave behind\<close>

text \<open>
  The only difference a source or program leaves: the blocked signals, and the raw mode of the terminal if
  restoring its settings fails.
\<close>

definition leaves_only :: "console_host \<Rightarrow> os_process \<Rightarrow> os_process \<Rightarrow> bool" where
  "leaves_only host p p' \<longleftrightarrow> p'\<lparr>pr_blocked := pr_blocked p, pr_tty := pr_tty p\<rparr> = p \<and>
     (pr_tty p' = pr_tty p \<or> \<not> ch_tcrestore host \<and> pr_tty p' = raw_mode (pr_tty p))"

lemma leaves_only_refl [simp]: "leaves_only host p p"
  by (simp add: leaves_only_def)

lemma keyboard_round_trip:
  assumes "KeyboardControlSource_new host p = (r, p')" "\<not> pr_keyboard_thread p"
  shows "case r of Inl e \<Rightarrow> leaves_only host p p' \<and> pr_blocked p' = pr_blocked p \<and> \<not> usage_error e
    | Inr saved \<Rightarrow> (case KeyboardControlSource_drop host turns c saved p' of
        None \<Rightarrow> False | Some (c, p'') \<Rightarrow> leaves_only host p p'' \<and> pr_blocked p'' = pr_blocked p)"
  using assms unfolding keyboard_new_eq
  by (auto simp: keyboard_source_drop RawTerminal_drop_def leaves_only_def split: if_splits)

lemma with_keyboard_process:
  assumes "with_keyboard host wanted body nothing p = Some (x, p')" "\<not> pr_keyboard_thread p"
  shows "leaves_only host p p' \<and> pr_blocked p' = pr_blocked p \<and>
    ((\<exists>e. x = (Inl e, nothing) \<and> \<not> usage_error e) \<or> (\<exists>has. body has = Some x))"
proof -
  obtain r q where new: "KeyboardControlSource_new host p = (r, q)" by (cases "KeyboardControlSource_new host p")
  show ?thesis
    using assms(1) keyboard_round_trip [OF new assms(2), of "ch_key_turns host" RunControl_new]
    by (auto simp: with_keyboard_def new split: if_splits sum.splits option.splits)
qed

text \<open>
  The process after the sources are gone; the outcome is that of the rest of the program, or a system
  error of a constructor.
\<close>

lemma with_controls_process:
  assumes "with_controls host wanted body nothing p = Some (x, p')" "\<not> pr_keyboard_thread p" "\<not> pr_signal_thread p"
  shows "leaves_only host p p' \<and> ((\<exists>e. x = (Inl e, nothing) \<and> \<not> usage_error e) \<or> (\<exists>has. body has = Some x))"
proof -
  let ?q = "p\<lparr>pr_blocked := signal_set @ pr_blocked p\<rparr>"
  consider "\<not> ch_sigmask host" | "ch_sigmask host" "\<not> ch_signal_thread host" | "ch_sigmask host" "ch_signal_thread host" by blast
  then show ?thesis
  proof cases
    case 3
    then obtain q where q: "with_keyboard host wanted body nothing (?q\<lparr>pr_signal_thread := True\<rparr>) = Some (x, q)"
      "p' = q\<lparr>pr_signal_thread := False\<rparr>"
      using assms(1) by (auto simp: with_controls_def SignalControlSource_new_def Let_def signal_source_drop split: option.splits)
    from with_keyboard_process [OF q(1)] q(2) assms(2,3) show ?thesis by (cases p; cases q) (auto simp: leaves_only_def)
  qed (use assms(1) in \<open>auto simp: with_controls_def SignalControlSource_new_def Let_def leaves_only_def\<close>)
qed

text \<open>The sources add no way of not returning: both threads end when they are asked to.\<close>

lemma with_controls_returns:
  assumes "\<And>has. body has \<noteq> None"
  shows "with_controls host wanted body nothing p \<noteq> None"
proof -
  have keyboard: "with_keyboard host wanted body nothing q \<noteq> None" for q
    using assms [of True] assms [of False] by (auto simp: with_keyboard_def keyboard_source_drop split: prod.splits sum.splits option.splits)
  obtain r q where new: "SignalControlSource_new host p = (r, q)" by fastforce
  obtain x q' where "with_keyboard host wanted body nothing q = Some (x, q')" using keyboard [of q] by auto
  then show ?thesis by (cases r) (simp_all add: with_controls_def signal_source_drop new)
qed

lemma finish_process [simp]:
  "oc_process (finish program errno_text (x, p)) = p" "oc_output (finish program errno_text (x, p)) = snd x"
  by (cases "fst x"; cases x; simp add: finish_def split_beta)+

lemma finish_exit [simp]:
  "oc_exit (finish program errno_text ((Inr code, y), p)) = code" "oc_stderr (finish program errno_text ((Inr code, y), p)) = []"
  "oc_exit (finish program errno_text ((Inl e, y), p)) = (if usage_error e then 1 else 2)"
  "oc_stderr (finish program errno_text ((Inl e, y), p)) \<noteq> []"
  by (cases e; simp add: finish_def)+

text \<open>The outcomes of the rest of each program.\<close>

lemma run_outcome:
  assumes "ConsumerApp_run reg turns app = Some (r, app')"
  shows "r = Inr 0 \<or> (\<exists>t \<in> set turns. \<exists>e. rt_connect t = Inl e \<and> r = Inl e)"
  using run_loop_history [OF assms [unfolded ConsumerApp_run_def]] by blast

lemma consumer_body_exit:
  assumes "consumer_body cpu stats_clock turns options has_keyboard = Some x"
    and "\<forall>t \<in> set turns. \<forall>e. rt_connect t = Inl e \<longrightarrow> \<not> usage_error e"
  shows "fst x = Inr 0 \<or> (\<exists>e. fst x = Inl e \<and> \<not> usage_error e)"
proof (cases "make_pause_policy (cp_pause_policy options)")
  case (Inl e)
  then show ?thesis using assms(1) by (auto simp: consumer_body_def make_pause_policy_def split: if_splits)
next
  case (Inr policy)
  then obtain app r app' where "ConsumerApp_run (ChecksumRegistry_find cpu) turns app = Some (r, app')" "fst x = r"
    using assms(1) by (auto simp: consumer_body_def Let_def)
  then show ?thesis using run_outcome assms(2) by blast
qed

lemma consumer_body_returns:
  assumes "run_ends (cp_once options) turns"
  shows "consumer_body cpu stats_clock turns options has_keyboard \<noteq> None"
proof -
  have "ConsumerApp_run reg turns app \<noteq> None" if "cc_once (ca_config app) = cp_once options" for reg app
    unfolding ConsumerApp_run_def run_loop_returns_iff using assms that by simp
  then show ?thesis by (auto simp: consumer_body_def Let_def consumer_config_def split: sum.splits)
qed

lemma producer_run_exit: "ProducerApp_run i app = Some (Inr (code, app')) \<Longrightarrow> code = 0"
  "ProducerApp_run i app = Some (Inl e) \<Longrightarrow> \<not> usage_error e"
  by (auto simp: ProducerApp_run_def Let_def split: if_splits option.splits)

lemma normalize_loop_error: "normalize_loop requested capacity = Some r \<Longrightarrow> \<forall>e. r = Inl e \<longrightarrow> \<not> usage_error e"
  by (erule normalize_loop.raw_induct [rotated]) (auto split: if_splits)

text \<open>The region layer throws no usage error.\<close>

lemma map_halves_error: "fst (map_halves os fd base region halves tr) = Inl e \<Longrightarrow> \<not> usage_error e"
  by (induction halves arbitrary: tr) (auto simp: map_throw_def sys_eq Let_def split: sysret.splits if_splits)

lemma region_map_error: "fst (region_map os fd name h d owner tr) = Inl e \<Longrightarrow> \<not> usage_error e"
  by (auto simp: region_map_def map_throw_def sys_eq Let_def simp del: map_halves.simps split: sysret.splits dest: map_halves_error)

lemma page_size_error: "fst (page_size os tr) = Inl e \<Longrightarrow> \<not> usage_error e"
  by (auto simp: page_size_def sys_eq Let_def split: sysret.splits if_splits)

lemma create_sized_error: "fst (create_sized os fd name page cap tr) = Inl e \<Longrightarrow> \<not> usage_error e"
  by (auto simp: create_sized_def sys_eq Let_def split_beta split: sysret.splits sum.splits dest: region_map_error)

lemma create_error: "fst (create os name cap tr) = Inl e \<Longrightarrow> \<not> usage_error e"
  by (auto simp: create_def validate_name_def close_fd_def sys_eq Let_def split_beta
      split: option.splits sum.splits sysret.splits if_splits dest: page_size_error create_sized_error)

lemma sink_new_errors:
  assumes "ShmPacketSink_new os memory kill me name capacity tr = Some (Inl e, tr')"
  shows "\<not> usage_error e"
proof -
  have loop: "\<not> usage_error e" if "normalize_capacity page capacity = Some (Inl e)" for page e
    using normalize_loop_error that by (auto simp: normalize_capacity_def)
  obtain existing tr1 x where "make_region os kill me name capacity existing tr1 = Some x" "fst x = Inl e"
    using assms leave_scope_simps(3)
    by (auto simp: ShmPacketSink_new_def replace_region_def Let_def split_beta split: option.splits sum.splits)
  then show ?thesis
    by (auto simp: make_region_def split_beta split: option.splits sum.splits dest: loop page_size_error create_error)
qed

lemma no_resourcesI: "re_fds s = [] \<Longrightarrow> re_mapped s = [] \<Longrightarrow> re_names s = [] \<Longrightarrow> s = no_resources"
  by (cases s) (simp add: no_resources_def)

text \<open>What the producer's body leaves: a ring it created is finished, and no descriptor, mapping or name is left.\<close>

lemma producer_with_sink_exit:
  assumes "ShmPacketSink_new (ph_os host) memory kill me name capacity [] = Some (Inr sink, tr)"
    and "producer_with_sink host options has_keyboard checksum generator sink tr = Some (r, out)"
  shows "r = Inr 0 \<or> (\<exists>e. r = Inl e \<and> \<not> usage_error e)" "held (po_trace out) = no_resources"
    "po_control out = Some (ShmPacketSink_finish (ph_control host))"
proof -
  let ?drop = "ShmPacketSink_drop (ph_os host) (sink\<lparr>sk_control := ph_control host\<rparr>) tr"
  have r: "r = Inr 0 \<or> (\<exists>e. r = Inl e \<and> \<not> usage_error e)" and out: "po_trace out = snd ?drop" "po_control out = Some (fst ?drop)"
    using assms(2) producer_run_exit
    by (auto simp: producer_with_sink_def Let_def split_beta split: option.splits sum.splits)
  show "r = Inr 0 \<or> (\<exists>e. r = Inl e \<and> \<not> usage_error e)" by (fact r)
  show "held (po_trace out) = no_resources"
    using sink_lifetime [OF assms(1)] by (auto simp: out Let_def no_resources_def intro!: no_resourcesI [unfolded no_resources_def])
  show "po_control out = Some (ShmPacketSink_finish (ph_control host))"
    unfolding out by (simp add: ShmPacketSink_drop_def Let_def split_beta)
qed

lemma producer_body_exit:
  assumes "producer_body host options has_keyboard = Some (r, out)"
  shows "r = Inr 0 \<or> (\<exists>e. r = Inl e \<and> \<not> usage_error e)" "held (po_trace out) = no_resources"
    "po_control out = None \<or> po_control out = Some (ShmPacketSink_finish (ph_control host)) \<and>
       pp_checksum options \<in> {''crc32'', ''crc32c''} \<and> pp_generator options \<in> {''random'', ''sequential''}"
proof -
  let ?new = "ShmPacketSink_new (ph_os host) (ph_memory host) (ph_kill host) (ph_getpid host) (pp_shm_name options) (pp_ring_size options) []"
  let ?known = "pp_checksum options \<in> {''crc32'', ''crc32c''} \<and> pp_generator options \<in> {''random'', ''sequential''}"
  consider (factory) e where "r = Inl e" "\<not> usage_error e" "out = no_ring []"
    | (refused) e tr where "?new = Some (Inl e, tr)" "r = Inl e" "out = no_ring tr"
    | (made) checksum generator sink tr where "?new = Some (Inr sink, tr)" ?known
        "producer_with_sink host options has_keyboard checksum generator sink tr = Some (r, out)"
    using assms
    by (auto simp: producer_body_def make_checksum_def make_payload_generator_def split: sum.splits option.splits if_splits)
  then have "(r = Inr 0 \<or> (\<exists>e. r = Inl e \<and> \<not> usage_error e)) \<and> held (po_trace out) = no_resources \<and>
      (po_control out = None \<or> po_control out = Some (ShmPacketSink_finish (ph_control host)) \<and> ?known)"
  proof cases
    case refused
    then show ?thesis
      using sink_new_errors [OF refused(1)] sink_lifetime [OF refused(1)]
      by (auto simp: no_ring_def no_resources_def intro!: no_resourcesI [unfolded no_resources_def])
  next
    case made
    then show ?thesis using producer_with_sink_exit [OF made(1,3)] by simp
  qed (simp add: no_ring_def)
  then show "r = Inr 0 \<or> (\<exists>e. r = Inl e \<and> \<not> usage_error e)" "held (po_trace out) = no_resources"
    "po_control out = None \<or> po_control out = Some (ShmPacketSink_finish (ph_control host)) \<and> ?known" by blast+
qed

lemma controlled_exit:
  assumes "with_controls host wanted body nothing p = Some ((r, y), p')" "\<not> pr_keyboard_thread p" "\<not> pr_signal_thread p"
    and "\<And>has r y. body has = Some (r, y) \<Longrightarrow> (r = Inr 0 \<or> (\<exists>e. r = Inl e \<and> \<not> usage_error e)) \<and> P r y"
    and "\<And>e. P (Inl e) nothing"
  shows "oc_exit (finish program errno_text ((r, y), p')) \<in> {0, 2}" "P r y"
    "oc_stderr (finish program errno_text ((r, y), p')) = [] \<longleftrightarrow> oc_exit (finish program errno_text ((r, y), p')) = 0"
proof -
  have "r = Inr 0 \<and> P r y \<or> (\<exists>e. r = Inl e \<and> \<not> usage_error e) \<and> P r y"
    using with_controls_process [OF assms(1-3)] assms(4,5) by blast
  then show "oc_exit (finish program errno_text ((r, y), p')) \<in> {0, 2}" "P r y"
    "oc_stderr (finish program errno_text ((r, y), p')) = [] \<longleftrightarrow> oc_exit (finish program errno_text ((r, y), p')) = 0" by auto
qed

section \<open>Properties\<close>

text \<open>
  C14: the exit codes of the consumer: 1 exactly for a command line it does not accept, 2 for any other
  exception, 0 otherwise, also for a request for help; something is written to standard error
  exactly if the code is not 0. A rejected command line and a request for help start nothing; an unknown
  pause policy ends the program without a report. It returns whenever its sessions end.
\<close>

theorem consumer_exit_codes:
  assumes "\<forall>t \<in> set turns. \<forall>m. rt_connect t \<noteq> Inl (UsageError m)" "\<not> pr_keyboard_thread p" "\<not> pr_signal_thread p"
  shows "(\<forall>out. consumer_main host errno_text cpu stats_clock turns argv p = Some out \<longrightarrow>
      oc_exit out \<in> {0, 1, 2} \<and> (oc_exit out = 1 \<longleftrightarrow> (\<exists>e. parse_consumer_options argv = Inl e)) \<and>
      (oc_stderr out = [] \<longleftrightarrow> oc_exit out = 0) \<and>
      (oc_exit out = 1 \<or> (\<exists>help. parse_consumer_options argv = Inr (ShowHelp help)) \<longrightarrow> oc_process out = p \<and> oc_output out = []) \<and>
      (\<forall>options. parse_consumer_options argv = Inr (RunWith options) \<and> cp_pause_policy options \<notin> {''block'', ''discard''} \<longrightarrow>
         oc_exit out = 2 \<and> oc_output out = [])) \<and>
    (\<forall>options. parse_consumer_options argv = Inr (RunWith options) \<and> run_ends (cp_once options) turns \<longrightarrow>
      consumer_main host errno_text cpu stats_clock turns argv p \<noteq> None)"
proof -
  have connect: "\<forall>t \<in> set turns. \<forall>e. rt_connect t = Inl e \<longrightarrow> \<not> usage_error e" using assms(1) by (auto simp: usage_error_def)
  consider e where "parse_consumer_options argv = Inl e" | h where "parse_consumer_options argv = Inr (ShowHelp h)"
    | options where "parse_consumer_options argv = Inr (RunWith options)"
    by (cases "parse_consumer_options argv"; cases "projr (parse_consumer_options argv)") auto
  then show ?thesis
  proof cases
    case (1 e)
    then have "usage_error e" using consumer_options_usage [of argv] by simp
    then show ?thesis using 1 by (auto simp: consumer_main_def)
  next
    case (2 h)
    then show ?thesis by (auto simp: consumer_main_def)
  next
    case (3 options)
    let ?unknown = "cp_pause_policy options \<notin> {''block'', ''discard''}"
    have body: "(r = Inr 0 \<or> (\<exists>e. r = Inl e \<and> \<not> usage_error e)) \<and> (?unknown \<longrightarrow> (\<exists>e. r = Inl e) \<and> y = [])"
      if "consumer_body cpu stats_clock turns options has = Some (r, y)" for has r y
      using consumer_body_exit [OF that connect] that by (auto simp: consumer_body_def make_pause_policy_def)
    have outcome: "oc_exit out \<in> {0, 2}" "oc_stderr out = [] \<longleftrightarrow> oc_exit out = 0" "?unknown \<Longrightarrow> oc_exit out = 2 \<and> oc_output out = []"
      if main: "consumer_main host errno_text cpu stats_clock turns argv p = Some out" for out
    proof -
      obtain r y p' where x: "with_controls host (cp_keyboard options) (consumer_body cpu stats_clock turns options) [] p = Some ((r, y), p')"
        "out = finish ''consumer'' errno_text ((r, y), p')" using main 3 by (auto simp: consumer_main_def)
      note exit = controlled_exit [OF x(1) assms(2,3), where P = "\<lambda>r y. ?unknown \<longrightarrow> (\<exists>e. r = Inl e) \<and> y = []"]
      show code: "oc_exit out \<in> {0, 2}" "oc_stderr out = [] \<longleftrightarrow> oc_exit out = 0"
        unfolding x(2) by (rule exit, erule body, simp)+
      have "?unknown \<longrightarrow> (\<exists>e. r = Inl e) \<and> y = []" by (rule exit, erule body, simp)
      then show "oc_exit out = 2 \<and> oc_output out = []" if ?unknown using code(1) that unfolding x(2) by (auto split: if_splits)
    qed
    have "consumer_main host errno_text cpu stats_clock turns argv p \<noteq> None" if "run_ends (cp_once options) turns"
      using with_controls_returns [of "consumer_body cpu stats_clock turns options"] consumer_body_returns [OF that] 3
      by (auto simp: consumer_main_def)
    then show ?thesis using outcome 3 by auto
  qed
qed

theorem consumer_exit_codes_witness:
  "\<exists>out. consumer_main demo_console [] serial_cpu 0 [] [''consumer'', ''--daemon''] demo_process = Some out \<and>
     oc_exit out = 1 \<and> oc_process out = demo_process"
proof -
  have "\<exists>e. parse_consumer_options [''consumer'', ''--daemon''] = Inl e"
    by (simp add: parse_consumer_options_def parse_def consumer_cli_def cli_builders Let_def named_option_def and_then_def)
  moreover from this obtain out where "consumer_main demo_console [] serial_cpu 0 [] [''consumer'', ''--daemon''] demo_process = Some out"
    by (auto simp: consumer_main_def)
  ultimately show ?thesis
    using consumer_exit_codes [of "[]" demo_process demo_console "[]" serial_cpu 0 "[''consumer'', ''--daemon'']"]
    by (simp add: demo_process_def)
qed

text \<open>
  C15: the exit codes of the producer: 1 exactly for a command line it does not accept, 2 for any other
  exception, 0 otherwise, and an error text exactly if the code is not 0. No ring exists after a rejected
  command line, a request for help, or an unknown checksum or generator; whenever a ring was created
  it is marked finished when the program ends, also if the application throws.
\<close>

theorem producer_exit_codes:
  assumes "producer_main console errno_text fc host argv p = Some out" "\<not> pr_keyboard_thread p" "\<not> pr_signal_thread p"
  shows "oc_exit out \<in> {0, 1, 2} \<and>
    (oc_exit out = 1 \<longleftrightarrow> (\<exists>e. parse_producer_options fc (\<lambda>x. dbl_less x (Finite 0)) argv = Inl e)) \<and>
    (oc_stderr out = [] \<longleftrightarrow> oc_exit out = 0) \<and>
    (\<forall>c. po_control (oc_output out) = Some c \<longrightarrow> rc_state c = RingState_ProducerFinished \<and>
      (\<exists>options. parse_producer_options fc (\<lambda>x. dbl_less x (Finite 0)) argv = Inr (RunWith options) \<and>
         pp_checksum options \<in> {''crc32'', ''crc32c''} \<and> pp_generator options \<in> {''random'', ''sequential''}))"
proof -
  let ?parsed = "parse_producer_options fc (\<lambda>x. dbl_less x (Finite 0)) argv"
  consider e where "?parsed = Inl e" | h where "?parsed = Inr (ShowHelp h)" | options where "?parsed = Inr (RunWith options)"
    by (cases ?parsed; cases "projr ?parsed") auto
  then show ?thesis
  proof cases
    case (1 e)
    then have "usage_error e" using producer_options_usage [of fc "\<lambda>x. dbl_less x (Finite 0)" argv] by simp
    then show ?thesis using 1 assms(1) by (auto simp: producer_main_def no_ring_def)
  next
    case (2 h)
    then show ?thesis using assms(1) by (auto simp: producer_main_def no_ring_def)
  next
    case (3 options)
    let ?P = "\<lambda>r y. \<forall>c. po_control y = Some c \<longrightarrow> rc_state c = RingState_ProducerFinished \<and>
      pp_checksum options \<in> {''crc32'', ''crc32c''} \<and> pp_generator options \<in> {''random'', ''sequential''}"
    have body: "(r = Inr 0 \<or> (\<exists>e. r = Inl e \<and> \<not> usage_error e)) \<and> ?P r y"
      if "producer_body host options has = Some (r, y)" for has r y
      using producer_body_exit [OF that] by (auto simp: ShmPacketSink_finish_def)
    obtain r y p' where x: "with_controls console (pp_keyboard options) (producer_body host options) (no_ring []) p = Some ((r, y), p')"
      "out = finish ''producer'' errno_text ((r, y), p')" using assms(1) 3 by (auto simp: producer_main_def)
    note exit = controlled_exit [OF x(1) assms(2,3), where P = ?P]
    have "oc_exit out \<in> {0, 2}" "oc_stderr out = [] \<longleftrightarrow> oc_exit out = 0"
      unfolding x(2) by (rule exit, erule body, simp add: no_ring_def)+
    moreover have "?P r y" by (rule exit, erule body, simp add: no_ring_def)
    ultimately show ?thesis using 3 by (auto simp: x(2))
  qed
qed

definition demo_producer_host :: producer_host where
  "demo_producer_host = \<lparr>ph_cpu = serial_cpu, ph_avx2 = False, ph_kill = (\<lambda>pid. KillOk), ph_getpid = 1, ph_os = kind_os,
     ph_memory = (\<lambda>r. RingControl_zero), ph_control = RingControl_zero, ph_limiter_clock = 0, ph_inputs = demo_inputs []\<rparr>"

theorem producer_exit_codes_witness:
  "\<exists>out. producer_main demo_console [] (\<lambda>s. None) demo_producer_host [''producer'', ''--daemon''] demo_process = Some out \<and>
     oc_exit out = 1 \<and> oc_stderr out \<noteq> [] \<and> po_control (oc_output out) = None"
proof -
  let ?argv = "[''producer'', ''--daemon'']" and ?main = "producer_main demo_console [] (\<lambda>s. None) demo_producer_host"
  have rejected: "\<exists>e. parse_producer_options (\<lambda>s. None) (\<lambda>x. dbl_less x (Finite 0)) ?argv = Inl e"
    by (simp add: parse_producer_options_def parse_def producer_cli_def cli_builders Let_def named_option_def and_then_def)
  then obtain out where out: "?main ?argv demo_process = Some out" by (auto simp: producer_main_def)
  from producer_exit_codes [OF out] rejected out show ?thesis by (auto simp: demo_process_def)
qed

text \<open>
  C13: both programs give everything back: on every path (help, a usage error, an exception from any
  constructor or from the application, a normal end), whatever the system calls return and the two
  threads meet, neither of the threads is left, and of the process only the signal mask may differ and, if
  the \<^verbatim>\<open>tcsetattr\<close> that restores it fails, the terminal, which is then in raw mode; and the producer
  leaves no descriptor, no mapping and no shared-memory name behind.
\<close>

theorem programs_leave_no_trace:
  assumes "\<not> pr_keyboard_thread p" "\<not> pr_signal_thread p"
  shows "(\<forall>out. consumer_main host errno_text cpu stats_clock turns argv p = Some out \<longrightarrow>
       (oc_process out)\<lparr>pr_blocked := pr_blocked p, pr_tty := pr_tty p\<rparr> = p \<and>
       (pr_tty (oc_process out) = pr_tty p \<or> \<not> ch_tcrestore host \<and> pr_tty (oc_process out) = raw_mode (pr_tty p))) \<and>
    (\<forall>out. producer_main host errno_text fc phost argv p = Some out \<longrightarrow>
       (oc_process out)\<lparr>pr_blocked := pr_blocked p, pr_tty := pr_tty p\<rparr> = p \<and>
       (pr_tty (oc_process out) = pr_tty p \<or> \<not> ch_tcrestore host \<and> pr_tty (oc_process out) = raw_mode (pr_tty p)) \<and>
       held (po_trace (oc_output out)) = no_resources)"
proof -
  have "held (po_trace y) = no_resources"
    if "with_controls host (pp_keyboard options) (producer_body phost options) (no_ring []) p = Some ((r, y), p')" for options r y p'
    using with_controls_process [OF that assms] producer_body_exit(2) by (auto simp: no_ring_def)
  then have producer: "leaves_only host p (oc_process out) \<and> held (po_trace (oc_output out)) = no_resources"
    if "producer_main host errno_text fc phost argv p = Some out" for out
    using that by (auto simp: producer_main_def no_ring_def dest: with_controls_process [OF _ assms]
        split: sum.splits parsed_options.splits)
  have "leaves_only host p (oc_process out)"
    if "consumer_main host errno_text cpu stats_clock turns argv p = Some out" for out
    using that by (auto simp: consumer_main_def dest: with_controls_process [OF _ assms] split: sum.splits parsed_options.splits)
  with producer show ?thesis unfolding leaves_only_def by blast
qed

lemma once_option:
  obtains options where "parse_consumer_options [''consumer'', ''-1''] = Inr (RunWith options)" "cp_once options"
proof -
  let ?items = "[ShortFlag (CHR ''1'')]"
  note defs = consumer_cli_def cli_builders Let_def line_ok_def line_positionals_def setting_def flag_set_def settings_def
    takes_none_def
  have ok: "line_ok consumer_cli ?items None" "\<not> flag_set consumer_cli ''help'' ?items" by (simp_all add: defs)
  have nums: "parse_uint ''1000'' = Some 1000" "parse_uint ''10'' = Some 10"
    by (simp_all add: parse_uint_eq isdigit_def decimal_def digit_value_def)
  define options where "options = \<lparr>cp_shm_name = kDefaultShmName, cp_pause_policy = ''block'', cp_report_interval = 1000,
    cp_max_defect_logs = 10, cp_keyboard = True, cp_once = True\<rparr>"
  have "parse_consumer_options (''consumer'' # line_args ?items None) = Inr (RunWith options)"
    by (subst consumer_options_meaning [OF ok]) (simp add: defs options_def nums)
  then show thesis using that [of options] by (simp add: options_def line_args_def)
qed

theorem programs_leave_no_trace_witness:
  "\<exists>out. consumer_main demo_console [] serial_cpu 0 [demo_run_turn [stop_turn]] [''consumer'', ''-1''] demo_process = Some out \<and>
     pr_tty (oc_process out) = demo_tty \<and> \<not> pr_keyboard_thread (oc_process out)"
proof -
  let ?turns = "[demo_run_turn [stop_turn]]" and ?argv = "[''consumer'', ''-1'']"
  let ?main = "consumer_main demo_console [] serial_cpu 0 ?turns ?argv demo_process"
  obtain options where options: "parse_consumer_options ?argv = Inr (RunWith options)" "cp_once options" by (rule once_option)
  have "run_ends (cp_once options) ?turns" by (simp add: options(2) demo_run_turn_def ends_session_def stop_turn_def)
  then have "?main \<noteq> None"
    using with_controls_returns [of "consumer_body serial_cpu 0 ?turns options"] consumer_body_returns options(1)
    by (auto simp: consumer_main_def)
  then obtain out where out: "?main = Some out" by auto
  have p: "\<not> pr_keyboard_thread demo_process" "\<not> pr_signal_thread demo_process" by (simp_all add: demo_process_def)
  from programs_leave_no_trace [OF p, of demo_console "[]" serial_cpu 0 ?turns ?argv] out
  have left: "(oc_process out)\<lparr>pr_blocked := pr_blocked demo_process, pr_tty := pr_tty demo_process\<rparr> = demo_process"
    "pr_tty (oc_process out) = pr_tty demo_process \<or> \<not> ch_tcrestore demo_console" by blast+
  have "ch_tcrestore demo_console" "pr_tty demo_process = demo_tty" "\<not> pr_keyboard_thread demo_process" by code_simp+
  moreover have "pr_keyboard_thread (oc_process out) = pr_keyboard_thread demo_process"
    using arg_cong [OF left(1), of pr_keyboard_thread] by simp
  ultimately show ?thesis using left(2) out by simp
qed

end
