(* ===== verification/Spec2Isabelle.thy ===== *)
theory Spec2Isabelle
  imports Shm_Region Ring_Owners Producer_On_Ring Programs
begin

text \<open>
  A verification development of the shared-memory producer and consumer.

  \<^bold>\<open>The program.\<close> Two processes stream packets through a single-producer single-consumer ring buffer
  in POSIX shared memory. The producer (\<^verbatim>\<open>src/producer\<close>) fills payloads, seals each packet with a
  header and a checksum and publishes it in the ring; the consumer (\<^verbatim>\<open>src/consumer\<close>) validates
  every packet, keeps statistics and can be paused. \<^verbatim>\<open>src/common\<close> holds the ring, the transport on
  top of it, the packet format, checksums, statistics, run control and command line. Both
  applications call the transport, the clocks and the reporters through interfaces.

  \<^bold>\<open>Theories and sources.\<close>
  \<^item> \<^verbatim>\<open>Pc_Prelude\<close>: the C++ integer types as words, byte strings, exceptions as values, loads and
    stores of machine words, printing of integers, shared lemmas.
  \<^item> \<^verbatim>\<open>Checksum\<close> (\<^verbatim>\<open>checksum.cpp\<close>): table construction, slice-by-8, the hardware loops over CPU
    instructions given as a parameter with their documented meaning, registry and factory. The
    table loop and the hardware loops equal a bit-at-a-time reference. The locale
    \<^verbatim>\<open>checksum_algorithm\<close> states what the packet code needs of a checksum.
  \<^item> \<^verbatim>\<open>Packet\<close> (\<^verbatim>\<open>packet.cpp\<close>): header image, sealing, reading; the layout of a sealed packet
    byte by byte, and the reader's round trip.
  \<^item> \<^verbatim>\<open>Packet_Validator\<close> (\<^verbatim>\<open>packet_validator.cpp\<close>): exact decision of clean and corrupted packets,
    sealed streams are clean, short damage is caught, gaps are accounted for.
  \<^item> \<^verbatim>\<open>Fifo_Spec\<close>: the first-in first-out contract of the channel as a step relation, with a locale
    for its implementations.
  \<^item> \<^verbatim>\<open>Ring_Buffer\<close> (\<^verbatim>\<open>ring_buffer.cpp\<close>): both ends as operations on their private state, the system
    as a step relation that keeps the values stored in each shared counter, a load returning any
    of them since the last one seen; an invariant, which ties these values to the records; refinement of the contract; memory safety, also against a
    damaged ring. \<^verbatim>\<open>Ring_Progress\<close>: records that fit can be sent and received.
  \<^item> \<^verbatim>\<open>Waiting\<close> (\<^verbatim>\<open>backoff.hpp\<close>, \<^verbatim>\<open>wait_until\<close>, \<^verbatim>\<open>rate_limiter.cpp\<close>): schedules, timed waits, pacing; the
    locale \<^verbatim>\<open>waiting\<close> carries a property of one attempt to a whole wait.
  \<^item> \<^verbatim>\<open>Shm_Transport\<close> (\<^verbatim>\<open>shm_transport.cpp\<close>): creation, attach protocol, reserve and receive as waits
    over ring steps, status. \<^verbatim>\<open>Transport_Lifetime\<close>: what both ends hold of the system from constructor
    to destructor, and when a ring can be created. \<^verbatim>\<open>Ring_Owners\<close>: any number of processes that attach and
    detach around one ring; at most one live process consumes it, if the PID of a dead consumer is
    not reused between an attempt's check and its exchange.
  \<^item> \<^verbatim>\<open>Shm_Region\<close> (\<^verbatim>\<open>shm_region.cpp\<close>): system-call traces over a parametric operating system; no path
    leaks a descriptor, a mapping or a name.
  \<^item> \<^verbatim>\<open>Payload_Generator\<close>, \<^verbatim>\<open>Packet_Builder\<close>: vectorised xoshiro256+ equals eight scalar generators;
    building in chunks equals sealing a filled buffer.
  \<^item> \<^verbatim>\<open>Stats\<close>, \<^verbatim>\<open>Consumer_Stats\<close> (\<^verbatim>\<open>stats.cpp\<close>, \<^verbatim>\<open>consumer_stats.cpp\<close>): windows, timers, counters as
    functions of the history.
  \<^item> \<^verbatim>\<open>Run_Control\<close> (\<^verbatim>\<open>control.hpp\<close>, \<^verbatim>\<open>signal_source.cpp\<close>, \<^verbatim>\<open>keyboard_source.cpp\<close>): pause and stop.
    \<^verbatim>\<open>Control_Sources\<close>: construction and destruction of the two sources as changes of the terminal
    settings, the signal mask and the threads. The joins of the destructors return because the loops
    of the threads do; the terminal is given back as it was unless the restoring call fails, a
    failure the code ignores.
  \<^item> \<^verbatim>\<open>Consumer_App\<close> (\<^verbatim>\<open>consumer_app.cpp\<close>, \<^verbatim>\<open>pause_policy.cpp\<close>) and \<^verbatim>\<open>Producer_App\<close>
    (\<^verbatim>\<open>producer_app.cpp\<close>): the two main loops with every call they make, in order.
    \<^verbatim>\<open>Consumer_Run\<close>: a run of the consumer as a sequence of sessions, each with its own summary.
  \<^item> \<^verbatim>\<open>Session_On_Ring\<close> and \<^verbatim>\<open>Producer_On_Ring\<close> (\<^verbatim>\<open>transport.hpp\<close>): the two applications on a ring. The locales
    \<^verbatim>\<open>packet_source\<close> and \<^verbatim>\<open>packet_sink\<close> state what each relies on; their interpretations answer the calls of the
    applications by the operations of \<^verbatim>\<open>Shm_Transport\<close> while the other end takes its own steps. A session
    takes the next published packets and announces the end of the stream only when it has taken all.
  \<^item> \<^verbatim>\<open>Byte_Size\<close>, \<^verbatim>\<open>Cli\<close>, \<^verbatim>\<open>Options\<close> (\<^verbatim>\<open>byte_size.cpp\<close>, \<^verbatim>\<open>cli.cpp\<close>, the two option files): the parsers
    accept exactly a grammar and compute the values the documentation promises.
  \<^item> \<^verbatim>\<open>Binary64\<close>: the \<^verbatim>\<open>double\<close> of the code as IEEE-754 binary64 with rounding to nearest even; error,
    exactness and monotonicity of a rounding. \<^verbatim>\<open>Format_Numbers\<close> (\<^verbatim>\<open>byte_size.cpp\<close>): the texts of sizes and
    durations, with the distance of the printed number from the exact one. \<^verbatim>\<open>Rates\<close> (\<^verbatim>\<open>stats.cpp\<close>,
    \<^verbatim>\<open>transport.hpp\<close>, \<^verbatim>\<open>rate_limiter.cpp\<close>): rates, averages, fill ratios, the interval of a rate.
  \<^item> \<^verbatim>\<open>Reporters\<close> (\<^verbatim>\<open>consumer_reporter.cpp\<close>, \<^verbatim>\<open>producer_reporter.cpp\<close>, the two \<^verbatim>\<open>describe\<close>): every line
    the programs print, as a function of the report the applications made.
  \<^item> \<^verbatim>\<open>Programs\<close> (both \<^verbatim>\<open>main.cpp\<close>): from the arguments of the command line to the exit code, with all
    destructors: exit codes, and what is left behind on every path, shared memory included.
  \<^item> This theory composes them: what a producer commits on a ring reaches the counters of a consumer
    on the same ring as valid, and completely once the end of the stream is announced.

  \<^bold>\<open>Conventions.\<close> Integers have their width: \<^verbatim>\<open>size_t\<close> and \<^verbatim>\<open>uint64_t\<close> are 64-bit words, arithmetic
  wraps as in the code, signed values are read with \<^const>\<open>sint\<close>. Clock readings are unbounded
  integers of nanoseconds, so overflow of a clock or a duration is outside the model. Whatever the
  environment returns (clocks, the stop token, system calls, what the other process did) is an
  argument: loops take one record per turn and return \<^const>\<open>None\<close> when the turns run out before
  they end, and theorems about a returned result have companions that say when the loop returns.
  \<^verbatim>\<open>normalize_capacity\<close>, which would not end for a page size of zero, is a partial function, shown
  to return for a page size that is a power of two. Exceptions are left values of a sum type.
  The C++ memory model is represented by which stored counter values an acquire load may return;
  the bytes of a record are those stored before the counter was published.

  A conversion of a double to an integer that does not fit is undefined in C++ and \<^const>\<open>None\<close> here.
  Signed 64-bit sums and differences of latencies and timestamps wrap here and are undefined in C++
  when they overflow, which needs a timestamp close to the ends of its range. The results of
  \<^verbatim>\<open>close\<close>, \<^verbatim>\<open>munmap\<close> and \<^verbatim>\<open>shm_unlink\<close> are ignored by the code and count as success.

  \<^bold>\<open>Not modelled.\<close> The sign of a floating-point zero, which no code of the program looks at. The
  scheduling of the keyboard and signal threads: their loops are functions of what they read, their
  effects on the run control are sequences of its operations, and the applications see a stop token
  and a pause flag per turn. The programs of \<^verbatim>\<open>Programs\<close> get the results of the transport as inputs of
  the applications; that a ring gives such results is the subject of the two theories above and of this
  one. When the producer's last step is visible to the consumer (its state store, or its death) is a
  hypothesis on the run there. Code that is not part of the repository is an argument: \<^verbatim>\<open>from_chars\<close> for doubles,
  \<^verbatim>\<open>localtime_r\<close>, the texts of system errors, terminal and signal calls, CPU instructions. Flushing
  and failures of the output streams are left out. The tests under \<^verbatim>\<open>src/tests\<close> are not part of the program; the
  reference CRC of one of them is used as a specification.
\<close>

section \<open>From producer to consumer\<close>

lemma prefix_sealed_packets:
  assumes "prefix qs (sealed_packets c s ps)"
  shows "qs = sealed_packets c s (take (length qs) ps)"
proof -
  have "qs = take (length qs) (sealed_packets c s ps)" using assms by (auto simp: prefix_def)
  also have "\<dots> = sealed_packets c s (take (length qs) ps)"
  proof -
    have "sealed_packets c s ps = sealed_packets c s (take (length qs) ps) @ sealed_packets c (s + of_nat (length (take (length qs) ps))) (drop (length qs) ps)"
      by (metis append_take_drop_id sealed_packets_append)
    moreover have "length (sealed_packets c s (take (length qs) ps)) = length qs"
      using prefix_length_le [OF assms] by simp
    ultimately show ?thesis by (metis append_eq_conv_conj)
  qed
  finally show ?thesis .
qed

lemma middle_sealed_packets:
  assumes "prefix (qs @ ms) (sealed_packets c s ps)"
  shows "\<exists>s'. ms = sealed_packets c s' (drop (length qs) (take (length qs + length ms) ps))"
proof -
  let ?ps = "take (length qs + length ms) ps" and ?n = "length qs"
  have le: "length qs + length ms \<le> length ps" using prefix_length_le [OF assms] by simp
  have "qs @ ms = sealed_packets c s (take ?n ?ps @ drop ?n ?ps)" using prefix_sealed_packets [OF assms] by (simp only: append_take_drop_id length_append)
  also have "\<dots> = sealed_packets c s (take ?n ?ps) @ sealed_packets c (s + of_nat (length (take ?n ?ps))) (drop ?n ?ps)"
    by (rule sealed_packets_append)
  finally have "ms = sealed_packets c (s + of_nat (length (take ?n ?ps))) (drop ?n ?ps)"
    using le by (simp add: append_eq_append_conv)
  then show ?thesis by blast
qed

lemma filled_buffers_ok:
  assumes "filled g n ps" "n < 2 ^ 32" "sorted (map (sint \<circ> snd) ps)"
  shows "buffers_ok (drop k (take m ps))"
proof -
  have "set (drop k (take m ps)) \<subseteq> set ps" by (meson set_drop_subset set_take_subset subset_trans)
  moreover have "sorted (map (sint \<circ> snd) (drop k (take m ps)))"
    using sorted_wrt_drop [OF sorted_wrt_take [OF assms(3)]] by (simp add: take_map drop_map)
  ultimately show ?thesis using assms(1,2) by (fastforce simp: buffers_ok_def filled_def)
qed

text \<open>
  C3: from producer to consumer. Let a producer with a registered checksum and a generator of the
  factory run with a payload below 4 GiB while its wall clock does not go back, its calls answered
  by the sink of a ring; let a consumer session of the same run be answered by the source of that
  ring, reading a clock that is at most the tolerance behind the stamps. Then, whatever the schedule
  of the two ends, the loads of the shared counters and the pauses on both sides, the packets of the
  session continue those taken before it, in the order and with the bytes in which they were
  committed; every one is either processed or counted as dropped, and every processed one is valid:
  no corruption, no gap, no rewind and no timestamp anomaly is counted. If the session announces the
  end of the stream, every committed packet has been taken.
\<close>

theorem producer_to_consumer:
  assumes "crc_instructions_documented cpu" "ChecksumRegistry_find cpu k = Some (pb_checksum (pa_builder papp))"
    and "make_payload_generator avx2 kind seed = Inr (pb_generator (pa_builder papp))"
    and "unat (pc_payload_size (pa_config papp)) < 2 ^ 32" "pa_calls papp = []"
    and "slots_sized (unat (packet_size (pa_config papp))) (pi_turns i)"
    and "ProducerApp_run i papp = Some (Inr (code, papp'))"
    and "sorted (map (sint \<circ> ut_wall_clock) (filter producible (pi_turns i)))"
    and "same_run s0 s t u" "serve_all sink_serve (pa_calls papp') s0 u"
    and "serve_all ring_serve (session_served (ca_policy capp) (cc_receive_timeout (ca_config capp)) turns) s t"
    and "run_session (ChecksumRegistry_find cpu) reset_clock timer_clock turns capp = Some capp'"
    and "timely_events (pv_future_tolerance_ns (ca_validator capp)) (session_events (ca_policy capp) turns False)"
  shows "let mine = event_packets (session_events (ca_policy capp) turns False); totals = cs_totals (ca_stats capp') in
    prefix (stream_taken s @ mine) (committed (pa_calls papp')) \<and>
    (stream_ends turns \<longrightarrow> stream_taken s @ mine = committed (pa_calls papp')) \<and>
    ct_received totals + ct_dropped totals = of_nat (length mine) \<and>
    ct_valid totals = ct_received totals \<and> ct_corrupted totals = 0 \<and> ct_sequence_gaps totals = 0 \<and>
    ct_sequence_rewinds totals = 0 \<and> ct_timestamp_anomalies totals = 0"
proof -
  let ?es = "session_events (ca_policy capp) turns False"
  let ?mine = "event_packets ?es" and ?all = "committed (pa_calls papp')"
  have "unat (pc_payload_size (pa_config papp)) < 2 ^ 64 - 32" using assms(4) by simp
  from run_commits [OF assms(1-3) this assms(5-7)] obtain ps where
    ps: "?all = sealed_packets (pb_checksum (pa_builder papp)) 0 ps"
      "filled (pb_generator (pa_builder papp)) (unat (pc_payload_size (pa_config papp))) ps"
      "prefix (map snd ps) (map ut_wall_clock (filter producible (pi_turns i)))" by blast
  have ok: "stream_ok s" using same_run_ok assms(9) .
  note takes = ring_source.session_takes(1) [OF assms(11) ok, of False] ring_source.session_takes(2,3) [OF assms(11) ok]
  note sent = same_run_sent [OF assms(9,10) takes(3)]
  have pre: "prefix (stream_taken s @ ?mine) ?all" using takes(1,2) sent by (metis prefix_order.trans)
  have ends: "stream_taken s @ ?mine = ?all" if "stream_ends turns"
    using ring_source.session_takes_all [OF assms(11) ok that] takes(1) sent by simp
  obtain rest where "map ut_wall_clock (filter producible (pi_turns i)) = map snd ps @ rest" using ps(3) by (auto simp: prefix_def)
  from arg_cong [OF this, of "map sint"] assms(8) have "sorted (map (sint \<circ> snd) ps)" by (simp add: sorted_append)
  note bufs = filled_buffers_ok [OF ps(2) assms(4) this]
  obtain n where "?mine = sealed_packets (pb_checksum (pa_builder papp)) n
      (drop (length (stream_taken s)) (take (length (stream_taken s) + length ?mine) ps))"
    using middle_sealed_packets [OF pre [unfolded ps(1)]] by blast
  note clean = session_clean [OF assms(1,2,12) this bufs assms(13)]
  show ?thesis
    using clean pre ends session_received_and_dropped [OF assms(12)] unfolding Let_def by blast
qed

theorem producer_to_consumer_witness:
  "\<exists>papp' capp' p b s0 s t u. ProducerApp_run (demo_inputs [demo_turn False (Some (replicate 34 0)), demo_turn True None]) (demo_producer 2 0) = Some (Inr (0, papp')) \<and>
     same_run s0 s t u \<and> serve_all sink_serve (pa_calls papp') s0 u \<and>
     serve_all ring_serve (session_served BlockingPausePolicy 50 [packet_turn False p, end_turn b]) s t \<and>
     run_session (ChecksumRegistry_find serial_cpu) 0 0 [packet_turn False p, end_turn b] (demo_app BlockingPausePolicy) = Some capp' \<and>
     committed (pa_calls papp') = [p] \<and> ct_received (cs_totals (ca_stats capp')) + ct_dropped (cs_totals (ca_stats capp')) = 1 \<and>
     ct_valid (cs_totals (ca_stats capp')) = ct_received (cs_totals (ca_stats capp')) \<and> ct_corrupted (cs_totals (ca_stats capp')) = 0"
proof -
  let ?i = "demo_inputs [demo_turn False (Some (replicate 34 0)), demo_turn True None]" and ?papp = "demo_producer 2 0"
  let ?capp = "demo_app BlockingPausePolicy" and ?reg = "ChecksumRegistry_find serial_cpu"
  define p where "p = snd (PacketBuilder_build \<lparr>pb_generator = Sequential 0, pb_checksum = Crc32\<rparr> (replicate 34 0) 0 7)"
  have find: "?reg 1 = Some Crc32" by (simp add: ChecksumRegistry_find_def ChecksumKind_Crc32_def)
  note crc = ChecksumRegistry_algorithm [OF serial_cpu_documented find]
  have p: "p = seal_packet (replicate 32 0 @ snd (fill (Sequential 0) 2)) 0 7 Crc32"
    unfolding p_def by (subst checksum_algorithm.build_eq [OF crc]) (simp_all add: take_replicate)
  have len: "length (snd (fill (Sequential 0) 2)) = 2" using generators.fill_length [of "Sequential 0" 2] by simp
  have p34: "length p = 34" using len by (simp add: p del: fill.simps)
  have "case ProducerApp_run ?i ?papp of Some (Inr (c, a)) \<Rightarrow> c = 0 \<and> pa_calls a = [SinkReserve 34 50, SinkCommit p] | _ \<Rightarrow> False"
    by (simp add: demo_run_defs p_def)
  then obtain papp' where run: "ProducerApp_run ?i ?papp = Some (Inr (0, papp'))" "pa_calls papp' = [SinkReserve 34 50, SinkCommit p]"
    by (auto split: option.splits sum.splits)
  define s0 where "s0 = ring_start RingControl_zero (2 ^ 6) 7 (replicate 64 0)"
  have init: "ring_init s0" unfolding ring_init_def s0_def by (intro exI [of _ RingControl_zero] exI [of _ 6] exI [of _ 7] exI [of _ "replicate 64 0"]) simp
  have cap: "unat (rc_capacity (rs_control s0)) = 64"
    by (simp add: s0_def ring_start_def Let_def initialize_ring_control_def)
  let ?turns = "\<lambda>b. [packet_turn False p, end_turn b]"
  obtain s t u b where st: "same_run s0 s t u" "serve_all sink_serve (pa_calls papp') s0 u"
      "serve_all ring_serve (session_served BlockingPausePolicy 50 (?turns b)) s t" "stream_taken s = []"
    by (rule one_packet_run [OF init, of p 50 BlockingPausePolicy 50]) (simp_all add: cap p34 run(2))
  have "run_session ?reg 0 0 (?turns b) ?capp \<noteq> None"
    by (simp only: run_session_def Let_def session_loop_returns_iff) (simp add: ends_session_def end_turn_def idle_turn_def)
  then obtain capp' where session: "run_session ?reg 0 0 (?turns b) ?capp = Some capp'" by blast
  have app: "ca_policy ?capp = BlockingPausePolicy" "cc_receive_timeout (ca_config ?capp) = 50" by (simp_all add: demo_app_def)
  have es: "session_events BlockingPausePolicy (?turns b) False = [EvProcess p 9]" using drain_events [of _ "[p]"] by simp
  have "timely_events (pv_future_tolerance_ns (ca_validator ?capp)) [EvProcess p 9]"
    using seal_packet_header(2) [of "replicate 32 0 @ snd (fill (Sequential 0) 2)" 0 7 Crc32] len
    by (simp add: timely_events_def p demo_app_def PacketValidator_new_def del: fill.simps)
  note all = producer_to_consumer [OF serial_cpu_documented, of 1 ?papp False "''sequential''" 0 ?i 0 papp' s0 s t u ?capp "?turns b" 0 0 capp',
      unfolded app es, OF _ _ _ _ _ run(1) _ st(1-3) session this]
  have "ct_received (cs_totals (ca_stats capp')) + ct_dropped (cs_totals (ca_stats capp')) = 1 \<and>
      ct_valid (cs_totals (ca_stats capp')) = ct_received (cs_totals (ca_stats capp')) \<and> ct_corrupted (cs_totals (ca_stats capp')) = 0"
    using all find by (simp add: demo_producer_def demo_inputs_def demo_turn_def make_payload_generator_def slots_sized_def
        packet_size_def kHeaderSize_def producible_def Let_def)
  moreover have "committed (pa_calls papp') = [p]" using run(2) by simp
  ultimately show ?thesis using run(1) st(1-3) session by blast
qed

end
